(* ===== verification/Prelude.thy ===== *)
theory Prelude
  imports Main "HOL-Library.AList"
begin

text \<open>
  Shared vocabulary of the development: the exception classes of the simulator
  (\<^verbatim>\<open>src/TokenSim/errors.py\<close>) and of the Python built-ins the modelled code can raise,
  the result of a call that may raise, sequencing of such calls over an explicit state,
  and generic facts on association lists (Python dictionaries keep insertion order, and
  so do \<^const>\<open>AList.update\<close> and \<^const>\<open>AList.delete\<close>) and on lists.
  A call that raises still returns the state it had reached: Python does not undo the
  writes made before a \<^verbatim>\<open>raise\<close>.
\<close>

named_theorems res_simps \<open>evaluation of result-valued calls\<close>

section \<open>Exceptions and results\<close>

datatype py_error =
    ConfigurationError
  | WorkloadValidationError
  | SimulationStateError
  | OutOfBlocksError
  | TransferError
  | PyIndexError
  | PyKeyError
  | PyValueError
  | PyZeroDivisionError
  | PyTypeError
  | PyAttributeError

datatype 'a result = Ok 'a | Raise py_error

definition and_then ::
  "'a result \<times> 's \<Rightarrow> ('a \<Rightarrow> 's \<Rightarrow> 'b result \<times> 's) \<Rightarrow> 'b result \<times> 's" where
  "and_then r f = (case r of (Ok x, s) \<Rightarrow> f x s | (Raise e, s) \<Rightarrow> (Raise e, s))"

lemma and_then_Ok [simp, res_simps]: "and_then (Ok x, s) f = f x s"
  by (simp add: and_then_def)

lemma and_then_Raise [simp, res_simps]: "and_then (Raise e, s) f = (Raise e, s)"
  by (simp add: and_then_def)

lemma and_then_OkE:
  assumes "and_then r f = (Ok y, t)"
  obtains x s where "r = (Ok x, s)" and "f x s = (Ok y, t)"
  using assms by (auto simp: and_then_def split: prod.splits result.splits)

lemma and_then_assoc:
  "and_then (and_then r f) g = and_then r (\<lambda>x s. and_then (f x s) g)"
  by (auto simp: and_then_def split: prod.splits result.splits)

text \<open>A \<^verbatim>\<open>for\<close> loop whose body may raise: the first exception ends the loop.\<close>

fun for_each :: "('a \<Rightarrow> 's \<Rightarrow> unit result \<times> 's) \<Rightarrow> 'a list \<Rightarrow> 's \<Rightarrow> unit result \<times> 's" where
  "for_each f [] s = (Ok (), s)"
| "for_each f (x # xs) s = and_then (f x s) (\<lambda>_ s. for_each f xs s)"

lemma for_each_append:
  "for_each f (xs @ ys) s = and_then (for_each f xs s) (\<lambda>_ s. for_each f ys s)"
  by (induction xs arbitrary: s) (auto simp: and_then_def split: prod.splits result.splits)

section \<open>Dictionaries\<close>

abbreviation dict_keys :: "('k \<times> 'v) list \<Rightarrow> 'k list" where
  "dict_keys d \<equiv> map fst d"

lemma map_of_dict_set [simp]: "map_of (AList.update k v d) = (map_of d)(k \<mapsto> v)"
  by (simp add: update_conv')

lemma map_of_dict_del [simp]: "map_of (AList.delete k d) = (map_of d)(k := None)"
  by (simp add: delete_conv')

lemma distinct_dict_set [simp]:
  "distinct (dict_keys (AList.update k v d)) = distinct (dict_keys d)"
proof (induction d)
  case Nil
  show ?case by simp
next
  case (Cons p d)
  have "fst ` set (AList.update k v d) = insert k (fst ` set d)"
    by (simp add: dom_update)
  with Cons show ?case by auto
qed

lemma distinct_dict_del [simp]:
  "distinct (dict_keys d) \<Longrightarrow> distinct (dict_keys (AList.delete k d))"
  by (rule distinct_delete)

lemma dict_set_new: "map_of d k = None \<Longrightarrow> AList.update k v d = d @ [(k, v)]"
  by (induction d) (auto split: if_splits)

lemma set_dict_del: "set (AList.delete k d) = {p \<in> set d. fst p \<noteq> k}"
  by (induction d) auto

lemma keys_dict_del [simp]: "fst ` set (AList.delete k d) = fst ` set d - {k}"
  by (auto simp: set_dict_del)

lemma length_dict_del:
  "distinct (dict_keys d) \<Longrightarrow>
   length (AList.delete k d) = length d - (if map_of d k = None then 0 else 1)"
proof (induction d)
  case Nil
  show ?case by simp
next
  case (Cons p d)
  obtain a b where p: "p = (a, b)" by (cases p)
  show ?case
  proof (cases "a = k")
    case True
    with Cons.prems p have "k \<notin> fst ` set d" by simp
    then have "AList.delete k d = d" by (rule delete_id)
    with True p show ?thesis by simp
  next
    case False
    from Cons.prems have "map_of d k \<noteq> None \<Longrightarrow> length d \<noteq> 0"
      by (cases d) auto
    with Cons False p show ?thesis by auto
  qed
qed

section \<open>Lists\<close>

lemma filter_neq_notin [simp]: "a \<notin> set xs \<Longrightarrow> filter (\<lambda>x. x \<noteq> a) xs = xs"
  by (induction xs) auto

lemma length_filter_neq:
  "distinct xs \<Longrightarrow> length (filter (\<lambda>x. x \<noteq> a) xs) = length xs - (if a \<in> set xs then 1 else 0)"
  by (induction xs) (auto simp: Suc_diff_le dest: length_pos_if_in_set)

end
