(* ===== verification/Token_Block.thy ===== *)
theory Token_Block
  imports Prelude
begin

text \<open>
  Physical KV-cache blocks (\<^verbatim>\<open>src/TokenSim/block/block.py\<close>). Blocks are mutable Python
  objects shared by the block table, the free queue, the prefix index and the requests,
  so a block is an address into an explicit store and every holder keeps the address.
  The type parameter is the type of prefix keys.
\<close>

datatype device = GPU | CPU

type_synonym addr = nat

record 'k phys_block =
  device_of :: device
  block_number :: int
  blk_size :: int
  ref_count :: nat
  block_hash :: "'k option"
  is_full :: bool
  cached :: bool
  last_accessed :: nat

type_synonym 'k store = "addr \<Rightarrow> 'k phys_block"

text \<open>\<^verbatim>\<open>PhysicalTokenBlock.__init__\<close>\<close>

definition new_block :: "device \<Rightarrow> int \<Rightarrow> int \<Rightarrow> 'k phys_block" where
  "new_block d block_id sz =
     \<lparr>device_of = d, block_number = block_id, blk_size = sz, ref_count = 0,
      block_hash = None, is_full = False, cached = False, last_accessed = 0\<rparr>"

definition clear_cache_metadata :: "'k phys_block \<Rightarrow> 'k phys_block" where
  "clear_cache_metadata b =
     b\<lparr>block_hash := None, is_full := False, cached := False, last_accessed := 0\<rparr>"

text \<open>Writing through a block reference.\<close>

definition upd_block :: "addr \<Rightarrow> ('k phys_block \<Rightarrow> 'k phys_block) \<Rightarrow> 'k store \<Rightarrow> 'k store" where
  "upd_block a f h = h(a := f (h a))"

lemma upd_block_same [simp]: "upd_block a f h a = f (h a)"
  by (simp add: upd_block_def)

lemma upd_block_other [simp]: "a \<noteq> b \<Longrightarrow> upd_block a f h b = h b"
  by (simp add: upd_block_def)

lemma clear_cache_metadata_sel [simp]:
  "device_of (clear_cache_metadata b) = device_of b"
  "block_number (clear_cache_metadata b) = block_number b"
  "blk_size (clear_cache_metadata b) = blk_size b"
  "ref_count (clear_cache_metadata b) = ref_count b"
  "block_hash (clear_cache_metadata b) = None"
  "is_full (clear_cache_metadata b) = False"
  "cached (clear_cache_metadata b) = False"
  "last_accessed (clear_cache_metadata b) = 0"
  by (simp_all add: clear_cache_metadata_def)

lemma new_block_sel [simp]:
  "device_of (new_block d n k) = d"
  "block_number (new_block d n k) = n"
  "blk_size (new_block d n k) = k"
  "ref_count (new_block d n k) = 0"
  "block_hash (new_block d n k) = None"
  "is_full (new_block d n k) = False"
  "cached (new_block d n k) = False"
  "last_accessed (new_block d n k) = 0"
  by (simp_all add: new_block_def)

end
