(* ===== verification/Free_Queue.thy ===== *)
theory Free_Queue
  imports Token_Block
begin

text \<open>
  The free-block queue of a pool (\<^verbatim>\<open>src/TokenSim/block/free_queue.py\<close>): a FIFO of
  uncached blocks and a heap of cached blocks ordered by their access stamp, with lazy
  invalidation. An \<^verbatim>\<open>_Entry\<close> is shared by the FIFO or the heap and by the dictionary, so
  entries live in a store of their own, addressed by an entry number. \<^verbatim>\<open>heapq\<close> is kept
  as the list of its items in pop order: the items are compared by (stamp, sequence
  number), which never ties.
\<close>

section \<open>State and operations\<close>

record entry =
  e_block :: addr
  e_valid :: bool

type_synonym eid = nat

record free_queue =
  fq_fifo :: "eid list"
  fq_heap :: "(nat \<times> nat \<times> eid) list"
  fq_entries :: "(int \<times> eid) list"
  fq_store :: "eid \<Rightarrow> entry"
  fq_next :: eid
  fq_seq :: nat

definition fq_empty :: free_queue where
  "fq_empty = \<lparr>fq_fifo = [], fq_heap = [], fq_entries = [],
     fq_store = (\<lambda>_. \<lparr>e_block = 0, e_valid = False\<rparr>), fq_next = 0, fq_seq = 0\<rparr>"

fun heappush :: "nat \<times> nat \<times> eid \<Rightarrow> (nat \<times> nat \<times> eid) list \<Rightarrow> (nat \<times> nat \<times> eid) list" where
  "heappush x [] = [x]"
| "heappush (t, s, e) ((t', s', e') # xs) =
     (if t < t' \<or> t = t' \<and> s < s' then (t, s, e) # (t', s', e') # xs
      else (t', s', e') # heappush (t, s, e) xs)"

definition fq_len :: "free_queue \<Rightarrow> nat" where
  "fq_len q = length (fq_entries q)"

definition fq_contains :: "'k store \<Rightarrow> free_queue \<Rightarrow> addr \<Rightarrow> bool" where
  "fq_contains h q a = (map_of (fq_entries q) (block_number (h a)) \<noteq> None)"

definition fq_iter :: "free_queue \<Rightarrow> addr list" where
  "fq_iter q = map (\<lambda>(n, e). e_block (fq_store q e)) (fq_entries q)"

definition fq_invalidate :: "'k store \<Rightarrow> free_queue \<Rightarrow> addr \<Rightarrow> free_queue" where
  "fq_invalidate h q a =
     (case map_of (fq_entries q) (block_number (h a)) of
        None \<Rightarrow> q
      | Some e \<Rightarrow>
          q\<lparr>fq_entries := AList.delete (block_number (h a)) (fq_entries q),
            fq_store := (fq_store q)(e := (fq_store q e)\<lparr>e_valid := False\<rparr>)\<rparr>)"

text \<open>\<^verbatim>\<open>_Entry(block)\<close> and its registration under the block number.\<close>

definition fq_new_entry :: "'k store \<Rightarrow> free_queue \<Rightarrow> addr \<Rightarrow> free_queue" where
  "fq_new_entry h q a =
     q\<lparr>fq_store := (fq_store q)(fq_next q := \<lparr>e_block = a, e_valid = True\<rparr>),
       fq_entries := AList.update (block_number (h a)) (fq_next q) (fq_entries q),
       fq_next := Suc (fq_next q)\<rparr>"

definition fq_append :: "'k store \<Rightarrow> free_queue \<Rightarrow> addr \<Rightarrow> free_queue" where
  "fq_append h q a =
     (let q1 = fq_invalidate h q a
      in (fq_new_entry h q1 a)\<lparr>fq_fifo := fq_fifo q1 @ [fq_next q1]\<rparr>)"

definition fq_append_unique :: "'k store \<Rightarrow> free_queue \<Rightarrow> addr \<Rightarrow> free_queue" where
  "fq_append_unique h q a = (if fq_contains h q a then q else fq_append h q a)"

definition fq_append_lru :: "'k store \<Rightarrow> free_queue \<Rightarrow> addr \<Rightarrow> free_queue" where
  "fq_append_lru h q a =
     (let q1 = fq_invalidate h q a; s = Suc (fq_seq q1)
      in (fq_new_entry h q1 a)\<lparr>fq_seq := s,
           fq_heap := heappush (last_accessed (h a), s, fq_next q1) (fq_heap q1)\<rparr>)"

definition fq_remove :: "'k store \<Rightarrow> free_queue \<Rightarrow> addr \<Rightarrow> free_queue" where
  "fq_remove h q a = fq_invalidate h q a"

definition fq_finalize_pop :: "'k store \<Rightarrow> free_queue \<Rightarrow> eid \<Rightarrow> addr \<times> free_queue" where
  "fq_finalize_pop h q e =
     (let b = e_block (fq_store q e)
      in (b, q\<lparr>fq_store := (fq_store q)(e := (fq_store q e)\<lparr>e_valid := False\<rparr>),
               fq_entries := AList.delete (block_number (h b)) (fq_entries q)\<rparr>))"

text \<open>The two \<^verbatim>\<open>while\<close> loops of \<^verbatim>\<open>popleft\<close>: skip stale entries up to the first valid one.\<close>

fun pop_fifo :: "(eid \<Rightarrow> entry) \<Rightarrow> eid list \<Rightarrow> eid option \<times> eid list" where
  "pop_fifo st [] = (None, [])"
| "pop_fifo st (e # es) = (if e_valid (st e) then (Some e, es) else pop_fifo st es)"

fun pop_heap :: "(eid \<Rightarrow> entry) \<Rightarrow> (nat \<times> nat \<times> eid) list \<Rightarrow> eid option \<times> (nat \<times> nat \<times> eid) list" where
  "pop_heap st [] = (None, [])"
| "pop_heap st ((t, s, e) # xs) = (if e_valid (st e) then (Some e, xs) else pop_heap st xs)"

definition fq_popleft :: "'k store \<Rightarrow> free_queue \<Rightarrow> addr result \<times> free_queue" where
  "fq_popleft h q =
     (case pop_fifo (fq_store q) (fq_fifo q) of
        (Some e, es) \<Rightarrow>
          (let (b, q') = fq_finalize_pop h (q\<lparr>fq_fifo := es\<rparr>) e in (Ok b, q'))
      | (None, es) \<Rightarrow>
          (case pop_heap (fq_store q) (fq_heap q) of
             (Some e, xs) \<Rightarrow>
               (let (b, q') = fq_finalize_pop h (q\<lparr>fq_fifo := es, fq_heap := xs\<rparr>) e
                in (Ok b, q'))
           | (None, xs) \<Rightarrow> (Raise PyIndexError, q\<lparr>fq_fifo := es, fq_heap := xs\<rparr>)))"

section \<open>Abstraction: the blocks in hand-out order\<close>

definition fifo_blocks :: "free_queue \<Rightarrow> addr list" where
  "fifo_blocks q =
     map (\<lambda>e. e_block (fq_store q e)) (filter (\<lambda>e. e_valid (fq_store q e)) (fq_fifo q))"

definition lru_blocks :: "free_queue \<Rightarrow> (nat \<times> addr) list" where
  "lru_blocks q =
     map (\<lambda>x. (fst x, e_block (fq_store q (snd (snd x)))))
       (filter (\<lambda>x. e_valid (fq_store q (snd (snd x)))) (fq_heap q))"

definition fq_list :: "free_queue \<Rightarrow> addr list" where
  "fq_list q = fifo_blocks q @ map snd (lru_blocks q)"

text \<open>Insertion of a stamped block behind every block with a stamp at most its own.\<close>

definition insert_lru :: "nat \<Rightarrow> addr \<Rightarrow> (nat \<times> addr) list \<Rightarrow> (nat \<times> addr) list" where
  "insert_lru t a xs =
     filter (\<lambda>p. fst p \<le> t) xs @ (t, a) # filter (\<lambda>p. t < fst p) xs"

abbreviation heap_ids :: "free_queue \<Rightarrow> eid list" where
  "heap_ids q \<equiv> map (\<lambda>x. snd (snd x)) (fq_heap q)"

abbreviation queue_ids :: "free_queue \<Rightarrow> eid list" where
  "queue_ids q \<equiv> fq_fifo q @ heap_ids q"

text \<open>
  Well-formed queues: every entry is queued at most once, the dictionary holds exactly
  the valid queued entries under their block numbers, the heap is in pop order.
\<close>

definition fq_inv :: "'k store \<Rightarrow> free_queue \<Rightarrow> bool" where
  "fq_inv h q \<longleftrightarrow>
     distinct (queue_ids q) \<and>
     distinct (dict_keys (fq_entries q)) \<and>
     (\<forall>e \<in> set (queue_ids q). e < fq_next q) \<and>
     (\<forall>n e. (n, e) \<in> set (fq_entries q) \<longleftrightarrow>
        e \<in> set (queue_ids q) \<and> e_valid (fq_store q e) \<and>
        n = block_number (h (e_block (fq_store q e)))) \<and>
     sorted (map fst (fq_heap q)) \<and>
     (\<forall>x \<in> set (fq_heap q). fst (snd x) \<le> fq_seq q)"


section \<open>Every operation keeps the queue well formed and refines the lists\<close>

text \<open>Distinct queued blocks carry distinct numbers: what the pool guarantees.\<close>

definition numbered :: "'k store \<Rightarrow> free_queue \<Rightarrow> addr \<Rightarrow> bool" where
  "numbered h q a \<longleftrightarrow> inj_on (\<lambda>b. block_number (h b)) (insert a (set (fq_list q)))"

lemma fq_inv_entry:
  assumes "fq_inv h q"
  shows "map_of (fq_entries q) n = Some e \<longleftrightarrow>
    e \<in> set (queue_ids q) \<and> e_valid (fq_store q e) \<and>
    n = block_number (h (e_block (fq_store q e)))"
proof -
  from assms have "distinct (dict_keys (fq_entries q))"
    by (simp add: fq_inv_def)
  then have "map_of (fq_entries q) n = Some e \<longleftrightarrow> (n, e) \<in> set (fq_entries q)"
    by (rule map_of_eq_Some_iff)
  with assms show ?thesis by (simp add: fq_inv_def)
qed

lemma mem_fq_list:
  "a \<in> set (fq_list q) \<longleftrightarrow>
     (\<exists>e \<in> set (queue_ids q). e_valid (fq_store q e) \<and> e_block (fq_store q e) = a)"
  by (force simp: fq_list_def fifo_blocks_def lru_blocks_def image_iff)

text \<open>A valid entry of the block is the one the dictionary has for its number.\<close>

lemma queued_entry_unique:
  assumes inv: "fq_inv h q" and num: "numbered h q a"
    and e: "map_of (fq_entries q) (block_number (h a)) = Some e"
    and e': "e' \<in> set (queue_ids q)" "e_valid (fq_store q e')"
  shows "e_block (fq_store q e') = a \<longleftrightarrow> e' = e"
proof
  assume "e_block (fq_store q e') = a"
  with e' have "map_of (fq_entries q) (block_number (h a)) = Some e'"
    by (simp add: fq_inv_entry [OF inv])
  with e show "e' = e" by simp
next
  assume "e' = e"
  with e have "block_number (h a) = block_number (h (e_block (fq_store q e')))"
    by (simp add: fq_inv_entry [OF inv])
  moreover have "e_block (fq_store q e') \<in> set (fq_list q)"
    unfolding mem_fq_list using e' by blast
  ultimately show "e_block (fq_store q e') = a"
    using num by (auto simp: numbered_def inj_on_def)
qed

lemma unqueued_iff:
  assumes "fq_inv h q" and "numbered h q a"
  shows "map_of (fq_entries q) (block_number (h a)) = None \<longleftrightarrow> a \<notin> set (fq_list q)"
proof (cases "map_of (fq_entries q) (block_number (h a))")
  case None
  then have "a \<notin> set (fq_list q)"
    using fq_inv_entry [OF assms(1), of "block_number (h a)"]
    unfolding mem_fq_list by fastforce
  with None show ?thesis by simp
next
  case (Some e)
  then have "e \<in> set (queue_ids q)" "e_valid (fq_store q e)"
    by (simp_all add: fq_inv_entry [OF assms(1)])
  moreover from this have "e_block (fq_store q e) = a"
    using queued_entry_unique [OF assms Some] by simp
  ultimately have "a \<in> set (fq_list q)"
    unfolding mem_fq_list by blast
  with Some show ?thesis by simp
qed

lemma map_filter_invalidate:
  assumes "\<And>x. x \<in> set xs \<Longrightarrow> e_valid (st (i x)) \<Longrightarrow> (e_block (st (i x)) = a) = (i x = e)"
  shows "map (\<lambda>x. (k x, e_block ((st(e := (st e)\<lparr>e_valid := False\<rparr>)) (i x))))
           (filter (\<lambda>x. e_valid ((st(e := (st e)\<lparr>e_valid := False\<rparr>)) (i x))) xs)
       = filter (\<lambda>p. snd p \<noteq> a) (map (\<lambda>x. (k x, e_block (st (i x))))
           (filter (\<lambda>x. e_valid (st (i x))) xs))"
  using assms by (induction xs) (auto split: if_splits)

lemma fifo_blocks_alt:
  "fifo_blocks q = map snd (map (\<lambda>e. ((), e_block (fq_store q e)))
     (filter (\<lambda>e. e_valid (fq_store q e)) (fq_fifo q)))"
  by (simp add: fifo_blocks_def)

lemma snd_filter: "map snd (filter (\<lambda>p. snd p \<noteq> a) xs) = filter (\<lambda>b. b \<noteq> a) (map snd xs)"
  by (induction xs) auto

lemma invalidate_blocks:
  assumes inv: "fq_inv h q" and num: "numbered h q a"
  shows "fifo_blocks (fq_invalidate h q a) = filter (\<lambda>b. b \<noteq> a) (fifo_blocks q)"
    and "lru_blocks (fq_invalidate h q a) = filter (\<lambda>p. snd p \<noteq> a) (lru_blocks q)"
proof -
  have "fifo_blocks (fq_invalidate h q a) = filter (\<lambda>b. b \<noteq> a) (fifo_blocks q) \<and>
        lru_blocks (fq_invalidate h q a) = filter (\<lambda>p. snd p \<noteq> a) (lru_blocks q)"
  proof (cases "map_of (fq_entries q) (block_number (h a))")
    case None
    then have notin: "a \<notin> set (fq_list q)"
      using unqueued_iff [OF assms] by simp
    then have "filter (\<lambda>p. snd p \<noteq> a) (lru_blocks q) = lru_blocks q"
      by (intro filter_True) (force simp: fq_list_def)
    with notin None show ?thesis
      by (simp add: fq_invalidate_def fq_list_def)
  next
    case (Some e)
    note uniq = queued_entry_unique [OF assms Some]
    have "fifo_blocks (fq_invalidate h q a) = filter (\<lambda>b. b \<noteq> a) (fifo_blocks q)"
      unfolding fifo_blocks_alt snd_filter [symmetric]
      using map_filter_invalidate [of "fq_fifo q" "fq_store q" "\<lambda>e. e" a e "\<lambda>_. ()"] uniq Some
      by (simp add: fq_invalidate_def)
    moreover have "lru_blocks (fq_invalidate h q a) = filter (\<lambda>p. snd p \<noteq> a) (lru_blocks q)"
      unfolding lru_blocks_def
      using map_filter_invalidate [of "fq_heap q" "fq_store q" "\<lambda>x. snd (snd x)" a e fst] uniq Some
      by (simp add: fq_invalidate_def)
    ultimately show ?thesis ..
  qed
  then show "fifo_blocks (fq_invalidate h q a) = filter (\<lambda>b. b \<noteq> a) (fifo_blocks q)"
    and "lru_blocks (fq_invalidate h q a) = filter (\<lambda>p. snd p \<noteq> a) (lru_blocks q)"
    by simp_all
qed


lemma fq_inv_cong:
  assumes "\<And>b. b \<in> set (fq_list q) \<Longrightarrow> block_number (h' b) = block_number (h b)"
  shows "fq_inv h' q = fq_inv h q"
proof -
  have "e \<in> set (queue_ids q) \<and> e_valid (fq_store q e) \<Longrightarrow>
    block_number (h' (e_block (fq_store q e))) = block_number (h (e_block (fq_store q e)))" for e
    by (rule assms) (unfold mem_fq_list, blast)
  then have "(e \<in> set (queue_ids q) \<and> e_valid (fq_store q e) \<and>
      n = block_number (h' (e_block (fq_store q e)))) =
    (e \<in> set (queue_ids q) \<and> e_valid (fq_store q e) \<and>
      n = block_number (h (e_block (fq_store q e))))" for n e
    by metis
  then show ?thesis unfolding fq_inv_def by simp
qed

lemma invalidate_ids [simp]:
  "fq_fifo (fq_invalidate h q a) = fq_fifo q"
  "fq_heap (fq_invalidate h q a) = fq_heap q"
  "fq_next (fq_invalidate h q a) = fq_next q"
  "fq_seq (fq_invalidate h q a) = fq_seq q"
  by (simp_all add: fq_invalidate_def split: option.split)

lemma fq_inv_invalidate:
  assumes inv: "fq_inv h q"
  shows "fq_inv h (fq_invalidate h q a)"
proof (cases "map_of (fq_entries q) (block_number (h a))")
  case None
  with inv show ?thesis by (simp add: fq_invalidate_def)
next
  case (Some e)
  have other: "(n, e') \<in> set (fq_entries q) \<Longrightarrow> (n = block_number (h a)) = (e' = e)" for n e'
    using Some inv unfolding fq_inv_def
    by (metis map_of_eq_Some_iff option.inject)
  have q': "fq_invalidate h q a =
    q\<lparr>fq_entries := AList.delete (block_number (h a)) (fq_entries q),
      fq_store := (fq_store q)(e := (fq_store q e)\<lparr>e_valid := False\<rparr>)\<rparr>"
    using Some by (simp add: fq_invalidate_def)
  have "(n, e') \<in> set (AList.delete (block_number (h a)) (fq_entries q)) \<longleftrightarrow>
    (n, e') \<in> set (fq_entries q) \<and> e' \<noteq> e" for n e'
    using other by (auto simp: set_dict_del)
  with inv show ?thesis
    unfolding fq_inv_def q' by simp
qed

lemma invalidate_unmapped:
  "fq_inv h q \<Longrightarrow> map_of (fq_entries (fq_invalidate h q a)) (block_number (h a)) = None"
  by (simp add: fq_invalidate_def split: option.split)

text \<open>Heap insertion of the newest sequence number.\<close>

lemma heappush_newest:
  assumes "\<And>x. x \<in> set xs \<Longrightarrow> fst (snd x) < s"
  shows "heappush (t, s, e) xs =
    takeWhile (\<lambda>x. fst x \<le> t) xs @ (t, s, e) # dropWhile (\<lambda>x. fst x \<le> t) xs"
  using assms by (induction xs) (force+)

lemma sorted_split:
  assumes "sorted (map fst xs)"
  shows "takeWhile (\<lambda>x. fst x \<le> t) xs = filter (\<lambda>x. fst x \<le> t) xs"
    and "dropWhile (\<lambda>x. fst x \<le> t) xs = filter (\<lambda>x. t < fst x) xs"
proof -
  have "takeWhile (\<lambda>x. fst x \<le> t) xs = filter (\<lambda>x. fst x \<le> t) xs \<and>
        dropWhile (\<lambda>x. fst x \<le> t) xs = filter (\<lambda>x. t < fst x) xs"
    using assms
  proof (induction xs)
    case Nil
    show ?case by simp
  next
    case (Cons x xs)
    show ?case
    proof (cases "fst x \<le> t")
      case True
      with Cons show ?thesis by simp
    next
      case False
      with Cons.prems have "\<forall>y \<in> set xs. t < fst y" by auto
      then have "filter (\<lambda>x. fst x \<le> t) xs = []" "filter (\<lambda>x. t < fst x) xs = xs"
        by (auto simp: filter_empty_conv)
      with False show ?thesis by simp
    qed
  qed
  then show "takeWhile (\<lambda>x. fst x \<le> t) xs = filter (\<lambda>x. fst x \<le> t) xs"
    and "dropWhile (\<lambda>x. fst x \<le> t) xs = filter (\<lambda>x. t < fst x) xs" by simp_all
qed

lemma heappush_split:
  assumes "sorted (map fst xs)" and "\<And>x. x \<in> set xs \<Longrightarrow> fst (snd x) < s"
  shows "heappush (t, s, e) xs =
    filter (\<lambda>x. fst x \<le> t) xs @ (t, s, e) # filter (\<lambda>x. t < fst x) xs"
  using heappush_newest [OF assms(2)] sorted_split [OF assms(1)] by simp

lemma split_insert:
  fixes t :: nat and z :: 'b
  assumes "sorted (map fst xs)"
  defines "ys \<equiv> filter (\<lambda>x. fst x \<le> t) xs @ (t, z) # filter (\<lambda>x. t < fst x) xs"
  shows "set ys = insert (t, z) (set xs)"
    and "sorted (map fst ys)"
    and "distinct (map g ys) = (distinct (map g xs) \<and> g (t, z) \<notin> g ` set xs)"
proof -
  show "set ys = insert (t, z) (set xs)" by (auto simp: ys_def)
  show "sorted (map fst ys)"
    using assms(1) by (force simp: ys_def sorted_append sorted_filter)
  have "xs = filter (\<lambda>x. fst x \<le> t) xs @ filter (\<lambda>x. t < fst x) xs"
    using sorted_split [OF assms(1), of t] takeWhile_dropWhile_id [of "\<lambda>x. fst x \<le> t" xs] by simp
  then have "distinct (map g xs) =
    distinct (map g (filter (\<lambda>x. fst x \<le> t) xs) @ map g (filter (\<lambda>x. t < fst x) xs))"
    by (metis map_append)
  moreover have "g ` set xs = g ` {x \<in> set xs. fst x \<le> t} \<union> g ` {x \<in> set xs. t < fst x}"
    unfolding image_Un [symmetric] by (rule arg_cong [where f = "image g"]) auto
  ultimately show "distinct (map g ys) = (distinct (map g xs) \<and> g (t, z) \<notin> g ` set xs)"
    by (auto simp: ys_def)
qed

lemma heappush_facts:
  assumes "sorted (map fst xs)" and "\<And>x. x \<in> set xs \<Longrightarrow> fst (snd x) < s"
  shows "set (heappush (t, s, e) xs) = insert (t, s, e) (set xs)"
    and "sorted (map fst (heappush (t, s, e) xs))"
    and "distinct (map g (heappush (t, s, e) xs)) =
      (distinct (map g xs) \<and> g (t, s, e) \<notin> g ` set xs)"
  using split_insert [OF assms(1), where t = t and z = "(s, e)"] heappush_split [OF assms, of t e]
  by metis+

text \<open>A fresh entry changes no other entry and is the only one of its block.\<close>

lemma fq_inv_ids_less:
  "fq_inv h q \<Longrightarrow> e \<in> set (queue_ids q) \<Longrightarrow> e < fq_next q"
  by (simp add: fq_inv_def)

lemma new_entry_store:
  "fq_store (fq_new_entry h q a) e =
     (if e = fq_next q then \<lparr>e_block = a, e_valid = True\<rparr> else fq_store q e)"
  by (simp add: fq_new_entry_def)

lemma new_entry_sel [simp]:
  "fq_fifo (fq_new_entry h q a) = fq_fifo q"
  "fq_heap (fq_new_entry h q a) = fq_heap q"
  "fq_next (fq_new_entry h q a) = Suc (fq_next q)"
  "fq_seq (fq_new_entry h q a) = fq_seq q"
  "fq_entries (fq_new_entry h q a) =
     AList.update (block_number (h a)) (fq_next q) (fq_entries q)"
  by (simp_all add: fq_new_entry_def)

lemma new_entry_old_blocks:
  assumes "fq_inv h q"
  shows "map (\<lambda>e. e_block (fq_store (fq_new_entry h q a) e))
           (filter (\<lambda>e. e_valid (fq_store (fq_new_entry h q a) e)) (fq_fifo q)) = fifo_blocks q"
    and "map (\<lambda>x. (fst x, e_block (fq_store (fq_new_entry h q a) (snd (snd x)))))
           (filter (\<lambda>x. P x \<and> e_valid (fq_store (fq_new_entry h q a) (snd (snd x)))) (fq_heap q)) =
         map (\<lambda>x. (fst x, e_block (fq_store q (snd (snd x)))))
           (filter (\<lambda>x. P x \<and> e_valid (fq_store q (snd (snd x)))) (fq_heap q))"
proof -
  have old: "fq_store (fq_new_entry h q a) e = fq_store q e" if "e \<in> set (queue_ids q)" for e
    using fq_inv_ids_less [OF assms that] by (simp add: new_entry_store)
  have "filter (\<lambda>e. e_valid (fq_store (fq_new_entry h q a) e)) (fq_fifo q) =
        filter (\<lambda>e. e_valid (fq_store q e)) (fq_fifo q)"
    by (rule filter_cong) (simp_all add: old)
  then show "map (\<lambda>e. e_block (fq_store (fq_new_entry h q a) e))
     (filter (\<lambda>e. e_valid (fq_store (fq_new_entry h q a) e)) (fq_fifo q)) = fifo_blocks q"
    by (simp add: fifo_blocks_def old)
  have "filter (\<lambda>x. P x \<and> e_valid (fq_store (fq_new_entry h q a) (snd (snd x)))) (fq_heap q) =
        filter (\<lambda>x. P x \<and> e_valid (fq_store q (snd (snd x)))) (fq_heap q)"
    by (rule filter_cong) (simp_all add: old)
  then show "map (\<lambda>x. (fst x, e_block (fq_store (fq_new_entry h q a) (snd (snd x)))))
     (filter (\<lambda>x. P x \<and> e_valid (fq_store (fq_new_entry h q a) (snd (snd x)))) (fq_heap q)) =
     map (\<lambda>x. (fst x, e_block (fq_store q (snd (snd x)))))
     (filter (\<lambda>x. P x \<and> e_valid (fq_store q (snd (snd x)))) (fq_heap q))"
    by (simp add: old)
qed

lemma fq_inv_new_entry:
  assumes inv: "fq_inv h q" and new: "map_of (fq_entries q) (block_number (h a)) = None"
    and ids: "set (queue_ids q') = insert (fq_next q) (set (queue_ids q))"
      "distinct (queue_ids q')"
    and heap: "sorted (map fst (fq_heap q'))" "\<And>x. x \<in> set (fq_heap q') \<Longrightarrow> fst (snd x) \<le> fq_seq q'"
    and same: "fq_entries q' = fq_entries (fq_new_entry h q a)"
      "fq_store q' = fq_store (fq_new_entry h q a)" "fq_next q' = Suc (fq_next q)"
  shows "fq_inv h q'"
proof -
  have fresh: "fq_next q \<notin> set (queue_ids q)"
    using fq_inv_ids_less [OF inv] by blast
  have "(n, e) \<in> set (fq_entries q') \<longleftrightarrow>
    (n, e) \<in> set (fq_entries q) \<or> (n = block_number (h a) \<and> e = fq_next q)" for n e
    using dict_set_new [OF new, of "fq_next q"] by (auto simp: same)
  moreover have "(n, e) \<in> set (fq_entries q) \<longleftrightarrow> e \<in> set (queue_ids q) \<and>
    e_valid (fq_store q e) \<and> n = block_number (h (e_block (fq_store q e)))" for n e
    using inv by (simp add: fq_inv_def)
  ultimately have "(n, e) \<in> set (fq_entries q') \<longleftrightarrow> e \<in> set (queue_ids q') \<and>
    e_valid (fq_store q' e) \<and> n = block_number (h (e_block (fq_store q' e)))" for n e
    unfolding ids same new_entry_store using fresh by auto
  moreover have "e < fq_next q'" if "e \<in> set (queue_ids q')" for e
    using that fq_inv_ids_less [OF inv, of e] unfolding ids same
    by (metis insert_iff less_Suc_eq)
  moreover have "distinct (dict_keys (fq_entries q'))"
    using inv by (simp add: same fq_inv_def)
  ultimately show ?thesis
    using ids(2) heap unfolding fq_inv_def by blast
qed

lemma fq_append_refines:
  assumes inv: "fq_inv h q" and num: "numbered h q a"
  shows "fifo_blocks (fq_append h q a) = filter (\<lambda>b. b \<noteq> a) (fifo_blocks q) @ [a]"
    and "lru_blocks (fq_append h q a) = filter (\<lambda>p. snd p \<noteq> a) (lru_blocks q)"
    and "fq_inv h (fq_append h q a)"
proof -
  define q1 where "q1 = fq_invalidate h q a"
  have inv1: "fq_inv h q1" unfolding q1_def by (rule fq_inv_invalidate [OF inv])
  have new: "map_of (fq_entries q1) (block_number (h a)) = None"
    unfolding q1_def by (rule invalidate_unmapped [OF inv])
  have app: "fq_append h q a = (fq_new_entry h q1 a)\<lparr>fq_fifo := fq_fifo q1 @ [fq_next q1]\<rparr>"
    by (simp add: fq_append_def q1_def Let_def)
  have fresh: "fq_next q1 \<notin> set (queue_ids q1)"
    using fq_inv_ids_less [OF inv1] by blast
  show "fifo_blocks (fq_append h q a) = filter (\<lambda>b. b \<noteq> a) (fifo_blocks q) @ [a]"
    using new_entry_old_blocks(1) [OF inv1, of a] invalidate_blocks(1) [OF inv num]
    unfolding app fifo_blocks_def by (simp add: new_entry_store q1_def)
  show "lru_blocks (fq_append h q a) = filter (\<lambda>p. snd p \<noteq> a) (lru_blocks q)"
    using new_entry_old_blocks(2) [OF inv1, of a "\<lambda>_. True"] invalidate_blocks(2) [OF inv num]
    unfolding app lru_blocks_def by (simp add: q1_def)
  show "fq_inv h (fq_append h q a)"
    using inv1 fresh unfolding app
    by (intro fq_inv_new_entry [OF inv1 new]) (auto simp: fq_inv_def)
qed

lemma fq_append_lru_refines:
  assumes inv: "fq_inv h q" and num: "numbered h q a"
  shows "fifo_blocks (fq_append_lru h q a) = filter (\<lambda>b. b \<noteq> a) (fifo_blocks q)"
    and "lru_blocks (fq_append_lru h q a) =
      insert_lru (last_accessed (h a)) a (filter (\<lambda>p. snd p \<noteq> a) (lru_blocks q))"
    and "fq_inv h (fq_append_lru h q a)"
proof -
  define q1 where "q1 = fq_invalidate h q a"
  define t where "t = last_accessed (h a)"
  have inv1: "fq_inv h q1" unfolding q1_def by (rule fq_inv_invalidate [OF inv])
  have new: "map_of (fq_entries q1) (block_number (h a)) = None"
    unfolding q1_def by (rule invalidate_unmapped [OF inv])
  have sorted1: "sorted (map fst (fq_heap q1))"
    and seq1: "\<And>x. x \<in> set (fq_heap q1) \<Longrightarrow> fst (snd x) \<le> fq_seq q1"
    using inv1 by (simp_all add: fq_inv_def)
  then have less1: "\<And>x. x \<in> set (fq_heap q1) \<Longrightarrow> fst (snd x) < Suc (fq_seq q1)"
    by (simp add: le_imp_less_Suc)
  have push: "heappush (t, Suc (fq_seq q1), fq_next q1) (fq_heap q1) =
    filter (\<lambda>x. fst x \<le> t) (fq_heap q1) @ (t, Suc (fq_seq q1), fq_next q1)
      # filter (\<lambda>x. t < fst x) (fq_heap q1)"
    by (rule heappush_split [OF sorted1 less1])
  have app: "fq_append_lru h q a = (fq_new_entry h q1 a)\<lparr>fq_seq := Suc (fq_seq q1),
      fq_heap := heappush (t, Suc (fq_seq q1), fq_next q1) (fq_heap q1)\<rparr>"
    by (simp add: fq_append_lru_def q1_def t_def Let_def)
  have fresh: "fq_next q1 \<notin> set (queue_ids q1)"
    using fq_inv_ids_less [OF inv1] by blast
  show "fifo_blocks (fq_append_lru h q a) = filter (\<lambda>b. b \<noteq> a) (fifo_blocks q)"
    using new_entry_old_blocks(1) [OF inv1, of a] invalidate_blocks(1) [OF inv num]
    unfolding app fifo_blocks_def by (simp add: q1_def)
  show "lru_blocks (fq_append_lru h q a) =
      insert_lru (last_accessed (h a)) a (filter (\<lambda>p. snd p \<noteq> a) (lru_blocks q))"
    using new_entry_old_blocks(2) [OF inv1, of a "\<lambda>x. fst x \<le> t"]
      new_entry_old_blocks(2) [OF inv1, of a "\<lambda>x. t < fst x"]
      invalidate_blocks(2) [OF inv num, symmetric]
    unfolding app lru_blocks_def insert_lru_def
    by (simp add: new_entry_store push filter_map comp_def conj_commute
        flip: q1_def t_def)
  define hp where "hp = heappush (t, Suc (fq_seq q1), fq_next q1) (fq_heap q1)"
  have "set hp = insert (t, Suc (fq_seq q1), fq_next q1) (set (fq_heap q1))"
    and "sorted (map fst hp)"
    and "distinct (map (\<lambda>x. snd (snd x)) hp)"
    using heappush_facts(1,2) [OF sorted1 less1, of t "fq_next q1"]
      heappush_facts(3) [OF sorted1 less1, of "\<lambda>x. snd (snd x)" t "fq_next q1"] inv1 fresh
    unfolding hp_def by (simp_all add: fq_inv_def)
  then show "fq_inv h (fq_append_lru h q a)"
    using inv1 fresh seq1 unfolding app hp_def [symmetric]
    by (intro fq_inv_new_entry [OF inv1 new]) (auto simp: fq_inv_def le_SucI)
qed

text \<open>Popping: the stale prefix is dropped and the first valid entry is handed out.\<close>

lemma pop_fifo_split:
  "pop_fifo st es = (Some e, rest) \<Longrightarrow>
     \<exists>stale. es = stale @ e # rest \<and> e_valid (st e) \<and> (\<forall>x \<in> set stale. \<not> e_valid (st x))"
  "pop_fifo st es = (None, rest) \<Longrightarrow> rest = [] \<and> (\<forall>x \<in> set es. \<not> e_valid (st x))"
proof (induction es)
  case (Cons x es)
  {
    case 1
    with Cons.IH(1) show ?case
      by (cases "e_valid (st x)") (force intro: exI [of _ "[]"] exI [of _ "x # _"])+
  next
    case 2
    with Cons.IH(2) show ?case by (auto split: if_splits)
  }
qed simp_all

lemma pop_heap_split:
  "pop_heap st xs = (Some e, rest) \<Longrightarrow>
     \<exists>stale t s. xs = stale @ (t, s, e) # rest \<and> e_valid (st e) \<and>
       (\<forall>x \<in> set stale. \<not> e_valid (st (snd (snd x))))"
  "pop_heap st xs = (None, rest) \<Longrightarrow> rest = [] \<and> (\<forall>x \<in> set xs. \<not> e_valid (st (snd (snd x))))"
proof (induction xs)
  case (Cons x xs)
  obtain t s i where x: "x = (t, s, i)" by (cases x)
  {
    case 1
    with Cons.IH(1) x show ?case
      by (cases "e_valid (st i)") (force intro: exI [of _ "[]"] exI [of _ "x # _"])+
  next
    case 2
    with Cons.IH(2) x show ?case by (auto split: if_splits)
  }
qed simp_all

lemma fq_inv_finalize_pop:
  assumes inv: "fq_inv h q" and e: "e \<in> set (queue_ids q)" "e_valid (fq_store q e)"
    and ids: "distinct (queue_ids q')" "set (queue_ids q') \<subseteq> set (queue_ids q) - {e}"
    and stale: "\<And>x. x \<in> set (queue_ids q) \<Longrightarrow> x \<notin> set (queue_ids q') \<Longrightarrow> x \<noteq> e \<Longrightarrow>
      \<not> e_valid (fq_store q x)"
    and heap: "sorted (map fst (fq_heap q'))" "set (fq_heap q') \<subseteq> set (fq_heap q)"
    and same: "fq_next q' = fq_next q" "fq_seq q' = fq_seq q" "fq_store q' = fq_store q"
      "fq_entries q' = fq_entries q"
  shows "fq_inv h (snd (fq_finalize_pop h q' e))"
proof -
  define b where "b = e_block (fq_store q e)"
  define r where "r = snd (fq_finalize_pop h q' e)"
  have r: "r = q'\<lparr>fq_store := (fq_store q)(e := (fq_store q e)\<lparr>e_valid := False\<rparr>),
      fq_entries := AList.delete (block_number (h b)) (fq_entries q)\<rparr>"
    by (simp add: r_def fq_finalize_pop_def same b_def Let_def)
  have entry: "(n, x) \<in> set (fq_entries q) \<longleftrightarrow> x \<in> set (queue_ids q) \<and>
    e_valid (fq_store q x) \<and> n = block_number (h (e_block (fq_store q x)))" for n x
    using inv by (simp add: fq_inv_def)
  have "map_of (fq_entries q) (block_number (h b)) = Some e"
    using e by (simp add: fq_inv_entry [OF inv] b_def)
  then have number: "(n, x) \<in> set (fq_entries q) \<Longrightarrow> (n = block_number (h b)) = (x = e)" for n x
    using inv unfolding fq_inv_def by (metis map_of_eq_Some_iff option.inject)
  have "(n, x) \<in> set (fq_entries r) \<longleftrightarrow> (n, x) \<in> set (fq_entries q) \<and> x \<noteq> e" for n x
    using number by (auto simp: r set_dict_del)
  then have "(n, x) \<in> set (fq_entries r) \<longleftrightarrow> x \<in> set (queue_ids r) \<and>
    e_valid (fq_store r x) \<and> n = block_number (h (e_block (fq_store r x)))" for n x
    unfolding entry using ids(2) stale [of x] e by (cases "x = e") (auto simp: r)
  moreover have "queue_ids r = queue_ids q'" "fq_next r = fq_next q"
    by (simp_all add: r same)
  then have "\<forall>x \<in> set (queue_ids r). x < fq_next r"
    using ids(2) fq_inv_ids_less [OF inv] by (metis DiffD1 subsetD)
  moreover have "\<forall>x \<in> set (fq_heap r). fst (snd x) \<le> fq_seq r"
    using heap(2) inv by (auto simp: r same fq_inv_def)
  moreover have "distinct (dict_keys (fq_entries r))"
    using inv by (simp add: r fq_inv_def)
  ultimately have "fq_inv h r"
    using ids(1) heap(1) unfolding fq_inv_def by (simp add: r)
  then show ?thesis by (simp add: r_def)
qed

lemma finalize_pop_blocks:
  assumes "e \<notin> set (queue_ids q)"
  shows "fst (fq_finalize_pop h q e) = e_block (fq_store q e)"
    and "fifo_blocks (snd (fq_finalize_pop h q e)) = fifo_blocks q"
    and "lru_blocks (snd (fq_finalize_pop h q e)) = lru_blocks q"
proof -
  define st where "st = (fq_store q)(e := (fq_store q e)\<lparr>e_valid := False\<rparr>)"
  have st: "st x = fq_store q x" if "x \<in> set (queue_ids q)" for x
    using that assms by (auto simp: st_def)
  have "filter (\<lambda>x. e_valid (st x)) (fq_fifo q) = filter (\<lambda>x. e_valid (fq_store q x)) (fq_fifo q)"
    and "filter (\<lambda>x. e_valid (st (snd (snd x)))) (fq_heap q) =
      filter (\<lambda>x. e_valid (fq_store q (snd (snd x)))) (fq_heap q)"
    by (rule filter_cong; simp add: st)+
  then show "fst (fq_finalize_pop h q e) = e_block (fq_store q e)"
    and "fifo_blocks (snd (fq_finalize_pop h q e)) = fifo_blocks q"
    and "lru_blocks (snd (fq_finalize_pop h q e)) = lru_blocks q"
    by (simp_all add: fq_finalize_pop_def Let_def fifo_blocks_def lru_blocks_def st
        flip: st_def)
qed

lemma fq_popleft_fifo:
  assumes inv: "fq_inv h q" and pop: "pop_fifo (fq_store q) (fq_fifo q) = (Some e, es)"
  shows "fifo_blocks q = e_block (fq_store q e) # fifo_blocks (snd (fq_popleft h q))"
    and "lru_blocks (snd (fq_popleft h q)) = lru_blocks q"
    and "fst (fq_popleft h q) = Ok (e_block (fq_store q e))"
    and "fq_inv h (snd (fq_popleft h q))"
proof -
  obtain stale where es: "fq_fifo q = stale @ e # es" and e: "e_valid (fq_store q e)"
    and st: "\<forall>x \<in> set stale. \<not> e_valid (fq_store q x)"
    using pop_fifo_split(1) [OF pop] by blast
  define q' where "q' = q\<lparr>fq_fifo := es\<rparr>"
  have popl: "fq_popleft h q = (Ok (e_block (fq_store q e)), snd (fq_finalize_pop h q' e))"
    by (simp add: fq_popleft_def pop q'_def fq_finalize_pop_def Let_def)
  have dist: "distinct (stale @ e # es @ heap_ids q)"
    using inv es by (simp add: fq_inv_def)
  then have notin: "e \<notin> set (queue_ids q')" by (auto simp: q'_def)
  from finalize_pop_blocks [OF notin, of h]
  show "lru_blocks (snd (fq_popleft h q)) = lru_blocks q"
    by (simp add: popl lru_blocks_def q'_def)
  from finalize_pop_blocks [OF notin, of h]
  show "fifo_blocks q = e_block (fq_store q e) # fifo_blocks (snd (fq_popleft h q))"
    using st e by (simp add: popl fifo_blocks_def es q'_def)
  show "fst (fq_popleft h q) = Ok (e_block (fq_store q e))" by (simp add: popl)
  have "fq_inv h (snd (fq_finalize_pop h q' e))"
  proof (rule fq_inv_finalize_pop [OF inv])
    show "set (queue_ids q') \<subseteq> set (queue_ids q) - {e}"
      using dist by (auto simp: q'_def es)
    show "\<not> e_valid (fq_store q x)" if "x \<in> set (queue_ids q)" "x \<notin> set (queue_ids q')" "x \<noteq> e" for x
      using that st by (auto simp: q'_def es)
  qed (use inv e dist in \<open>auto simp: q'_def es fq_inv_def\<close>)
  then show "fq_inv h (snd (fq_popleft h q))" by (simp add: popl)
qed

lemma fq_popleft_lru:
  assumes inv: "fq_inv h q" and fifo: "pop_fifo (fq_store q) (fq_fifo q) = (None, es)"
    and pop: "pop_heap (fq_store q) (fq_heap q) = (Some e, xs)"
  shows "fifo_blocks q = []" and "fifo_blocks (snd (fq_popleft h q)) = []"
    and "map snd (lru_blocks q) =
      e_block (fq_store q e) # map snd (lru_blocks (snd (fq_popleft h q)))"
    and "fst (fq_popleft h q) = Ok (e_block (fq_store q e))"
    and "fq_inv h (snd (fq_popleft h q))"
proof -
  obtain stale t s where xs: "fq_heap q = stale @ (t, s, e) # xs" and e: "e_valid (fq_store q e)"
    and st: "\<forall>x \<in> set stale. \<not> e_valid (fq_store q (snd (snd x)))"
    using pop_heap_split(1) [OF pop] by blast
  from pop_fifo_split(2) [OF fifo] have es: "es = []"
    and old: "\<forall>x \<in> set (fq_fifo q). \<not> e_valid (fq_store q x)" by simp_all
  define q' where "q' = q\<lparr>fq_fifo := [], fq_heap := xs\<rparr>"
  have popl: "fq_popleft h q = (Ok (e_block (fq_store q e)), snd (fq_finalize_pop h q' e))"
    by (simp add: fq_popleft_def fifo pop es q'_def fq_finalize_pop_def Let_def)
  have dist: "distinct (fq_fifo q @ map (\<lambda>x. snd (snd x)) stale @ e # map (\<lambda>x. snd (snd x)) xs)"
    using inv xs by (simp add: fq_inv_def)
  then have notin: "e \<notin> set (queue_ids q')" by (auto simp: q'_def)
  show "fifo_blocks q = []" using old by (simp add: fifo_blocks_def)
  show "fifo_blocks (snd (fq_popleft h q)) = []"
    using finalize_pop_blocks(2) [OF notin, of h] by (simp add: popl fifo_blocks_def q'_def)
  show "map snd (lru_blocks q) =
      e_block (fq_store q e) # map snd (lru_blocks (snd (fq_popleft h q)))"
    using finalize_pop_blocks(3) [OF notin, of h] st e by (simp add: popl lru_blocks_def xs q'_def)
  show "fst (fq_popleft h q) = Ok (e_block (fq_store q e))" by (simp add: popl)
  have "fq_inv h (snd (fq_finalize_pop h q' e))"
  proof (rule fq_inv_finalize_pop [OF inv])
    show "set (queue_ids q') \<subseteq> set (queue_ids q) - {e}"
      using dist by (auto simp: q'_def xs)
    show "\<not> e_valid (fq_store q x)" if "x \<in> set (queue_ids q)" "x \<notin> set (queue_ids q')" "x \<noteq> e" for x
      using that st old by (auto simp: q'_def xs)
  qed (use inv e dist in \<open>auto simp: q'_def xs fq_inv_def sorted_append\<close>)
  then show "fq_inv h (snd (fq_popleft h q))" by (simp add: popl)
qed

lemma fq_popleft_empty:
  assumes inv: "fq_inv h q" and fifo: "pop_fifo (fq_store q) (fq_fifo q) = (None, es)"
    and pop: "pop_heap (fq_store q) (fq_heap q) = (None, xs)"
  shows "fq_list q = []" and "fq_list (snd (fq_popleft h q)) = []"
    and "fst (fq_popleft h q) = Raise PyIndexError"
    and "fq_inv h (snd (fq_popleft h q))"
proof -
  from pop_fifo_split(2) [OF fifo] pop_heap_split(2) [OF pop]
  have nil: "es = []" "xs = []" and old: "\<forall>x \<in> set (queue_ids q). \<not> e_valid (fq_store q x)"
    by auto
  have popl: "fq_popleft h q = (Raise PyIndexError, q\<lparr>fq_fifo := [], fq_heap := []\<rparr>)"
    by (simp add: fq_popleft_def fifo pop nil)
  show "fq_list q = []" using old by (simp add: fq_list_def fifo_blocks_def lru_blocks_def)
  show "fq_list (snd (fq_popleft h q)) = []"
    by (simp add: popl fq_list_def fifo_blocks_def lru_blocks_def)
  show "fst (fq_popleft h q) = Raise PyIndexError" by (simp add: popl)
  have "fq_entries q = []"
    using inv old unfolding fq_inv_def by (metis list.set_intros(1) neq_Nil_conv surj_pair)
  then show "fq_inv h (snd (fq_popleft h q))" by (simp add: popl fq_inv_def)
qed

lemma fq_popleft_refines:
  assumes "fq_inv h q"
  shows "fq_list q = [] \<Longrightarrow> fst (fq_popleft h q) = Raise PyIndexError"
    and "fq_list q = b # bs \<Longrightarrow> fst (fq_popleft h q) = Ok b"
    and "fq_list (snd (fq_popleft h q)) = tl (fq_list q)"
    and "fq_inv h (snd (fq_popleft h q))"
proof -
  consider (fifo) e es where "pop_fifo (fq_store q) (fq_fifo q) = (Some e, es)"
    | (lru) e es xs where "pop_fifo (fq_store q) (fq_fifo q) = (None, es)"
        "pop_heap (fq_store q) (fq_heap q) = (Some e, xs)"
    | (none) es xs where "pop_fifo (fq_store q) (fq_fifo q) = (None, es)"
        "pop_heap (fq_store q) (fq_heap q) = (None, xs)"
    by (metis option.exhaust surj_pair)
  then have "(fq_list q = [] \<longrightarrow> fst (fq_popleft h q) = Raise PyIndexError) \<and>
    (fq_list q = b # bs \<longrightarrow> fst (fq_popleft h q) = Ok b) \<and>
    fq_list (snd (fq_popleft h q)) = tl (fq_list q) \<and> fq_inv h (snd (fq_popleft h q))"
  proof cases
    case fifo
    show ?thesis using fq_popleft_fifo [OF assms fifo] by (simp add: fq_list_def)
  next
    case lru
    show ?thesis using fq_popleft_lru [OF assms lru] by (simp add: fq_list_def)
  next
    case none
    show ?thesis using fq_popleft_empty [OF assms none] by simp
  qed
  then show "fq_list q = [] \<Longrightarrow> fst (fq_popleft h q) = Raise PyIndexError"
    and "fq_list q = b # bs \<Longrightarrow> fst (fq_popleft h q) = Ok b"
    and "fq_list (snd (fq_popleft h q)) = tl (fq_list q)"
    and "fq_inv h (snd (fq_popleft h q))" by simp_all
qed

lemma distinct_valid_ids:
  "fq_inv h q \<Longrightarrow> distinct (filter (\<lambda>e. e_valid (fq_store q e)) (queue_ids q))"
  by (rule distinct_filter) (simp add: fq_inv_def)

lemma fq_list_ids:
  "fq_list q = map (\<lambda>e. e_block (fq_store q e)) (filter (\<lambda>e. e_valid (fq_store q e)) (queue_ids q))"
  by (simp add: fq_list_def fifo_blocks_def lru_blocks_def filter_map comp_def)

lemma distinct_fq_list:
  assumes "fq_inv h q"
  shows "distinct (fq_list q)"
proof -
  have "inj_on (\<lambda>e. e_block (fq_store q e))
    (set (filter (\<lambda>e. e_valid (fq_store q e)) (queue_ids q)))"
  proof (rule inj_onI)
    fix x y
    assume x: "x \<in> set (filter (\<lambda>e. e_valid (fq_store q e)) (queue_ids q))"
      and y: "y \<in> set (filter (\<lambda>e. e_valid (fq_store q e)) (queue_ids q))"
      and eq: "e_block (fq_store q x) = e_block (fq_store q y)"
    from x have "map_of (fq_entries q) (block_number (h (e_block (fq_store q x)))) = Some x"
      by (intro fq_inv_entry [OF assms, THEN iffD2]) auto
    moreover from y have "map_of (fq_entries q) (block_number (h (e_block (fq_store q y)))) = Some y"
      by (intro fq_inv_entry [OF assms, THEN iffD2]) auto
    ultimately show "x = y" unfolding eq by (simp only: option.inject)
  qed
  then show ?thesis
    unfolding fq_list_ids distinct_map using distinct_valid_ids [OF assms] by (intro conjI)
qed

lemma fq_len_eq:
  assumes "fq_inv h q"
  shows "fq_len q = length (fq_list q)"
proof -
  have mem: "(n, e) \<in> set (fq_entries q) \<longleftrightarrow> e \<in> set (queue_ids q) \<and>
    e_valid (fq_store q e) \<and> n = block_number (h (e_block (fq_store q e)))" for n e
    using assms by (simp add: fq_inv_def)
  have "distinct (map snd (fq_entries q))"
  proof (rule distinct_conv_nth [THEN iffD2], intro allI impI)
    fix i j
    assume ij: "i < length (map snd (fq_entries q))" "j < length (map snd (fq_entries q))" "i \<noteq> j"
    then have "(fst (fq_entries q ! i), snd (fq_entries q ! i)) \<in> set (fq_entries q)"
      and "(fst (fq_entries q ! j), snd (fq_entries q ! j)) \<in> set (fq_entries q)"
      by simp_all
    moreover have "fst (fq_entries q ! i) \<noteq> fst (fq_entries q ! j)"
      using assms ij by (auto simp: fq_inv_def distinct_conv_nth)
    ultimately show "map snd (fq_entries q) ! i \<noteq> map snd (fq_entries q) ! j"
      using ij unfolding mem by (metis length_map nth_map)
  qed
  moreover have "set (map snd (fq_entries q)) =
    set (filter (\<lambda>e. e_valid (fq_store q e)) (queue_ids q))"
  proof (rule set_eqI)
    fix e
    have "e \<in> set (map snd (fq_entries q)) \<longleftrightarrow> (\<exists>n. (n, e) \<in> set (fq_entries q))"
      by force
    also have "\<dots> \<longleftrightarrow> e \<in> set (queue_ids q) \<and> e_valid (fq_store q e)"
      unfolding mem by blast
    finally show "e \<in> set (map snd (fq_entries q)) \<longleftrightarrow>
      e \<in> set (filter (\<lambda>e. e_valid (fq_store q e)) (queue_ids q))"
      by (simp only: set_filter mem_Collect_eq)
  qed
  ultimately have "length (map snd (fq_entries q)) =
    length (filter (\<lambda>e. e_valid (fq_store q e)) (queue_ids q))"
    using distinct_valid_ids [OF assms] by (metis distinct_card)
  then show ?thesis by (simp only: fq_len_def fq_list_ids length_map)
qed

section \<open>The queue as an interface\<close>

text \<open>
  What a caller of a queue of blocks relies on: the queue has a hand-out order, popping takes
  its head and raises \<^verbatim>\<open>IndexError\<close> when nothing is left. The free queue and, on top of it,
  the block pool both give these laws.
\<close>

primrec pop_n :: "('q \<Rightarrow> 'b result \<times> 'q) \<Rightarrow> nat \<Rightarrow> 'q \<Rightarrow> 'b list \<times> 'q" where
  "pop_n pop 0 q = ([], q)"
| "pop_n pop (Suc n) q =
     (case pop q of
        (Ok b, q') \<Rightarrow> (let (bs, q'') = pop_n pop n q' in (b # bs, q''))
      | (Raise e, q') \<Rightarrow> ([], q'))"

locale handout_queue =
  fixes invar :: "'q \<Rightarrow> bool"
    and view :: "'q \<Rightarrow> 'b list"
    and pop :: "'q \<Rightarrow> 'b result \<times> 'q"
    and size :: "'q \<Rightarrow> nat"
  assumes pop_nil: "invar q \<Longrightarrow> view q = [] \<Longrightarrow> fst (pop q) = Raise PyIndexError"
    and pop_cons: "invar q \<Longrightarrow> view q = b # bs \<Longrightarrow> fst (pop q) = Ok b"
    and view_pop: "invar q \<Longrightarrow> view (snd (pop q)) = tl (view q)"
    and invar_pop: "invar q \<Longrightarrow> invar (snd (pop q))"
    and size_view: "invar q \<Longrightarrow> size q = length (view q)"
    and distinct_view: "invar q \<Longrightarrow> distinct (view q)"
begin

lemma pop_n_take:
  "invar q \<Longrightarrow> n \<le> size q \<Longrightarrow> fst (pop_n pop n q) = take n (view q)"
proof (induction n arbitrary: q)
  case 0
  then show ?case by simp
next
  case (Suc n)
  then have "Suc n \<le> length (view q)" by (simp add: size_view)
  then obtain b bs where v: "view q = b # bs" by (cases "view q") auto
  obtain q' where q': "pop q = (Ok b, q')"
    using pop_cons [OF Suc.prems(1) v] by (cases "pop q") auto
  have "invar q'" and "view q' = bs"
    using invar_pop [OF Suc.prems(1)] view_pop [OF Suc.prems(1)] q' v by simp_all
  then have "fst (pop_n pop n q') = take n bs"
    using Suc.IH [of q'] Suc.prems v by (simp add: size_view)
  with q' v show ?case by (simp add: case_prod_beta)
qed

lemma pop_n_rest:
  "invar q \<Longrightarrow> n \<le> size q \<Longrightarrow>
     invar (snd (pop_n pop n q)) \<and> view (snd (pop_n pop n q)) = drop n (view q)"
proof (induction n arbitrary: q)
  case 0
  then show ?case by simp
next
  case (Suc n)
  then have "Suc n \<le> length (view q)" by (simp add: size_view)
  then obtain b bs where v: "view q = b # bs" by (cases "view q") auto
  obtain q' where q': "pop q = (Ok b, q')"
    using pop_cons [OF Suc.prems(1) v] by (cases "pop q") auto
  have "invar q'" and "view q' = bs"
    using invar_pop [OF Suc.prems(1)] view_pop [OF Suc.prems(1)] q' v by simp_all
  then show ?case
    using Suc.IH [of q'] Suc.prems v q' by (simp add: size_view case_prod_beta)
qed

lemma pop_n_exhausts:
  "invar q \<Longrightarrow> fst (pop (snd (pop_n pop (size q) q))) = Raise PyIndexError"
  using pop_n_rest [of q "size q"] by (intro pop_nil) (simp_all add: size_view)

lemma pop_n_distinct:
  "invar q \<Longrightarrow> n \<le> size q \<Longrightarrow> distinct (fst (pop_n pop n q))"
  by (simp add: pop_n_take distinct_view distinct_take)

end

interpretation fq: handout_queue "fq_inv h" fq_list "fq_popleft h" fq_len
  by unfold_locales
    (simp_all add: fq_popleft_refines fq_len_eq distinct_fq_list)

section \<open>Properties of the queue\<close>

text \<open>
  C10. Popping a free-block queue as often as it has blocks hands out every queued block
  exactly once: first the uncached blocks in the order in which they were appended, then
  the cached blocks from the least to the most recently accessed.
\<close>

theorem free_queue_handout_order:
  assumes "fq_inv h q"
  shows "fst (pop_n (fq_popleft h) (fq_len q) q) = fifo_blocks q @ map snd (lru_blocks q) \<and>
    sorted (map fst (lru_blocks q)) \<and>
    distinct (fst (pop_n (fq_popleft h) (fq_len q) q))"
proof (intro conjI)
  show "fst (pop_n (fq_popleft h) (fq_len q) q) = fifo_blocks q @ map snd (lru_blocks q)"
    using fq.pop_n_take [OF assms, of "fq_len q"] by (simp add: fq_len_eq [OF assms] fq_list_def)
  show "sorted (map fst (lru_blocks q))"
    using assms by (simp add: lru_blocks_def fq_inv_def sorted_filter comp_def)
  show "distinct (fst (pop_n (fq_popleft h) (fq_len q) q))"
    using fq.pop_n_distinct [OF assms, of "fq_len q"] by simp
qed

lemma fq_inv_empty [simp]: "fq_inv h fq_empty"
  by (simp add: fq_inv_def fq_empty_def)

lemma empty_blocks [simp]: "fifo_blocks fq_empty = []" "lru_blocks fq_empty = []" "fq_len fq_empty = 0"
  by (simp_all add: fifo_blocks_def lru_blocks_def fq_empty_def fq_len_def)

lemma fq_list_empty [simp]: "fq_list fq_empty = []"
  by (simp add: fq_list_def)

lemma fq_remove_refines:
  assumes "fq_inv h q" and "numbered h q a"
  shows "fq_inv h (fq_remove h q a)" and "fq_list (fq_remove h q a) = filter (\<lambda>b. b \<noteq> a) (fq_list q)"
  using assms by (simp_all add: fq_remove_def fq_inv_invalidate invalidate_blocks fq_list_def snd_filter)

lemma fq_contains_iff:
  "fq_inv h q \<Longrightarrow> numbered h q a \<Longrightarrow> fq_contains h q a \<longleftrightarrow> a \<in> set (fq_list q)"
  using unqueued_iff [of h q a] by (simp add: fq_contains_def)

lemma set_insert_lru: "set (map snd (insert_lru t a xs)) = insert a (set (map snd xs))"
  by (auto simp: insert_lru_def image_iff) (metis linorder_not_less)+

lemma mem_fq_append [simp]:
  assumes "fq_inv h q" and "numbered h q a"
  shows "set (fq_list (fq_append h q a)) = insert a (set (fq_list q))"
    and "set (fq_list (fq_append_lru h q a)) = insert a (set (fq_list q))"
proof -
  show "set (fq_list (fq_append h q a)) = insert a (set (fq_list q))"
    using assms by (auto simp: fq_list_def fq_append_refines image_iff)
  have "set (map snd (filter (\<lambda>p. snd p \<noteq> a) (lru_blocks q))) = set (map snd (lru_blocks q)) - {a}"
    by auto
  then show "set (fq_list (fq_append_lru h q a)) = insert a (set (fq_list q))"
    using set_insert_lru [of "last_accessed (h a)" a "filter (\<lambda>p. snd p \<noteq> a) (lru_blocks q)"] assms
    by (auto simp: fq_list_def fq_append_lru_refines)
qed

text \<open>
  C17. The queue with its lazily invalidated entries behaves as two plain lists. Appending a
  block takes it out of wherever it is queued and puts it at the end of the uncached list, or
  behind every cached block that was not accessed later; removing takes it out; membership and
  length are those of the lists; and each operation keeps the queue well formed.
\<close>

theorem free_queue_refines_lists:
  assumes "fq_inv h q" and "numbered h q a"
  shows "fifo_blocks (fq_append h q a) = filter (\<lambda>b. b \<noteq> a) (fifo_blocks q) @ [a] \<and>
    lru_blocks (fq_append h q a) = filter (\<lambda>p. snd p \<noteq> a) (lru_blocks q) \<and>
    fifo_blocks (fq_append_lru h q a) = filter (\<lambda>b. b \<noteq> a) (fifo_blocks q) \<and>
    lru_blocks (fq_append_lru h q a) =
      insert_lru (last_accessed (h a)) a (filter (\<lambda>p. snd p \<noteq> a) (lru_blocks q)) \<and>
    fq_list (fq_remove h q a) = filter (\<lambda>b. b \<noteq> a) (fq_list q) \<and>
    (fq_contains h q a \<longleftrightarrow> a \<in> set (fq_list q)) \<and>
    fq_len q = length (fq_list q) \<and>
    fq_inv h (fq_append h q a) \<and> fq_inv h (fq_append_lru h q a) \<and> fq_inv h (fq_remove h q a)"
  using assms fq_append_refines [OF assms] fq_append_lru_refines [OF assms]
    fq_remove_refines [OF assms] fq_contains_iff [OF assms] fq_len_eq [OF assms(1)]
  by simp

text \<open>A store whose blocks carry their address as number and, from 3 on, an access stamp.\<close>

definition sample_store :: "nat store" where
  "sample_store a = (new_block GPU (int a) 16)\<lparr>last_accessed := (if a < 3 then 0 else 10 - a)\<rparr>"

definition sample_queue :: free_queue where
  "sample_queue =
     (let h = sample_store
      in fq_append_lru h (fq_append_lru h (fq_append h (fq_append h fq_empty 1) 2) 3) 5)"

lemma numbered_sample: "numbered sample_store q a"
  by (auto simp: numbered_def sample_store_def inj_on_def)

lemma fq_inv_sample: "fq_inv sample_store sample_queue"
  by (simp add: sample_queue_def Let_def fq_append_refines fq_append_lru_refines numbered_sample)

theorem free_queue_handout_order_witness:
  "fst (pop_n (fq_popleft sample_store) (fq_len sample_queue) sample_queue) = [1, 2, 5, 3]"
proof -
  have "fifo_blocks sample_queue @ map snd (lru_blocks sample_queue) = [1, 2, 5, 3]"
    by code_simp
  then show ?thesis using free_queue_handout_order [OF fq_inv_sample] by simp
qed

theorem free_queue_refines_lists_witness:
  "fifo_blocks (fq_append sample_store sample_queue 1) = [2, 1] \<and>
   lru_blocks (fq_append_lru sample_store sample_queue 4) = [(5, 5), (6, 4), (7, 3)] \<and>
   fq_list (fq_remove sample_store sample_queue 5) = [1, 2, 3]"
proof -
  have "filter (\<lambda>b. b \<noteq> 1) (fifo_blocks sample_queue) @ [1] = [2, 1]"
    "insert_lru (last_accessed (sample_store 4)) 4 (filter (\<lambda>p. snd p \<noteq> 4) (lru_blocks sample_queue))
      = [(5, 5), (6, 4), (7, 3)]"
    "filter (\<lambda>b. b \<noteq> 5) (fq_list sample_queue) = [1, 2, 3]"
    by code_simp+
  then show ?thesis
    using free_queue_refines_lists [OF fq_inv_sample numbered_sample, of 1]
      free_queue_refines_lists [OF fq_inv_sample numbered_sample, of 4]
      free_queue_refines_lists [OF fq_inv_sample numbered_sample, of 5]
    by simp
qed

end
