(* ===== verification/Block_Pool.thy ===== *)
theory Block_Pool
  imports Free_Queue
begin

text \<open>
  The pool of one device (\<^verbatim>\<open>src/TokenSim/block/block_pool.py\<close>). Blocks are made on first
  use, so a pool is a counter of fresh block numbers, the dictionary of blocks made so far and
  the free queue. The blocks themselves live in the memory \<open>mem\<close> that all pools share.
\<close>

section \<open>State and operations\<close>

record 'k mem =
  m_heap :: "'k store"
  m_next :: addr

record pool =
  bp_device :: device
  bp_block_size :: int
  bp_num_blocks :: int
  bp_materialized :: "int \<rightharpoonup> addr"
  bp_next_fresh :: int
  bp_free :: free_queue

text \<open>A constructor call: a new object at an unused address.\<close>

definition make_block :: "'k phys_block \<Rightarrow> 'k mem \<Rightarrow> addr \<times> 'k mem" where
  "make_block b m =
     (m_next m, m\<lparr>m_heap := (m_heap m)(m_next m := b), m_next := Suc (m_next m)\<rparr>)"

definition new_pool :: "device \<Rightarrow> int \<Rightarrow> int \<Rightarrow> pool" where
  "new_pool d sz n =
     \<lparr>bp_device = d, bp_block_size = sz, bp_num_blocks = n, bp_materialized = Map.empty,
      bp_next_fresh = 0, bp_free = fq_empty\<rparr>"

definition pop_free_block :: "'k mem \<times> pool \<Rightarrow> addr result \<times> 'k mem \<times> pool" where
  "pop_free_block mp =
     (let (m, p) = mp
      in if bp_next_fresh p < bp_num_blocks p then
           (let (a, m') = make_block (new_block (bp_device p) (bp_next_fresh p) (bp_block_size p)) m
            in (Ok a, m', p\<lparr>bp_materialized := (bp_materialized p)(bp_next_fresh p \<mapsto> a),
                            bp_next_fresh := bp_next_fresh p + 1\<rparr>))
         else
           (let (r, q) = fq_popleft (m_heap m) (bp_free p)
            in (r, m, p\<lparr>bp_free := q\<rparr>)))"

definition append_free_block :: "'k mem \<Rightarrow> pool \<Rightarrow> addr \<Rightarrow> pool" where
  "append_free_block m p a = p\<lparr>bp_free := fq_append (m_heap m) (bp_free p) a\<rparr>"

definition remove_from_free_queue :: "'k mem \<Rightarrow> pool \<Rightarrow> addr \<Rightarrow> pool" where
  "remove_from_free_queue m p a = p\<lparr>bp_free := fq_remove (m_heap m) (bp_free p) a\<rparr>"

definition bp_get_num_free_blocks :: "pool \<Rightarrow> int" where
  "bp_get_num_free_blocks p =
     (bp_num_blocks p - bp_next_fresh p) + int (fq_len (bp_free p))"

definition owns :: "'k mem \<Rightarrow> pool \<Rightarrow> addr \<Rightarrow> bool" where
  "owns m p a \<longleftrightarrow> bp_materialized p (block_number (m_heap m a)) = Some a"

definition validate_owned :: "'k mem \<Rightarrow> pool \<Rightarrow> addr \<Rightarrow> unit result" where
  "validate_owned m p a =
     (if device_of (m_heap m a) \<noteq> bp_device p then Raise SimulationStateError
      else if \<not> owns m p a then Raise SimulationStateError
      else Ok ())"

text \<open>One iteration of the loop of \<^verbatim>\<open>set_num_free_blocks\<close>, for block number \<open>i\<close>.\<close>

definition refill_step :: "int \<Rightarrow> nat \<Rightarrow> 'k mem \<times> pool \<Rightarrow> 'k mem \<times> pool" where
  "refill_step block_num i mp =
     (let (m, p) = mp;
          (a, m1) = make_block (new_block (bp_device p) (int i) (bp_block_size p)) m;
          p1 = p\<lparr>bp_materialized := (bp_materialized p)(int i \<mapsto> a)\<rparr>
      in if int i < block_num then (m1, append_free_block m1 p1 a)
         else (m1\<lparr>m_heap := upd_block a (\<lambda>b. b\<lparr>ref_count := 1\<rparr>) (m_heap m1)\<rparr>, p1))"

definition bp_set_num_free_blocks :: "int \<Rightarrow> 'k mem \<times> pool \<Rightarrow> unit result \<times> 'k mem \<times> pool" where
  "bp_set_num_free_blocks block_num mp =
     (let (m, p) = mp
      in if block_num < 0 \<or> bp_num_blocks p < block_num then (Raise SimulationStateError, m, p)
         else (Ok (), fold (refill_step block_num) [0..<nat (bp_num_blocks p)]
                (m, p\<lparr>bp_free := fq_empty, bp_materialized := Map.empty,
                      bp_next_fresh := bp_num_blocks p\<rparr>)))"

section \<open>Well-formed pools\<close>

text \<open>
  \<open>blocks_ok\<close>: every block made so far is found under its number, carries the pool's device,
  and lies below the allocation pointer; the free queue is well formed and holds only such blocks.
\<close>

definition blocks_ok :: "'k mem \<Rightarrow> pool \<Rightarrow> bool" where
  "blocks_ok m p \<longleftrightarrow>
     (\<forall>n a. bp_materialized p n = Some a \<longrightarrow>
        block_number (m_heap m a) = n \<and> device_of (m_heap m a) = bp_device p \<and> a < m_next m) \<and>
     fq_inv (m_heap m) (bp_free p) \<and>
     (\<forall>a \<in> set (fq_list (bp_free p)). owns m p a)"

definition pool_inv :: "'k mem \<Rightarrow> pool \<Rightarrow> bool" where
  "pool_inv m p \<longleftrightarrow> blocks_ok m p \<and>
     0 \<le> bp_next_fresh p \<and> bp_next_fresh p \<le> bp_num_blocks p \<and>
     dom (bp_materialized p) = {0..<bp_next_fresh p}"

definition pool_view :: "'k mem \<times> pool \<Rightarrow> int list" where
  "pool_view mp =
     (case mp of (m, p) \<Rightarrow>
        map int [nat (bp_next_fresh p)..<nat (bp_num_blocks p)] @
        map (\<lambda>a. block_number (m_heap m a)) (fq_list (bp_free p)))"

definition pool_blocks :: "pool \<Rightarrow> addr set" where
  "pool_blocks p = ran (bp_materialized p)"

lemma owns_iff: "blocks_ok m p \<Longrightarrow> owns m p a \<longleftrightarrow> a \<in> pool_blocks p"
  by (auto simp: owns_def pool_blocks_def ran_def blocks_ok_def)

lemma pool_numbers_inj:
  assumes "blocks_ok m p"
  shows "inj_on (\<lambda>a. block_number (m_heap m a)) (pool_blocks p)"
proof (rule inj_onI)
  fix a b
  assume "a \<in> pool_blocks p" "b \<in> pool_blocks p"
    and eq: "block_number (m_heap m a) = block_number (m_heap m b)"
  then have "owns m p a" "owns m p b" by (simp_all add: owns_iff [OF assms])
  with eq show "a = b" by (simp add: owns_def)
qed

lemma pool_numbered:
  assumes "blocks_ok m p" "owns m p a"
  shows "numbered (m_heap m) (bp_free p) a"
  unfolding numbered_def
  by (rule inj_on_subset [OF pool_numbers_inj [OF assms(1)]])
    (use assms owns_iff [OF assms(1)] in \<open>auto simp: blocks_ok_def\<close>)

lemma queued_owned: "blocks_ok m p \<Longrightarrow> a \<in> set (fq_list (bp_free p)) \<Longrightarrow> a \<in> pool_blocks p"
  using owns_iff [of m p a] by (simp add: blocks_ok_def)

text \<open>Writes that keep the numbers and devices of the pool's blocks keep the pool.\<close>

lemma blocks_ok_mem:
  assumes ok: "blocks_ok m p"
    and same: "\<And>b. b \<in> pool_blocks p \<Longrightarrow>
      block_number (m_heap m' b) = block_number (m_heap m b) \<and> device_of (m_heap m' b) = device_of (m_heap m b)"
    and le: "m_next m \<le> m_next m'"
  shows "blocks_ok m' p"
proof -
  have "fq_inv (m_heap m') (bp_free p) = fq_inv (m_heap m) (bp_free p)"
    by (rule fq_inv_cong) (use same queued_owned [OF ok] in blast)
  moreover have "owns m' p a" if "a \<in> set (fq_list (bp_free p))" for a
    using that ok same queued_owned [OF ok that] by (simp add: blocks_ok_def owns_def)
  moreover have "block_number (m_heap m' a) = n \<and> device_of (m_heap m' a) = bp_device p \<and> a < m_next m'"
    if "bp_materialized p n = Some a" for n a
  proof -
    have "a \<in> pool_blocks p" using that by (auto simp: pool_blocks_def ran_def)
    moreover have "block_number (m_heap m a) = n" "device_of (m_heap m a) = bp_device p" "a < m_next m"
      using that ok by (simp_all add: blocks_ok_def)
    ultimately show ?thesis using same le by (metis order_less_le_trans)
  qed
  ultimately show ?thesis using ok by (simp add: blocks_ok_def)
qed

lemma pool_blocks_below: "blocks_ok m p \<Longrightarrow> a \<in> pool_blocks p \<Longrightarrow> a < m_next m"
  by (auto simp: blocks_ok_def pool_blocks_def ran_def)

lemma blocks_ok_upd:
  assumes "blocks_ok m p"
    and "\<And>b. block_number (f b) = block_number b" and "\<And>b. device_of (f b) = device_of b"
  shows "blocks_ok (m\<lparr>m_heap := upd_block a f (m_heap m)\<rparr>) p"
  by (rule blocks_ok_mem [OF assms(1)]) (simp_all add: upd_block_def assms)

lemma pool_inv_blocks: "pool_inv m p \<Longrightarrow> blocks_ok m p"
  by (simp add: pool_inv_def)

lemma pool_inv_mem:
  assumes "pool_inv m p"
    and "\<And>b. b \<in> pool_blocks p \<Longrightarrow>
      block_number (m_heap m' b) = block_number (m_heap m b) \<and> device_of (m_heap m' b) = device_of (m_heap m b)"
    and "m_next m \<le> m_next m'"
  shows "pool_inv m' p"
  using assms(1) blocks_ok_mem [OF pool_inv_blocks [OF assms(1)] assms(2,3)] by (simp add: pool_inv_def)

section \<open>The operations keep pools well formed\<close>

lemma materialize_ok:
  assumes ok: "blocks_ok m p" and new: "bp_materialized p n = None"
    and mk: "make_block (new_block (bp_device p) n sz) m = (a, m')"
  shows "blocks_ok m' (p\<lparr>bp_materialized := (bp_materialized p)(n \<mapsto> a)\<rparr>)"
    and "owns m' (p\<lparr>bp_materialized := (bp_materialized p)(n \<mapsto> a)\<rparr>) a"
    and "a \<notin> pool_blocks p"
proof -
  have m': "a = m_next m" "m_next m' = Suc (m_next m)"
    "m_heap m' = (m_heap m)(a := new_block (bp_device p) n sz)"
    using mk by (auto simp: make_block_def)
  show fresh: "a \<notin> pool_blocks p" using pool_blocks_below [OF ok] m' by blast
  have "blocks_ok m' p"
    by (rule blocks_ok_mem [OF ok]) (use fresh in \<open>auto simp: m'\<close>)
  then show "blocks_ok m' (p\<lparr>bp_materialized := (bp_materialized p)(n \<mapsto> a)\<rparr>)"
    using new m' by (auto simp: blocks_ok_def owns_def)
  show "owns m' (p\<lparr>bp_materialized := (bp_materialized p)(n \<mapsto> a)\<rparr>) a"
    by (simp add: owns_def m')
qed

lemma pool_blocks_queue [simp]: "pool_blocks (p\<lparr>bp_free := q\<rparr>) = pool_blocks p"
  by (simp add: pool_blocks_def)

lemma owns_queue [simp]: "owns m (p\<lparr>bp_free := q\<rparr>) a = owns m p a"
  by (simp add: owns_def)

lemma blocks_ok_queue:
  assumes "blocks_ok m p" "fq_inv (m_heap m) q" "\<And>a. a \<in> set (fq_list q) \<Longrightarrow> owns m p a"
  shows "blocks_ok m (p\<lparr>bp_free := q\<rparr>)"
  using assms by (simp add: blocks_ok_def)

lemma append_free_block_ok:
  assumes "blocks_ok m p" and "owns m p a"
  shows "blocks_ok m (append_free_block m p a)"
    and "set (fq_list (bp_free (append_free_block m p a))) = insert a (set (fq_list (bp_free p)))"
proof -
  have fq: "fq_inv (m_heap m) (bp_free p)" using assms by (simp add: blocks_ok_def)
  note set = mem_fq_append(1) [OF fq pool_numbered [OF assms]]
  then show "set (fq_list (bp_free (append_free_block m p a))) = insert a (set (fq_list (bp_free p)))"
    by (simp add: append_free_block_def)
  show "blocks_ok m (append_free_block m p a)"
    unfolding append_free_block_def
    by (rule blocks_ok_queue [OF assms(1) fq_append_refines(3) [OF fq pool_numbered [OF assms]]])
      (use set assms in \<open>auto simp: blocks_ok_def\<close>)
qed

lemma remove_from_free_queue_ok:
  assumes "blocks_ok m p" and "owns m p a"
  shows "blocks_ok m (remove_from_free_queue m p a)"
    and "fq_list (bp_free (remove_from_free_queue m p a)) = filter (\<lambda>b. b \<noteq> a) (fq_list (bp_free p))"
proof -
  have fq: "fq_inv (m_heap m) (bp_free p)" using assms by (simp add: blocks_ok_def)
  note rm = fq_remove_refines [OF fq pool_numbered [OF assms]]
  then show "fq_list (bp_free (remove_from_free_queue m p a)) = filter (\<lambda>b. b \<noteq> a) (fq_list (bp_free p))"
    by (simp add: remove_from_free_queue_def)
  show "blocks_ok m (remove_from_free_queue m p a)"
    unfolding remove_from_free_queue_def
    by (rule blocks_ok_queue [OF assms(1) rm(1)]) (use rm(2) assms in \<open>auto simp: blocks_ok_def\<close>)
qed

lemma new_pool_inv: "0 \<le> n \<Longrightarrow> pool_inv m (new_pool d sz n)"
  by (simp add: pool_inv_def blocks_ok_def new_pool_def)

lemma num_free_view:
  assumes "pool_inv m p"
  shows "bp_get_num_free_blocks p = int (length (pool_view (m, p)))"
proof -
  have "fq_len (bp_free p) = length (fq_list (bp_free p))"
    using assms by (auto simp: pool_inv_def blocks_ok_def intro: fq_len_eq)
  moreover have "0 \<le> bp_next_fresh p" "bp_next_fresh p \<le> bp_num_blocks p"
    using assms by (simp_all add: pool_inv_def)
  ultimately show ?thesis by (simp add: bp_get_num_free_blocks_def pool_view_def)
qed

lemma pop_fresh:
  assumes "pool_inv m p" and "bp_next_fresh p < bp_num_blocks p"
  shows "pop_free_block (m, p) =
    (Ok (m_next m),
     m\<lparr>m_heap := (m_heap m)(m_next m := new_block (bp_device p) (bp_next_fresh p) (bp_block_size p)),
       m_next := Suc (m_next m)\<rparr>,
     p\<lparr>bp_materialized := (bp_materialized p)(bp_next_fresh p \<mapsto> m_next m),
       bp_next_fresh := bp_next_fresh p + 1\<rparr>)"
  using assms by (simp add: pop_free_block_def make_block_def)

lemma pop_queued:
  assumes "pool_inv m p" and "\<not> bp_next_fresh p < bp_num_blocks p"
  shows "pop_free_block (m, p) = (let (r, q) = fq_popleft (m_heap m) (bp_free p) in (r, m, p\<lparr>bp_free := q\<rparr>))"
  using assms by (simp add: pop_free_block_def)

lemma pop_free_block_inv:
  assumes inv: "pool_inv m p" and pop: "pop_free_block (m, p) = (r, m', p')"
  shows "pool_inv m' p'"
proof (cases "bp_next_fresh p < bp_num_blocks p")
  case True
  then have none: "bp_materialized p (bp_next_fresh p) = None"
    using inv by (auto simp: pool_inv_def domIff)
  have "blocks_ok m' (p\<lparr>bp_materialized := (bp_materialized p)(bp_next_fresh p \<mapsto> m_next m)\<rparr>)"
    by (rule materialize_ok [OF pool_inv_blocks [OF inv] none])
      (use pop_fresh [OF inv True] pop in \<open>simp add: make_block_def\<close>)
  then show ?thesis
    using inv True pop_fresh [OF inv True] pop by (auto simp: pool_inv_def blocks_ok_def owns_def)
next
  case False
  then obtain q where q: "fq_popleft (m_heap m) (bp_free p) = (r, q)" "m' = m" "p' = p\<lparr>bp_free := q\<rparr>"
    using pop pop_queued [OF inv False] by (auto split: prod.splits)
  have fq: "fq_inv (m_heap m) (bp_free p)" using inv by (simp add: pool_inv_def blocks_ok_def)
  have "set (fq_list q) \<subseteq> set (fq_list (bp_free p))"
    using fq_popleft_refines(3) [OF fq] q by (metis list.set_sel(2) snd_conv subsetI tl_Nil)
  moreover have "fq_inv (m_heap m) q" using fq_popleft_refines(4) [OF fq] q by simp
  ultimately have "blocks_ok m' p'"
    using inv q by (auto simp: pool_inv_def blocks_ok_def intro!: blocks_ok_queue)
  then show ?thesis using inv q by (simp add: pool_inv_def)
qed

text \<open>The number of the block a pop returns.\<close>

definition pop_number :: "'k mem \<times> pool \<Rightarrow> int result \<times> 'k mem \<times> pool" where
  "pop_number mp =
     and_then (pop_free_block mp) (\<lambda>a (m, p). (Ok (block_number (m_heap m a)), m, p))"

lemma view_fresh:
  assumes "0 \<le> bp_next_fresh p" and "bp_next_fresh p < bp_num_blocks p"
  shows "pool_view (m, p) = bp_next_fresh p #
    map int [Suc (nat (bp_next_fresh p))..<nat (bp_num_blocks p)] @
    map (\<lambda>a. block_number (m_heap m a)) (fq_list (bp_free p))"
  using assms by (simp add: pool_view_def upt_rec [of "nat (bp_next_fresh p)"])

lemma pop_number_fresh:
  assumes inv: "pool_inv m p" and fresh: "bp_next_fresh p < bp_num_blocks p"
  shows "fst (pop_number (m, p)) = Ok (bp_next_fresh p)"
    and "pool_view (snd (pop_number (m, p))) = tl (pool_view (m, p))"
proof -
  show "fst (pop_number (m, p)) = Ok (bp_next_fresh p)"
    by (simp add: pop_number_def pop_fresh [OF inv fresh])
  have pos: "0 \<le> bp_next_fresh p" using inv by (simp add: pool_inv_def)
  have "m_next m \<notin> set (fq_list (bp_free p))"
    using pool_inv_blocks [OF inv] queued_owned pool_blocks_below by blast
  then have "map (\<lambda>a. block_number (((m_heap m)(m_next m := b)) a)) (fq_list (bp_free p)) =
      map (\<lambda>a. block_number (m_heap m a)) (fq_list (bp_free p))" for b
    by (intro map_cong) auto
  moreover have "nat (bp_next_fresh p + 1) = Suc (nat (bp_next_fresh p))" using pos by simp
  ultimately show "pool_view (snd (pop_number (m, p))) = tl (pool_view (m, p))"
    by (subst view_fresh [OF pos fresh])
      (simp add: pop_number_def pop_fresh [OF inv fresh] pool_view_def)
qed

lemma pop_number_queued:
  assumes inv: "pool_inv m p" and full: "\<not> bp_next_fresh p < bp_num_blocks p"
  shows "pool_view (m, p) = [] \<Longrightarrow> fst (pop_number (m, p)) = Raise PyIndexError"
    and "pool_view (m, p) = n # ns \<Longrightarrow> fst (pop_number (m, p)) = Ok n"
    and "pool_view (snd (pop_number (m, p))) = tl (pool_view (m, p))"
proof -
  have fq: "fq_inv (m_heap m) (bp_free p)" using inv by (simp add: pool_inv_def blocks_ok_def)
  obtain r q where rq: "fq_popleft (m_heap m) (bp_free p) = (r, q)" by fastforce
  have view: "pool_view (m, p) = map (\<lambda>a. block_number (m_heap m a)) (fq_list (bp_free p))"
    using inv full by (simp add: pool_view_def)
  note pop = pop_queued [OF inv full] fq_popleft_refines [OF fq]
  show "fst (pop_number (m, p)) = Raise PyIndexError" if "pool_view (m, p) = []"
    using that pop rq view by (simp add: pop_number_def)
  show "fst (pop_number (m, p)) = Ok n" if v: "pool_view (m, p) = n # ns"
  proof -
    obtain b bs where b: "fq_list (bp_free p) = b # bs" "block_number (m_heap m b) = n"
      using v view by auto
    with pop(1) pop(3) [OF b(1)] rq show ?thesis by (simp add: pop_number_def)
  qed
  have "snd (pop_number (m, p)) = (m, p\<lparr>bp_free := q\<rparr>)"
    using pop(1) rq by (cases r) (simp_all add: pop_number_def)
  then show "pool_view (snd (pop_number (m, p))) = tl (pool_view (m, p))"
    using pop(4) rq full view by (simp add: pool_view_def map_tl)
qed

lemma snd_pop_number: "snd (pop_number mp) = snd (pop_free_block mp)"
  by (auto simp: pop_number_def and_then_def split: result.splits prod.splits)

lemma distinct_pool_view:
  assumes inv: "pool_inv m p"
  shows "distinct (pool_view (m, p))"
proof -
  have ok: "blocks_ok m p" by (rule pool_inv_blocks [OF inv])
  have "inj_on (\<lambda>a. block_number (m_heap m a)) (set (fq_list (bp_free p)))"
    by (rule inj_on_subset [OF pool_numbers_inj [OF ok]]) (use queued_owned [OF ok] in blast)
  moreover have "distinct (fq_list (bp_free p))"
    using ok by (auto simp: blocks_ok_def intro: distinct_fq_list)
  moreover have "block_number (m_heap m a) < bp_next_fresh p" if "a \<in> set (fq_list (bp_free p))" for a
  proof -
    have "bp_materialized p (block_number (m_heap m a)) = Some a"
      using ok that by (simp add: blocks_ok_def owns_def)
    with inv show ?thesis by (auto simp: pool_inv_def)
  qed
  ultimately show ?thesis
    by (force simp: pool_view_def distinct_map inj_on_def)
qed

interpretation bp: handout_queue "\<lambda>(m, p). pool_inv m p" pool_view pop_number
  "\<lambda>(m, p). nat (bp_get_num_free_blocks p)"
proof unfold_locales
  fix mp :: "'a mem \<times> pool" and n ns
  obtain m p where mp: "mp = (m, p)" by fastforce
  assume inv: "case mp of (m, p) \<Rightarrow> pool_inv m p"
  then have inv': "pool_inv m p" by (simp add: mp)
  then have pos: "0 \<le> bp_next_fresh p" by (simp add: pool_inv_def)
  show "fst (pop_number mp) = Raise PyIndexError" if "pool_view mp = []"
    using that pop_number_queued(1) [OF inv'] view_fresh [OF pos, of m] mp
    by (cases "bp_next_fresh p < bp_num_blocks p") auto
  show "fst (pop_number mp) = Ok n" if "pool_view mp = n # ns"
    using that pop_number_fresh(1) [OF inv'] pop_number_queued(2) [OF inv'] view_fresh [OF pos, of m] mp
    by (cases "bp_next_fresh p < bp_num_blocks p") auto
  show "pool_view (snd (pop_number mp)) = tl (pool_view mp)"
    using pop_number_fresh(2) [OF inv'] pop_number_queued(3) [OF inv'] mp
    by (cases "bp_next_fresh p < bp_num_blocks p") auto
  show "case snd (pop_number mp) of (m, p) \<Rightarrow> pool_inv m p"
    using pop_free_block_inv [OF inv'] mp
    by (auto simp: snd_pop_number split: prod.splits) (metis prod.collapse)
  show "(case mp of (m, p) \<Rightarrow> nat (bp_get_num_free_blocks p)) = length (pool_view mp)"
    using num_free_view [OF inv'] by (simp add: mp)
  show "distinct (pool_view mp)" using distinct_pool_view [OF inv'] by (simp add: mp)
qed

section \<open>Resetting the number of free blocks\<close>

definition refilled :: "int \<Rightarrow> nat \<Rightarrow> 'k mem \<times> pool \<Rightarrow> bool" where
  "refilled k j mp \<longleftrightarrow> (case mp of (m, p) \<Rightarrow>
     blocks_ok m p \<and> dom (bp_materialized p) = {0..<int j} \<and>
     lru_blocks (bp_free p) = [] \<and>
     map (\<lambda>a. block_number (m_heap m a)) (fifo_blocks (bp_free p)) = map int [0..<min j (nat k)] \<and>
     (\<forall>n a. bp_materialized p n = Some a \<longrightarrow> ref_count (m_heap m a) = (if n < k then 0 else 1)))"

lemma refill_step_keeps [simp]:
  "bp_next_fresh (snd (refill_step k i mp)) = bp_next_fresh (snd mp)"
  "bp_num_blocks (snd (refill_step k i mp)) = bp_num_blocks (snd mp)"
  "bp_device (snd (refill_step k i mp)) = bp_device (snd mp)"
  by (auto simp: refill_step_def Let_def append_free_block_def split: prod.splits)

lemma refilled_step:
  assumes "refilled k j (m, p)" and "0 \<le> k"
  shows "refilled k (Suc j) (refill_step k j (m, p))"
proof -
  define b where "b = (new_block (bp_device p) (int j) (bp_block_size p) :: 'a phys_block)"
  define a where "a = m_next m"
  define m1 where "m1 = m\<lparr>m_heap := (m_heap m)(a := b), m_next := Suc a\<rparr>"
  define p1 where "p1 = p\<lparr>bp_materialized := (bp_materialized p)(int j \<mapsto> a)\<rparr>"
  have ok: "blocks_ok m p" and dom: "dom (bp_materialized p) = {0..<int j}"
    and lru: "lru_blocks (bp_free p) = []"
    and nums: "map (\<lambda>a. block_number (m_heap m a)) (fifo_blocks (bp_free p)) = map int [0..<min j (nat k)]"
    and refs: "bp_materialized p n = Some c \<Longrightarrow> ref_count (m_heap m c) = (if n < k then 0 else 1)" for n c
    using assms(1) by (auto simp: refilled_def)
  have none: "bp_materialized p (int j) = None" using dom by (auto simp: domIff)
  have mk: "make_block (new_block (bp_device p) (int j) (bp_block_size p)) m = (a, m1)"
    by (simp add: make_block_def m1_def a_def b_def)
  note mat = materialize_ok [OF ok none mk, folded p1_def]
  have old: "m_heap m1 c = m_heap m c" if "c \<in> pool_blocks p" for c
    using that mat(3) by (auto simp: m1_def)
  have fifo: "fifo_blocks (bp_free p) = fq_list (bp_free p)" using lru by (simp add: fq_list_def)
  have nums1: "map (\<lambda>c. block_number (m_heap m1 c)) (fifo_blocks (bp_free p)) = map int [0..<min j (nat k)]"
    unfolding nums [symmetric] fifo by (rule map_cong) (use old queued_owned [OF ok] in auto)
  have old_mat: "m_heap m1 c = m_heap m c" "c \<noteq> a" if "bp_materialized p n = Some c" for n c
    using that old [of c] mat(3) by (auto simp: pool_blocks_def ran_def)
  have dom1: "dom (bp_materialized p1) = {0..<int (Suc j)}" using dom by (auto simp: p1_def)
  show ?thesis
  proof (cases "int j < k")
    case True
    have step: "refill_step k j (m, p) = (m1, append_free_block m1 p1 a)"
      using True mk by (simp add: refill_step_def p1_def)
    have notin: "a \<notin> set (fifo_blocks (bp_free p1))"
      using mat(3) queued_owned [OF ok] by (auto simp: p1_def fifo)
    have fq: "fq_inv (m_heap m1) (bp_free p1)" using mat(1) by (simp add: blocks_ok_def)
    note app = fq_append_refines [OF fq pool_numbered [OF mat(1,2)]]
    have "min (Suc j) (nat k) = Suc (min j (nat k))" "min j (nat k) = j" using True by auto
    moreover have "block_number (m_heap m1 a) = int j" by (simp add: m1_def b_def)
    ultimately show ?thesis
      using append_free_block_ok(1) [OF mat(1,2)] dom1 app lru nums1 notin refs old_mat True
      by (auto simp: refilled_def step append_free_block_def) (auto simp: p1_def m1_def b_def split: if_splits)
  next
    case False
    define m2 where "m2 = m1\<lparr>m_heap := upd_block a (\<lambda>b. b\<lparr>ref_count := 1\<rparr>) (m_heap m1)\<rparr>"
    have step: "refill_step k j (m, p) = (m2, p1)"
      using False mk by (simp add: refill_step_def p1_def m2_def)
    have refs2: "ref_count (m_heap m2 c) = (if n < k then 0 else 1)" if "bp_materialized p1 n = Some c" for n c
    proof (cases "n = int j")
      case True
      with that False show ?thesis by (simp add: p1_def m2_def)
    next
      case n: False
      with that have "bp_materialized p n = Some c" by (simp add: p1_def)
      from old_mat [OF this] refs [OF this] show ?thesis by (simp add: m2_def)
    qed
    have "blocks_ok m2 p1" unfolding m2_def by (rule blocks_ok_upd [OF mat(1)]) simp_all
    moreover have "block_number (m_heap m2 c) = block_number (m_heap m1 c)" for c
      by (simp add: m2_def upd_block_def)
    then have "map (\<lambda>c. block_number (m_heap m2 c)) (fifo_blocks (bp_free p1)) = map int [0..<min j (nat k)]"
      using nums1 by (simp add: p1_def)
    moreover have "min (Suc j) (nat k) = min j (nat k)" using False by auto
    ultimately show ?thesis
      using dom1 lru refs2 by (simp add: refilled_def step) (simp add: p1_def)
  qed
qed

lemma refilled_fold:
  assumes "0 \<le> k" and "refilled k 0 mp"
  shows "refilled k j (fold (refill_step k) [0..<j] mp)"
proof (induction j)
  case (Suc j)
  obtain m p where "fold (refill_step k) [0..<j] mp = (m, p)" by fastforce
  with Suc refilled_step [of k j m p] assms(1) show ?case by simp
qed (simp add: assms)

lemma fold_refill_keeps:
  "bp_next_fresh (snd (fold (refill_step k) xs mp)) = bp_next_fresh (snd mp) \<and>
   bp_num_blocks (snd (fold (refill_step k) xs mp)) = bp_num_blocks (snd mp)"
  by (induction xs arbitrary: mp) simp_all

lemma set_num_free_blocks_ok:
  assumes "0 \<le> k" and "k \<le> bp_num_blocks p"
  obtains m' p' where "bp_set_num_free_blocks k (m, p) = (Ok (), m', p')" and "pool_inv m' p'"
    and "refilled k (nat (bp_num_blocks p)) (m', p')" and "bp_next_fresh p' = bp_num_blocks p'"
    and "bp_num_blocks p' = bp_num_blocks p"
proof -
  define mp where "mp = (m, p\<lparr>bp_free := fq_empty, bp_materialized := Map.empty,
    bp_next_fresh := bp_num_blocks p\<rparr>)"
  obtain m' p' where mp': "fold (refill_step k) [0..<nat (bp_num_blocks p)] mp = (m', p')" by fastforce
  have "refilled k 0 mp"
    by (simp add: refilled_def mp_def blocks_ok_def)
  from refilled_fold [OF assms(1) this, of "nat (bp_num_blocks p)"]
  have r: "refilled k (nat (bp_num_blocks p)) (m', p')" by (simp add: mp')
  have keep: "bp_next_fresh p' = bp_num_blocks p" "bp_num_blocks p' = bp_num_blocks p"
    using fold_refill_keeps [of k "[0..<nat (bp_num_blocks p)]" mp]
    unfolding mp' by (simp_all add: mp_def)
  have "pool_inv m' p'"
    using r keep assms by (auto simp: pool_inv_def refilled_def)
  moreover have "bp_set_num_free_blocks k (m, p) = (Ok (), m', p')"
    using assms mp' by (simp add: bp_set_num_free_blocks_def mp_def)
  ultimately show thesis using that r keep by simp
qed

section \<open>Properties of the pool\<close>

text \<open>
  C18. Although blocks are made only on first use, a pool hands them out in the order of an eager
  pool: popping as often as \<^verbatim>\<open>get_num_free_blocks\<close> says gives the numbers never used so far in
  ascending order, then the recycled uncached blocks first in first out, then the cached blocks
  by access stamp; no number comes twice; and the next pop raises \<^verbatim>\<open>IndexError\<close>.
\<close>

theorem pool_handout_order:
  assumes "pool_inv m p"
  shows "bp_get_num_free_blocks p \<ge> 0 \<and>
    (let (ns, mp') = pop_n pop_number (nat (bp_get_num_free_blocks p)) (m, p)
     in ns = map int [nat (bp_next_fresh p)..<nat (bp_num_blocks p)] @
          map (\<lambda>a. block_number (m_heap m a))
            (fifo_blocks (bp_free p) @ map snd (lru_blocks (bp_free p))) \<and>
        distinct ns \<and> fst (pop_free_block mp') = Raise PyIndexError)"
proof -
  have inv: "case (m, p) of (m, p) \<Rightarrow> pool_inv m p" using assms by simp
  define n where "n = nat (bp_get_num_free_blocks p)"
  have n: "n = length (pool_view (m, p))" using num_free_view [OF assms] by (simp add: n_def)
  obtain ns mp' where pop: "pop_n pop_number n (m, p) = (ns, mp')" by (metis surj_pair)
  have "ns = pool_view (m, p)"
    using bp.pop_n_take [OF inv, of n] by (simp add: pop n_def [symmetric]) (simp add: n)
  moreover have "fst (pop_number mp') = Raise PyIndexError"
    using bp.pop_n_exhausts [OF inv] by (simp add: pop n_def [symmetric])
  then have "fst (pop_free_block mp') = Raise PyIndexError"
    by (auto simp: pop_number_def and_then_def split: prod.splits result.splits)
  moreover have "0 \<le> bp_get_num_free_blocks p" using num_free_view [OF assms] by simp
  moreover have "pool_view (m, p) = map int [nat (bp_next_fresh p)..<nat (bp_num_blocks p)] @
    map (\<lambda>a. block_number (m_heap m a)) (fifo_blocks (bp_free p) @ map snd (lru_blocks (bp_free p)))"
    by (simp add: pool_view_def fq_list_def)
  ultimately show ?thesis
    using distinct_pool_view [OF assms] unfolding n_def [symmetric] pop by simp
qed

theorem pool_handout_order_witness:
  "fst (pop_n pop_number 3 (\<lparr>m_heap = \<lambda>_. new_block GPU 0 16 :: nat phys_block, m_next = 0\<rparr>, new_pool GPU 16 3))
   = [0, 1, 2]"
  using pool_handout_order [OF new_pool_inv [of 3
      "\<lparr>m_heap = \<lambda>_. new_block GPU 0 16 :: nat phys_block, m_next = 0\<rparr>" GPU 16]]
  by (simp add: split_beta new_pool_def bp_get_num_free_blocks_def upt_rec)

text \<open>
  C21. \<^verbatim>\<open>set_num_free_blocks(k)\<close> raises \<^verbatim>\<open>SimulationStateError\<close> and changes nothing when \<open>k\<close>
  is negative or above the pool size. Otherwise the pool is well formed, exactly the numbers below
  \<open>k\<close> are free, handed out in ascending order, and every other block is held once.
\<close>

theorem set_num_free_blocks_exact:
  "(k < 0 \<or> bp_num_blocks p < k \<longrightarrow>
      bp_set_num_free_blocks k (m, p) = (Raise SimulationStateError, m, p)) \<and>
   (0 \<le> k \<and> k \<le> bp_num_blocks p \<longrightarrow>
      (\<exists>m' p'. bp_set_num_free_blocks k (m, p) = (Ok (), m', p') \<and> pool_inv m' p' \<and>
        bp_get_num_free_blocks p' = k \<and> pool_view (m', p') = map int [0..<nat k] \<and>
        (\<forall>n. 0 \<le> n \<and> n < bp_num_blocks p \<longrightarrow>
           (\<exists>a. bp_materialized p' n = Some a \<and> ref_count (m_heap m' a) = (if n < k then 0 else 1)))))"
proof (intro conjI impI)
  assume "k < 0 \<or> bp_num_blocks p < k"
  then show "bp_set_num_free_blocks k (m, p) = (Raise SimulationStateError, m, p)"
    by (simp add: bp_set_num_free_blocks_def)
next
  assume k: "0 \<le> k \<and> k \<le> bp_num_blocks p"
  then obtain m' p' where s: "bp_set_num_free_blocks k (m, p) = (Ok (), m', p')" "pool_inv m' p'"
    "refilled k (nat (bp_num_blocks p)) (m', p')" "bp_next_fresh p' = bp_num_blocks p'"
    "bp_num_blocks p' = bp_num_blocks p"
    using set_num_free_blocks_ok by metis
  have view: "pool_view (m', p') = map int [0..<nat k]"
    using s k by (simp add: pool_view_def refilled_def fq_list_def min.absorb2 nat_mono)
  have "\<exists>a. bp_materialized p' n = Some a \<and> ref_count (m_heap m' a) = (if n < k then 0 else 1)"
    if "0 \<le> n \<and> n < bp_num_blocks p" for n
  proof -
    have "n \<in> dom (bp_materialized p')" using s(3) that by (simp add: refilled_def)
    then obtain a where "bp_materialized p' n = Some a" by blast
    moreover from this have "ref_count (m_heap m' a) = (if n < k then 0 else 1)"
      using s(3) unfolding refilled_def by simp
    ultimately show ?thesis by blast
  qed
  moreover have "bp_get_num_free_blocks p' = k" using num_free_view [OF s(2)] view k by simp
  ultimately show "\<exists>m' p'. bp_set_num_free_blocks k (m, p) = (Ok (), m', p') \<and> pool_inv m' p' \<and>
        bp_get_num_free_blocks p' = k \<and> pool_view (m', p') = map int [0..<nat k] \<and>
        (\<forall>n. 0 \<le> n \<and> n < bp_num_blocks p \<longrightarrow>
           (\<exists>a. bp_materialized p' n = Some a \<and> ref_count (m_heap m' a) = (if n < k then 0 else 1)))"
    using s view by blast
qed

theorem set_num_free_blocks_exact_witness:
  "\<exists>m' p'. bp_set_num_free_blocks 2
      (\<lparr>m_heap = \<lambda>_. new_block GPU 0 16 :: nat phys_block, m_next = 0\<rparr>, new_pool GPU 16 3) =
      (Ok (), m', p') \<and> bp_get_num_free_blocks p' = 2 \<and> pool_view (m', p') = map int [0..<nat 2]"
  using set_num_free_blocks_exact [of 2 "new_pool GPU 16 3"
      "\<lparr>m_heap = \<lambda>_. new_block GPU 0 16 :: nat phys_block, m_next = 0\<rparr>"]
  by (auto simp: new_pool_def)

end
