(* ===== verification/Prefix_Keys.thy ===== *)
theory Prefix_Keys
  imports Prelude "HOL-Library.Sublist"
begin

text \<open>
  Prefix-cache keys (\<^verbatim>\<open>src/TokenSim/block/prefix_cache.py\<close>). A key names a block by the
  hash of everything before it, its own signature and the scope (model, salt, group). The
  digest \<^verbatim>\<open>hashlib.sha256(...).hexdigest()\<close> is the parameter \<open>H\<close> from payload to
  digest; the payloads are the JSON texts the code builds, character by character.
  The module-level cache of key chains is an explicit state.
\<close>

section \<open>JSON text\<close>

abbreviation dq :: char where
  "dq \<equiv> CHR 0x22"

abbreviation bsl :: char where
  "bsl \<equiv> CHR 0x5C"

definition hex_digit :: "nat \<Rightarrow> char" where
  "hex_digit n = ''0123456789abcdef'' ! (n mod 16)"

text \<open>\<^verbatim>\<open>json.encoder.encode_basestring_ascii\<close>, one character.\<close>

definition esc_char :: "char \<Rightarrow> string" where
  "esc_char c =
     (if c = dq then [bsl, dq]
      else if c = bsl then [bsl, bsl]
      else if c = CHR 0x0A then [bsl, CHR ''n'']
      else if c = CHR 0x0D then [bsl, CHR ''r'']
      else if c = CHR 0x09 then [bsl, CHR ''t'']
      else if c = CHR 0x0C then [bsl, CHR ''f'']
      else if c = CHR 0x08 then [bsl, CHR ''b'']
      else if of_char c < (32::nat) \<or> (126::nat) < of_char c then
        [bsl, CHR ''u'', CHR ''0'', CHR ''0'',
         hex_digit (of_char c div 16), hex_digit (of_char c)]
      else [c])"

definition quote_json :: "string \<Rightarrow> string" where
  "quote_json s = dq # concat (map esc_char s) @ [dq]"

definition json_field :: "string \<Rightarrow> string" where
  "json_field name = quote_json name @ '':''"

definition json_opt :: "string option \<Rightarrow> string" where
  "json_opt v = (case v of None \<Rightarrow> ''null'' | Some s \<Rightarrow> quote_json s)"

section \<open>Keys and their chain\<close>

datatype prefix_key =
  PrefixCacheKey (parent_hash: string) (block_signature: string) (extra_hash: string)

datatype hash_id = HStr string | HInt int

fun dec_digits :: "nat \<Rightarrow> string" where
  "dec_digits n = (if n < 10 then [char_of (48 + n)]
     else dec_digits (n div 10) @ [char_of (48 + n mod 10)])"

declare dec_digits.simps [simp del]

text \<open>\<^verbatim>\<open>str(block_hash)\<close> of a string or an integer.\<close>

fun str_of :: "hash_id \<Rightarrow> string" where
  "str_of (HStr s) = s"
| "str_of (HInt i) = (if i < 0 then CHR ''-'' # dec_digits (nat (- i)) else dec_digits (nat i))"

text \<open>
  \<^verbatim>\<open>_stable_hash\<close> digests \<^verbatim>\<open>json.dumps(value, sort_keys=True, separators=(",", ":"))\<close>;
  the two objects it is given have these texts.
\<close>

definition extra_payload :: "string \<Rightarrow> string option \<Rightarrow> string option \<Rightarrow> string" where
  "extra_payload model cache_salt reuse_group =
     ''{'' @ json_field ''cache_salt'' @ json_opt cache_salt
     @ '','' @ json_field ''model'' @ quote_json model
     @ '','' @ json_field ''reuse_group'' @ json_opt reuse_group @ ''}''"

definition root_payload :: "string \<Rightarrow> string" where
  "root_payload extra =
     ''{'' @ json_field ''extra_hash'' @ quote_json extra
     @ '','' @ json_field ''root'' @ quote_json ''tokensim-prefix-cache'' @ ''}''"

definition make_extra_hash ::
  "(string \<Rightarrow> string) \<Rightarrow> string \<Rightarrow> string option \<Rightarrow> string option \<Rightarrow> string" where
  "make_extra_hash H model cache_salt reuse_group = H (extra_payload model cache_salt reuse_group)"

definition make_root_parent_hash :: "(string \<Rightarrow> string) \<Rightarrow> string \<Rightarrow> string" where
  "make_root_parent_hash H extra = H (root_payload extra)"

definition make_prefix_key :: "string \<Rightarrow> hash_id \<Rightarrow> string \<Rightarrow> prefix_key" where
  "make_prefix_key parent block_hash extra = PrefixCacheKey parent (str_of block_hash) extra"

definition chain_payload :: "string \<Rightarrow> string \<Rightarrow> string \<Rightarrow> string" where
  "chain_payload parent signature quoted_extra =
     ''{'' @ json_field ''block_signature'' @ quote_json signature
     @ '','' @ json_field ''extra_hash'' @ quoted_extra
     @ '','' @ json_field ''parent_hash'' @ quote_json parent @ ''}''"

definition chain_hash :: "(string \<Rightarrow> string) \<Rightarrow> string \<Rightarrow> string \<Rightarrow> string \<Rightarrow> string" where
  "chain_hash H parent signature quoted_extra = H (chain_payload parent signature quoted_extra)"

definition next_parent_hash :: "(string \<Rightarrow> string) \<Rightarrow> prefix_key \<Rightarrow> string" where
  "next_parent_hash H key =
     chain_hash H (parent_hash key) (block_signature key) (quote_json (extra_hash key))"

text \<open>
  The loop of \<^verbatim>\<open>build_prefix_keys\<close> over the signatures that are not cached: the keys it
  appends and the parent hash it ends with.
\<close>

fun extend_keys ::
  "(string \<Rightarrow> string) \<Rightarrow> string \<Rightarrow> string \<Rightarrow> string list \<Rightarrow> prefix_key list \<times> string" where
  "extend_keys H extra parent [] = ([], parent)"
| "extend_keys H extra parent (s # ss) =
     (let (ks, p) = extend_keys H extra (chain_hash H parent s (quote_json extra)) ss
      in (PrefixCacheKey parent s extra # ks, p))"

section \<open>The chain cache\<close>

text \<open>\<^verbatim>\<open>_common_prefix\<close>: a binary search on equal slices.\<close>

function cp_search :: "string list \<Rightarrow> string list \<Rightarrow> nat \<Rightarrow> nat \<Rightarrow> nat" where
  "cp_search left right low high =
     (if 1 < high - low then
        (let middle = (low + high) div 2
         in if take middle left = take middle right then cp_search left right middle high
            else cp_search left right low middle)
      else low)"
  by pat_completeness auto
termination
  by (relation "measure (\<lambda>(left, right, low, high). high - low)") auto

declare cp_search.simps [simp del]

definition common_prefix :: "string list \<Rightarrow> string list \<Rightarrow> nat" where
  "common_prefix left right =
     (let size = min (length left) (length right)
      in if size = 0 \<or> left ! 0 \<noteq> right ! 0 then 0
         else if take size left = take size right then size
         else cp_search left right 1 size)"

type_synonym chain = "string list \<times> prefix_key list \<times> string"

record chain_cache =
  scope_limit :: nat
  chain_limit :: nat
  scopes :: "(string \<times> chain list) list"

definition new_chain_cache :: chain_cache where
  "new_chain_cache = \<lparr>scope_limit = 1024, chain_limit = 4, scopes = []\<rparr>"

definition move_to_end :: "'k \<Rightarrow> ('k \<times> 'v) list \<Rightarrow> ('k \<times> 'v) list" where
  "move_to_end k d =
     (case map_of d k of None \<Rightarrow> d | Some v \<Rightarrow> AList.delete k d @ [(k, v)])"

fun longest_loop ::
  "string list \<Rightarrow> chain list \<Rightarrow> nat \<Rightarrow> chain option \<Rightarrow> nat \<times> chain option" where
  "longest_loop signatures [] best best_chain = (best, best_chain)"
| "longest_loop signatures (chain # chs) best best_chain =
     (let shared = common_prefix (fst chain) signatures
      in if best < shared then
           (if shared = length signatures then (shared, Some chain)
            else longest_loop signatures chs shared (Some chain))
         else longest_loop signatures chs best best_chain)"

definition longest ::
  "chain_cache \<Rightarrow> string \<Rightarrow> string list \<Rightarrow> (nat \<times> chain option) \<times> chain_cache" where
  "longest cc extra signatures =
     (case map_of (scopes cc) extra of
        None \<Rightarrow> ((0, None), cc)
      | Some chs \<Rightarrow>
          if chs = [] then ((0, None), cc)
          else (longest_loop signatures chs 0 None,
                cc\<lparr>scopes := move_to_end extra (scopes cc)\<rparr>))"

text \<open>
  \<^verbatim>\<open>store\<close>: a new scope may push out the oldest one (possibly itself, when the limit is
  0); the scope's chain list is then rewritten in place.
\<close>

definition store_chain ::
  "chain_cache \<Rightarrow> string \<Rightarrow> string list \<Rightarrow> prefix_key list \<Rightarrow> string \<Rightarrow> chain_cache" where
  "store_chain cc extra signatures keys parent =
     (let found = map_of (scopes cc) extra;
          chs = (case found of None \<Rightarrow> [] | Some chs \<Rightarrow> chs);
          scopes1 = (case found of
             None \<Rightarrow> (let d = AList.update extra [] (scopes cc)
                      in if scope_limit cc < length d then tl d else d)
           | Some _ \<Rightarrow> move_to_end extra (scopes cc));
          chains1 = filter (\<lambda>chain. common_prefix (fst chain) signatures < length (fst chain)) chs
            @ [(signatures, keys, parent)];
          chains2 = (if chain_limit cc < length chains1 then tl chains1 else chains1)
      in cc\<lparr>scopes := (if map_of scopes1 extra = None then scopes1
                        else AList.update extra chains2 scopes1)\<rparr>)"

definition build_prefix_keys ::
  "(string \<Rightarrow> string) \<Rightarrow> chain_cache \<Rightarrow> hash_id list \<Rightarrow> string \<Rightarrow> string option \<Rightarrow> string option
   \<Rightarrow> prefix_key list \<times> chain_cache" where
  "build_prefix_keys H cc block_hashes model cache_salt reuse_group =
     (let extra = make_extra_hash H model cache_salt reuse_group;
          signatures = map str_of block_hashes
      in if signatures = [] then ([], cc)
         else
           (let ((shared, chain), cc1) = longest cc extra signatures;
                (keys, parent) =
                  (case chain of
                     None \<Rightarrow> ([], make_root_parent_hash H extra)
                   | Some (sigs, cached_keys, last_parent) \<Rightarrow>
                       (take shared cached_keys,
                        if shared < length cached_keys then parent_hash (cached_keys ! shared)
                        else last_parent))
            in if shared < length signatures then
                 (let (fresh, parent') = extend_keys H extra parent (drop shared signatures)
                  in (keys @ fresh,
                      store_chain cc1 extra signatures (keys @ fresh) parent'))
               else (keys, cc1)))"

section \<open>The binary search finds the longest common prefix\<close>

lemma take_eq_mono:
  assumes "take n xs = take n ys" and "m \<le> n"
  shows "take m xs = take m ys"
  by (metis assms min.absorb1 take_take)

lemma take_eq_iff_lcp:
  assumes "n \<le> length xs" and "n \<le> length ys"
  shows "take n xs = take n ys \<longleftrightarrow> n \<le> length (Longest_common_prefix {xs, ys})"
proof -
  have p: "\<forall>zs \<in> {xs, ys}. prefix (Longest_common_prefix {xs, ys}) zs"
    by (metis insertI1 Longest_common_prefix_prefix)
  show ?thesis
  proof
    assume eq: "take n xs = take n ys"
    then have "prefix (take n xs) (Longest_common_prefix {xs, ys})"
      using take_is_prefix [of n xs] take_is_prefix [of n ys]
      by (intro Longest_common_prefix_max_prefix) simp_all
    then show "n \<le> length (Longest_common_prefix {xs, ys})"
      using assms prefix_length_le by fastforce
  next
    assume "n \<le> length (Longest_common_prefix {xs, ys})"
    moreover have "take (length (Longest_common_prefix {xs, ys})) xs = Longest_common_prefix {xs, ys}"
      and "take (length (Longest_common_prefix {xs, ys})) ys = Longest_common_prefix {xs, ys}"
      using p by (metis append_eq_conv_conj insertI1 insertI2 prefix_def)+
    ultimately show "take n xs = take n ys" by (metis take_eq_mono)
  qed
qed

lemma cp_search_spec:
  "take low l = take low r \<Longrightarrow> take high l \<noteq> take high r \<Longrightarrow> low < high \<Longrightarrow>
   take (cp_search l r low high) l = take (cp_search l r low high) r \<and>
   take (Suc (cp_search l r low high)) l \<noteq> take (Suc (cp_search l r low high)) r \<and>
   low \<le> cp_search l r low high \<and> cp_search l r low high < high"
proof (induction l r low high rule: cp_search.induct)
  case (1 l r low high)
  show ?case
  proof (cases "1 < high - low")
    case False
    with 1 have "high = Suc low" by simp
    with 1 show ?thesis by (simp add: cp_search.simps [of l r low "Suc low"])
  next
    case True
    define middle where "middle = (low + high) div 2"
    have mid: "low < middle" "middle < high" using True by (auto simp: middle_def)
    show ?thesis
    proof (cases "take middle l = take middle r")
      case eq: True
      with True have "cp_search l r low high = cp_search l r middle high"
        by (simp add: cp_search.simps [of l r low high] middle_def)
      moreover note "1.IH"(1) [OF True middle_def eq eq "1.prems"(2) mid(2)]
      ultimately show ?thesis using mid by simp
    next
      case neq: False
      with True have "cp_search l r low high = cp_search l r low middle"
        by (simp add: cp_search.simps [of l r low high] middle_def)
      moreover note "1.IH"(2) [OF True middle_def neq "1.prems"(1) neq mid(1)]
      ultimately show ?thesis using mid by simp
    qed
  qed
qed

lemma common_prefix_bounds:
  "common_prefix l r \<le> length l" "common_prefix l r \<le> length r"
  "take (common_prefix l r) l = take (common_prefix l r) r"
proof -
  define size where "size = min (length l) (length r)"
  have "common_prefix l r \<le> size \<and> take (common_prefix l r) l = take (common_prefix l r) r"
  proof (cases "size = 0 \<or> l ! 0 \<noteq> r ! 0 \<or> take size l = take size r")
    case True
    then show ?thesis by (auto simp: common_prefix_def size_def [symmetric] Let_def)
  next
    case False
    then have "take 1 l = take 1 r" by (cases l; cases r) (auto simp: size_def)
    moreover have "1 < size"
      using False \<open>take 1 l = take 1 r\<close> by (metis One_nat_def Suc_lessI neq0_conv)
    ultimately show ?thesis
      using False cp_search_spec [of 1 l r size]
      by (simp add: common_prefix_def size_def [symmetric] Let_def)
  qed
  then show "common_prefix l r \<le> length l" "common_prefix l r \<le> length r"
    "take (common_prefix l r) l = take (common_prefix l r) r"
    by (simp_all add: size_def)
qed

lemma common_prefix_maximal:
  assumes "n \<le> length l" "n \<le> length r" "take n l = take n r"
  shows "n \<le> common_prefix l r"
proof -
  define size where "size = min (length l) (length r)"
  have n: "n \<le> size" using assms by (simp add: size_def)
  consider "size = 0" | "size \<noteq> 0" "l ! 0 \<noteq> r ! 0" | "take size l = take size r"
    | "size \<noteq> 0" "l ! 0 = r ! 0" "take size l \<noteq> take size r" by blast
  then show ?thesis
  proof cases
    case 1
    with n show ?thesis by simp
  next
    case 2
    have "n = 0"
    proof (rule ccontr)
      assume "n \<noteq> 0"
      then have "take n l ! 0 = l ! 0" "take n r ! 0 = r ! 0" by simp_all
      with assms(3) 2 show False by simp
    qed
    then show ?thesis by simp
  next
    case 3
    show ?thesis
    proof (cases "size = 0")
      case False
      then have "take 1 l = take 1 r" using 3 by (intro take_eq_mono [OF 3]) simp
      then have "l ! 0 = r ! 0" using False by (cases l; cases r) (auto simp: size_def)
      with 3 False n show ?thesis by (simp add: common_prefix_def size_def [symmetric] Let_def)
    qed (use n in simp)
  next
    case 4
    then have one: "take 1 l = take 1 r" by (cases l; cases r) (auto simp: size_def)
    then have "1 < size" using 4 by (metis One_nat_def Suc_lessI neq0_conv)
    note spec = cp_search_spec [OF one 4(3) this]
    have "common_prefix l r = cp_search l r 1 size"
      using 4 by (simp add: common_prefix_def size_def [symmetric] Let_def)
    with spec assms(3) show ?thesis
      by (metis not_less_eq_eq take_eq_mono)
  qed
qed

lemma common_prefix_lcp:
  "common_prefix l r = length (Longest_common_prefix {l, r})"
proof (rule antisym)
  show "common_prefix l r \<le> length (Longest_common_prefix {l, r})"
    using take_eq_iff_lcp common_prefix_bounds by blast
  have "prefix (Longest_common_prefix {l, r}) l" "prefix (Longest_common_prefix {l, r}) r"
    by (simp_all add: Longest_common_prefix_prefix)
  then have len: "length (Longest_common_prefix {l, r}) \<le> length l"
    "length (Longest_common_prefix {l, r}) \<le> length r"
    by (auto dest: prefix_length_le)
  show "length (Longest_common_prefix {l, r}) \<le> common_prefix l r"
    using len take_eq_iff_lcp [OF len] by (intro common_prefix_maximal) auto
qed

section \<open>The chain cache returns what a full rebuild computes\<close>

lemma extend_keys_append:
  "extend_keys H e p (xs @ ys) =
     (let (ks, q) = extend_keys H e p xs; (ls, r) = extend_keys H e q ys in (ks @ ls, r))"
  by (induction xs arbitrary: p) (auto simp: split_beta Let_def)

lemma length_extend_keys [simp]: "length (fst (extend_keys H e p ss)) = length ss"
  by (induction ss arbitrary: p) (auto simp: split_beta Let_def)

lemma extend_keys_take:
  "fst (extend_keys H e p (take n ss)) = take n (fst (extend_keys H e p ss))"
proof (induction ss arbitrary: p n)
  case (Cons s ss)
  then show ?case by (cases n) (auto simp: split_beta Let_def)
qed simp

lemma extend_keys_parent:
  "n < length ss \<Longrightarrow>
     parent_hash (fst (extend_keys H e p ss) ! n) = snd (extend_keys H e p (take n ss))"
proof (induction ss arbitrary: p n)
  case (Cons s ss)
  then show ?case by (cases n) (auto simp: split_beta Let_def)
qed simp

text \<open>A full rebuild starts from the root hash of the scope.\<close>

definition root_chain :: "(string \<Rightarrow> string) \<Rightarrow> string \<Rightarrow> string list \<Rightarrow> prefix_key list \<times> string" where
  "root_chain H extra signatures = extend_keys H extra (make_root_parent_hash H extra) signatures"

text \<open>The cache invariant: every stored chain is what a rebuild of its signatures gives.\<close>

definition chain_ok :: "(string \<Rightarrow> string) \<Rightarrow> string \<Rightarrow> chain \<Rightarrow> bool" where
  "chain_ok H extra chain \<longleftrightarrow> snd chain = root_chain H extra (fst chain)"

definition cc_ok :: "(string \<Rightarrow> string) \<Rightarrow> chain_cache \<Rightarrow> bool" where
  "cc_ok H cc \<longleftrightarrow> distinct (dict_keys (scopes cc)) \<and>
     (\<forall>extra chs chain. (extra, chs) \<in> set (scopes cc) \<longrightarrow> chain \<in> set chs \<longrightarrow> chain_ok H extra chain)"

lemma cc_ok_lookup:
  "cc_ok H cc \<Longrightarrow> map_of (scopes cc) extra = Some chs \<Longrightarrow> chain \<in> set chs \<Longrightarrow> chain_ok H extra chain"
  unfolding cc_ok_def by (blast dest: map_of_SomeD)

lemma cc_ok_new: "cc_ok H new_chain_cache"
  by (simp add: cc_ok_def new_chain_cache_def)

lemma set_dict_update:
  "distinct (dict_keys d) \<Longrightarrow> set (AList.update k v d) = insert (k, v) {(k', v') \<in> set d. k' \<noteq> k}"
  by (induction d) (auto simp: image_iff)

lemma set_move_to_end [simp]:
  "distinct (dict_keys d) \<Longrightarrow> set (move_to_end k d) = set d"
  unfolding move_to_end_def
  by (cases "map_of d k") (auto simp: set_dict_del dest: map_of_SomeD eq_key_imp_eq_value)

lemma distinct_move_to_end [simp]:
  "distinct (dict_keys d) \<Longrightarrow> distinct (dict_keys (move_to_end k d))"
  by (auto simp: move_to_end_def split: option.splits)

lemma longest_loop_facts:
  assumes "longest_loop signatures chs b bc = (n, oc)"
    and "case bc of None \<Rightarrow> b = 0 | Some c \<Rightarrow> b = common_prefix (fst c) signatures"
  shows "case oc of None \<Rightarrow> n = 0
         | Some c \<Rightarrow> n = common_prefix (fst c) signatures \<and> (c \<in> set chs \<or> bc = Some c)"
  using assms
proof (induction signatures chs b bc rule: longest_loop.induct)
  case (1 signatures b bc)
  then show ?case by (auto split: option.splits)
next
  case (2 signatures chain chs b bc)
  show ?case
  proof (cases "b < common_prefix (fst chain) signatures")
    case True
    then show ?thesis
      using 2 by (cases chain; cases "common_prefix (fst chain) signatures = length signatures")
        (auto simp: Let_def split: option.splits)
  next
    case False
    then show ?thesis using 2 by (auto simp: Let_def split: option.splits)
  qed
qed

lemma longest_facts:
  assumes ok: "cc_ok H cc" and l: "longest cc extra signatures = ((n, oc), cc')"
  shows "cc_ok H cc'"
    and "case oc of None \<Rightarrow> n = 0
         | Some c \<Rightarrow> n = common_prefix (fst c) signatures \<and> chain_ok H extra c"
proof -
  show "cc_ok H cc'"
    using assms
    by (auto simp: longest_def cc_ok_def simp del: split_paired_All split: option.splits if_splits)
  show "case oc of None \<Rightarrow> n = 0
         | Some c \<Rightarrow> n = common_prefix (fst c) signatures \<and> chain_ok H extra c"
    using l longest_loop_facts [of signatures _ 0 None n oc] cc_ok_lookup [OF ok, of extra]
    by (auto simp: longest_def split: option.splits if_splits)
qed

lemma cc_ok_scopes:
  assumes "cc_ok H cc" "distinct (dict_keys sc)"
    and "\<And>e chs chain. (e, chs) \<in> set sc \<Longrightarrow> chain \<in> set chs \<Longrightarrow> chain_ok H e chain"
  shows "cc_ok H (cc\<lparr>scopes := sc\<rparr>)"
  using assms by (simp add: cc_ok_def del: split_paired_All)

lemma set_tl_subset: "set (tl xs) \<subseteq> set xs"
  by (cases xs) auto

lemma store_chain_ok:
  assumes ok: "cc_ok H cc" and new: "chain_ok H extra (signatures, keys, parent)"
  shows "cc_ok H (store_chain cc extra signatures keys parent)"
proof -
  define chs where "chs = (case map_of (scopes cc) extra of None \<Rightarrow> [] | Some chs \<Rightarrow> chs)"
  define sc where "sc = (case map_of (scopes cc) extra of
      None \<Rightarrow> (let d = AList.update extra [] (scopes cc) in if scope_limit cc < length d then tl d else d)
    | Some _ \<Rightarrow> move_to_end extra (scopes cc))"
  define ch1 where "ch1 = filter (\<lambda>chain. common_prefix (fst chain) signatures < length (fst chain)) chs
    @ [(signatures, keys, parent)]"
  define ch2 where "ch2 = (if chain_limit cc < length ch1 then tl ch1 else ch1)"
  have dist: "distinct (dict_keys (scopes cc))" using ok by (simp add: cc_ok_def)
  have old: "chain_ok H e c" if "(e, cs) \<in> set (scopes cc)" "c \<in> set cs" for e cs c
    using ok that unfolding cc_ok_def by blast
  have "distinct (dict_keys (tl d))" if "distinct (dict_keys d)" for d :: "(string \<times> chain list) list"
    using that by (cases d) auto
  then have dsc: "distinct (dict_keys sc)"
    using dist by (auto simp: sc_def Let_def split: option.splits)
  have sub: "(e, cs) \<in> set (scopes cc) \<or> cs = []" if "(e, cs) \<in> set sc" for e cs
    using that dist set_tl_subset [of "AList.update extra [] (scopes cc)"]
    by (auto simp: sc_def Let_def set_dict_update split: option.splits if_splits)
  have chs_ok: "chain_ok H extra c" if "c \<in> set chs" for c
    using that cc_ok_lookup [OF ok, of extra _ c]
    by (cases "map_of (scopes cc) extra") (simp_all add: chs_def)
  have ch2_ok: "chain_ok H extra c" if "c \<in> set ch2" for c
    using that new chs_ok [of c] set_tl_subset [of ch1]
    by (auto simp: ch2_def ch1_def split: if_splits)
  have "store_chain cc extra signatures keys parent =
    cc\<lparr>scopes := (if map_of sc extra = None then sc else AList.update extra ch2 sc)\<rparr>"
    by (simp add: store_chain_def Let_def chs_def sc_def ch1_def ch2_def)
  moreover have "chain_ok H e c"
    if "(e, cs) \<in> set (if map_of sc extra = None then sc else AList.update extra ch2 sc)"
      and "c \<in> set cs" for e cs c
    using that sub [of e cs] old [of e cs c] ch2_ok [of c] dsc
    by (auto simp: set_dict_update split: if_splits)
  ultimately show ?thesis using dsc by (simp add: cc_ok_scopes [OF ok])
qed

lemma build_prefix_keys_memo:
  assumes ok: "cc_ok H cc" and b: "build_prefix_keys H cc hs model salt grp = (ks, cc')"
  shows "ks = fst (root_chain H (make_extra_hash H model salt grp) (map str_of hs)) \<and> cc_ok H cc'"
proof -
  define extra where "extra = make_extra_hash H model salt grp"
  define sg where "sg = map str_of hs"
  obtain n oc cc1 where l: "longest cc extra sg = ((n, oc), cc1)" by (metis surj_pair)
  note facts = longest_facts [OF ok l]
  define keys where "keys = (case oc of None \<Rightarrow> [] | Some c \<Rightarrow> take n (fst (snd c)))"
  define parent where "parent = (case oc of None \<Rightarrow> make_root_parent_hash H extra
    | Some c \<Rightarrow> if n < length (fst (snd c)) then parent_hash (fst (snd c) ! n) else snd (snd c))"
  have start: "n \<le> length sg \<and> (keys, parent) = root_chain H extra (take n sg)"
  proof (cases oc)
    case None
    then show ?thesis using facts by (simp add: keys_def parent_def root_chain_def)
  next
    case (Some c)
    obtain sigs ck lp where c: "c = (sigs, ck, lp)" by (cases c)
    have n: "n = common_prefix sigs sg" and ck: "(ck, lp) = root_chain H extra sigs"
      using facts Some c by (auto simp: chain_ok_def)
    have t: "take n sigs = take n sg" "n \<le> length sg" "n \<le> length sigs"
      using common_prefix_bounds [of sigs sg] by (simp_all add: n)
    have "length ck = length sigs" by (metis ck fst_conv length_extend_keys root_chain_def)
    moreover have "take n ck = fst (root_chain H extra (take n sg))"
      by (metis ck extend_keys_take fst_conv root_chain_def t(1))
    moreover have "parent_hash (ck ! n) = snd (root_chain H extra (take n sg))" if "n < length sigs"
      by (metis ck extend_keys_parent fst_conv root_chain_def t(1) that)
    moreover have "lp = snd (root_chain H extra (take n sg))" if "\<not> n < length sigs"
      by (metis ck linorder_not_less snd_conv t(1) take_all that)
    ultimately show ?thesis using t by (simp add: keys_def parent_def Some c prod_eq_iff)
  qed
  have whole: "root_chain H extra sg =
    (let (fr, q) = extend_keys H extra parent (drop n sg) in (keys @ fr, q))"
    using start extend_keys_append [of H extra _ "take n sg" "drop n sg"]
    by (simp add: root_chain_def split_beta Let_def prod_eq_iff)
  have unf: "build_prefix_keys H cc hs model salt grp =
    (if sg = [] then ([], cc) else if n < length sg then
       (keys @ fst (extend_keys H extra parent (drop n sg)),
        store_chain cc1 extra sg (keys @ fst (extend_keys H extra parent (drop n sg)))
          (snd (extend_keys H extra parent (drop n sg))))
     else (keys, cc1))"
    by (cases oc) (auto simp: build_prefix_keys_def Let_def extra_def [symmetric] sg_def [symmetric]
        l keys_def parent_def split_beta)
  show ?thesis
  proof (cases "n < length sg")
    case True
    have "cc_ok H (store_chain cc1 extra sg (keys @ fst (extend_keys H extra parent (drop n sg)))
        (snd (extend_keys H extra parent (drop n sg))))"
      by (rule store_chain_ok [OF facts(1)]) (simp add: chain_ok_def whole split_beta)
    with b unf True whole show ?thesis
      by (auto simp: extra_def [symmetric] sg_def [symmetric] split_beta Let_def split: if_splits)
  next
    case False
    then have "take n sg = sg" using start by simp
    then have "keys = fst (root_chain H extra sg)" using start by (metis fst_conv)
    with b unf False ok facts(1) show ?thesis
      by (auto simp: extra_def [symmetric] sg_def [symmetric] root_chain_def split: if_splits)
  qed
qed

section \<open>The payloads can be read back\<close>

definition hexval :: "char \<Rightarrow> nat" where
  "hexval c = (let k = of_char c in if k < 58 then k - 48 else k - 87)"

definition unesc :: "string \<Rightarrow> char \<times> string" where
  "unesc s =
     (if s ! 0 \<noteq> bsl then (s ! 0, drop 1 s)
      else if s ! 1 = CHR ''u'' then
        (char_of (16 * hexval (s ! 4) + hexval (s ! 5)), drop 6 s)
      else
        (if s ! 1 = CHR ''n'' then CHR 0x0A
         else if s ! 1 = CHR ''r'' then CHR 0x0D
         else if s ! 1 = CHR ''t'' then CHR 0x09
         else if s ! 1 = CHR ''f'' then CHR 0x0C
         else if s ! 1 = CHR ''b'' then CHR 0x08 else s ! 1, drop 2 s))"

lemma hexval_hex_digit: "hexval (hex_digit n) = n mod 16"
proof -
  have "\<forall>k \<in> set [0..<16]. hexval (''0123456789abcdef'' ! k) = k" by code_simp
  then show ?thesis by (simp add: hex_digit_def)
qed

lemma hex_pair: "(16 :: nat) * (of_char c div 16 mod 16) + of_char c mod 16 = of_char c"
proof -
  have "(of_char c :: nat) < 256" by (rule nat_of_char_less_256)
  then have "(of_char c :: nat) div 16 < 16" by (intro less_mult_imp_div_less) simp
  then show ?thesis by (metis mod_less mult_div_mod_eq)
qed

lemma unesc_esc_char: "unesc (esc_char c @ r) = (c, r)"
proof (cases "c \<in> {dq, bsl, CHR 0x0A, CHR 0x0D, CHR 0x09, CHR 0x0C, CHR 0x08}")
  case True
  then show ?thesis by (elim insertE) (simp_all add: unesc_def esc_char_def)
next
  case False
  then show ?thesis
    by (cases "of_char c < (32::nat) \<or> (126::nat) < of_char c")
      (simp_all add: unesc_def esc_char_def hexval_hex_digit hex_pair)
qed

lemma esc_char_not_dq: "esc_char c \<noteq> [] \<and> hd (esc_char c) \<noteq> dq"
  by (auto simp: esc_char_def)

lemma esc_chars_decode:
  "concat (map esc_char s) @ dq # r = concat (map esc_char t) @ dq # r' \<Longrightarrow> s = t \<and> r = r'"
proof (induction s arbitrary: t)
  case Nil
  show ?case
  proof (cases t)
    case (Cons d t')
    with Nil esc_char_not_dq [of d] show ?thesis by (cases "esc_char d") auto
  qed (use Nil in simp)
next
  case (Cons c s)
  show ?case
  proof (cases t)
    case Nil
    with Cons.prems esc_char_not_dq [of c] show ?thesis
      by (cases "esc_char c") auto
  next
    case (Cons d t')
    with Cons.prems have "unesc (esc_char c @ concat (map esc_char s) @ dq # r)
      = unesc (esc_char d @ concat (map esc_char t') @ dq # r')" by simp
    then have "c = d" "concat (map esc_char s) @ dq # r = concat (map esc_char t') @ dq # r'"
      by (simp_all add: unesc_esc_char)
    with Cons.IH [of t'] Cons show ?thesis by simp
  qed
qed

lemma quote_json_decode [simp]: "quote_json s @ r = quote_json t @ r' \<longleftrightarrow> s = t \<and> r = r'"
  using esc_chars_decode [of s r t r'] by (auto simp: quote_json_def)

lemma quote_json_inj [simp]: "quote_json s = quote_json t \<longleftrightarrow> s = t"
  using quote_json_decode [of s "[]" t "[]"] by simp

lemma json_opt_decode [simp]: "json_opt v @ r = json_opt w @ r' \<longleftrightarrow> v = w \<and> r = r'"
proof -
  have "''null'' @ x \<noteq> quote_json s @ y" and "quote_json s @ y \<noteq> ''null'' @ x" for x s y
    by (simp_all add: quote_json_def)
  then show ?thesis by (cases v; cases w) (auto simp: json_opt_def)
qed

lemma json_opt_inj [simp]: "json_opt v = json_opt w \<longleftrightarrow> v = w"
  using json_opt_decode [of v "[]" w "[]"] by simp

lemma extra_payload_inj:
  "extra_payload m s g = extra_payload m' s' g' \<longleftrightarrow> m = m' \<and> s = s' \<and> g = g'"
  by (auto simp: extra_payload_def)

lemma root_payload_inj: "root_payload e = root_payload e' \<longleftrightarrow> e = e'"
  by (auto simp: root_payload_def)

lemma chain_payload_inj:
  "chain_payload p s (quote_json e) = chain_payload p' s' (quote_json e') \<longleftrightarrow>
     p = p' \<and> s = s' \<and> e = e'"
  by (auto simp: chain_payload_def)

lemma root_chain_payload: "root_payload e \<noteq> chain_payload p s q"
  by (simp add: root_payload_def chain_payload_def json_field_def)

section \<open>A key identifies the prefix it ends\<close>

text \<open>The texts digested while a chain of signatures is built from its root.\<close>

definition digested :: "(string \<Rightarrow> string) \<Rightarrow> string \<Rightarrow> string list \<Rightarrow> string list" where
  "digested H extra sigs = root_payload extra #
     map (\<lambda>i. chain_payload (snd (root_chain H extra (take i sigs))) (sigs ! i) (quote_json extra))
       [0..<length sigs]"

lemma root_chain_Nil: "snd (root_chain H e []) = H (root_payload e)"
  by (simp add: root_chain_def make_root_parent_hash_def)

lemma root_chain_snoc:
  "snd (root_chain H e (xs @ [x])) =
     H (chain_payload (snd (root_chain H e xs)) x (quote_json e))"
  by (simp add: root_chain_def extend_keys_append split_beta Let_def chain_hash_def)

lemma digested_snoc:
  "digested H e (xs @ [x]) =
     digested H e xs @ [chain_payload (snd (root_chain H e xs)) x (quote_json e)]"
  by (simp add: digested_def nth_append)

lemma digested_Nil: "digested H e [] = [root_payload e]"
  by (simp add: digested_def)

lemma root_chain_last: "snd (root_chain H e xs) = H (last (digested H e xs))"
  by (cases xs rule: rev_cases) (simp_all add: root_chain_Nil root_chain_snoc digested_Nil digested_snoc)

lemma last_in_digested: "last (digested H e xs) \<in> set (digested H e xs)"
  by (rule last_in_set) (simp add: digested_def)

lemma parent_hash_identifies:
  assumes "inj_on H (set (digested H e xs) \<union> set (digested H e' ys))"
    and "snd (root_chain H e xs) = snd (root_chain H e' ys)"
  shows "xs = ys \<and> e = e'"
  using assms
proof (induction xs arbitrary: ys rule: rev_induct)
  case Nil
  have "last (digested H e []) = last (digested H e' ys)"
    by (rule inj_onD [OF Nil.prems(1)])
      (use Nil.prems(2) last_in_digested in \<open>auto simp: root_chain_last\<close>)
  then show ?case
    by (cases ys rule: rev_cases)
      (simp_all add: digested_Nil digested_snoc root_payload_inj root_chain_payload)
next
  case (snoc x xs)
  have last: "last (digested H e (xs @ [x])) = last (digested H e' ys)"
    by (rule inj_onD [OF snoc.prems(1)])
      (use snoc.prems(2) last_in_digested in \<open>auto simp: root_chain_last\<close>)
  show ?case
  proof (cases ys rule: rev_cases)
    case Nil
    with last show ?thesis
      using root_chain_payload by (metis digested_Nil digested_snoc last.simps last_snoc)
  next
    case (snoc zs z)
    have "inj_on H (set (digested H e xs) \<union> set (digested H e' zs))"
      by (rule inj_on_subset [OF snoc.prems(1)]) (auto simp: snoc digested_snoc)
    with last show ?thesis
      using snoc.IH [of zs] snoc by (auto simp: digested_snoc chain_payload_inj)
  qed
qed

lemma length_root_chain [simp]: "length (fst (root_chain H e sigs)) = length sigs"
  by (simp add: root_chain_def)

lemma nth_root_chain:
  assumes "i < length sigs"
  shows "fst (root_chain H e sigs) ! i =
    PrefixCacheKey (snd (root_chain H e (take i sigs))) (sigs ! i) e"
proof -
  have "fst (extend_keys H e p sigs) ! i =
    PrefixCacheKey (snd (extend_keys H e p (take i sigs))) (sigs ! i) e" for p
    using assms
  proof (induction sigs arbitrary: i p)
    case (Cons s sigs)
    then show ?case by (cases i) (auto simp: split_beta Let_def)
  qed simp
  then show ?thesis by (simp add: root_chain_def)
qed

lemma digested_take: "set (digested H e (take i sigs)) \<subseteq> set (digested H e sigs)"
proof (induction sigs rule: rev_induct)
  case (snoc s sigs)
  then show ?case by (cases "i \<le> length sigs") (auto simp: digested_snoc)
qed simp

text \<open>Every text digested by a call of \<^verbatim>\<open>build_prefix_keys\<close> that finds nothing cached.\<close>

definition build_digests ::
  "(string \<Rightarrow> string) \<Rightarrow> hash_id list \<Rightarrow> string \<Rightarrow> string option \<Rightarrow> string option \<Rightarrow> string list" where
  "build_digests H hs model salt grp =
     extra_payload model salt grp # digested H (make_extra_hash H model salt grp) (map str_of hs)"

text \<open>The chain cache after a sequence of calls, from the empty cache of the module.\<close>

type_synonym key_call = "hash_id list \<times> string \<times> string option \<times> string option"

fun cache_after :: "(string \<Rightarrow> string) \<Rightarrow> key_call list \<Rightarrow> chain_cache" where
  "cache_after H [] = new_chain_cache"
| "cache_after H ((hs, model, salt, grp) # calls) =
     snd (build_prefix_keys H (cache_after H calls) hs model salt grp)"

lemma cc_ok_cache_after: "cc_ok H (cache_after H calls)"
proof (induction calls)
  case (Cons call calls)
  obtain hs model salt grp where "call = (hs, model, salt, grp)" by (cases call)
  with Cons build_prefix_keys_memo [OF Cons, of hs model salt grp] show ?case
    by (metis cache_after.simps(2) prod.collapse)
qed (simp add: cc_ok_new)

text \<open>
  C13. Whatever calls came before, \<^verbatim>\<open>build_prefix_keys\<close> returns exactly the keys that a
  rebuild from the root hash computes: one key per signature, each holding the digest chain of
  the signatures before it. The chain cache is transparent.
\<close>

theorem build_prefix_keys_transparent:
  "fst (build_prefix_keys H (cache_after H calls) hs model salt grp) =
     (let extra = make_extra_hash H model salt grp; sigs = map str_of hs
      in map (\<lambda>i. PrefixCacheKey (snd (root_chain H extra (take i sigs))) (sigs ! i) extra)
           [0..<length sigs])"
proof -
  define extra where "extra = make_extra_hash H model salt grp"
  have "fst (build_prefix_keys H (cache_after H calls) hs model salt grp) =
      fst (root_chain H extra (map str_of hs))"
    using build_prefix_keys_memo [OF cc_ok_cache_after, of H calls hs model salt grp]
    by (metis extra_def prod.collapse)
  also have "\<dots> = map (\<lambda>i. PrefixCacheKey (snd (root_chain H extra (take i (map str_of hs))))
      (map str_of hs ! i) extra) [0..<length (map str_of hs)]"
    by (rule nth_equalityI) (simp_all add: nth_root_chain)
  finally show ?thesis by (simp add: Let_def extra_def)
qed

text \<open>
  C3. Equal keys name equal contents: when key \<open>i\<close> of one request equals key \<open>j\<close> of another,
  the two blocks are at the same position, the block hashes up to and including that position
  have the same texts, and the model, the cache salt and the reuse group agree. The digest is only
  asked not to collide on the texts these two requests digest.
\<close>

theorem prefix_key_sound:
  assumes "inj_on H (set (build_digests H hs model salt grp) \<union>
      set (build_digests H hs' model' salt' grp'))"
    and "i < length hs" and "j < length hs'"
    and "fst (build_prefix_keys H (cache_after H calls) hs model salt grp) ! i =
      fst (build_prefix_keys H (cache_after H calls') hs' model' salt' grp') ! j"
  shows "i = j \<and> map str_of (take (Suc i) hs) = map str_of (take (Suc j) hs') \<and>
    model = model' \<and> salt = salt' \<and> grp = grp'"
proof -
  define e e' where "e = make_extra_hash H model salt grp" and "e' = make_extra_hash H model' salt' grp'"
  define sg sg' where "sg = map str_of hs" and "sg' = map str_of hs'"
  have keys: "fst (root_chain H e sg) ! i = fst (root_chain H e' sg') ! j"
    using assms(4) build_prefix_keys_memo [OF cc_ok_cache_after, of H calls hs model salt grp]
      build_prefix_keys_memo [OF cc_ok_cache_after, of H calls' hs' model' salt' grp']
    by (metis e_def e'_def sg_def sg'_def prod.collapse)
  then have parts: "snd (root_chain H e (take i sg)) = snd (root_chain H e' (take j sg'))"
    "sg ! i = sg' ! j" "e = e'"
    using assms(2,3) by (auto simp: nth_root_chain sg_def sg'_def)
  have "extra_payload model salt grp = extra_payload model' salt' grp'"
    by (rule inj_onD [OF assms(1)])
      (use parts(3) in \<open>simp_all add: build_digests_def e_def e'_def make_extra_hash_def\<close>)
  moreover have "inj_on H (set (digested H e (take i sg)) \<union> set (digested H e' (take j sg')))"
    by (rule inj_on_subset [OF assms(1)])
      (use digested_take in \<open>fastforce simp: build_digests_def e_def e'_def sg_def sg'_def\<close>)
  then have "take i sg = take j sg'" using parent_hash_identifies parts(1) by blast
  moreover from this have "i = j" using assms(2,3)
    by (metis length_map length_take min.absorb4 sg_def sg'_def)
  ultimately show ?thesis
    using parts(2) assms(2,3)
    by (simp add: extra_payload_inj take_Suc_conv_app_nth sg_def sg'_def take_map)
qed

theorem prefix_key_sound_witness:
  "fst (build_prefix_keys (\<lambda>s. s) (cache_after (\<lambda>s. s) []) [HStr ''a'', HInt 7] ''m'' None None) ! 1 =
   fst (build_prefix_keys (\<lambda>s. s) (cache_after (\<lambda>s. s) [([HStr ''a''], ''m'', None, None)])
     [HStr ''a'', HStr ''7'', HInt 8] ''m'' None None) ! 1 \<and>
   map str_of (take 2 [HStr ''a'', HInt 7]) = map str_of (take 2 [HStr ''a'', HStr ''7'', HInt 8])"
proof -
  have eq: "fst (build_prefix_keys (\<lambda>s. s) (cache_after (\<lambda>s. s) []) [HStr ''a'', HInt 7] ''m'' None None) ! 1 =
    fst (build_prefix_keys (\<lambda>s. s) (cache_after (\<lambda>s. s) [([HStr ''a''], ''m'', None, None)])
      [HStr ''a'', HStr ''7'', HInt 8] ''m'' None None) ! 1"
    by code_simp
  then have "map str_of (take (Suc 1) [HStr ''a'', HInt 7]) =
      map str_of (take (Suc 1) [HStr ''a'', HStr ''7'', HInt 8])"
    using prefix_key_sound [OF _ _ _ eq] by (simp add: inj_on_def)
  with eq show ?thesis by (simp add: numeral_2_eq_2)
qed

end
