(* ===== verification/Request_Data.thy ===== *)
theory Request_Data
  imports Complex_Main Prefix_Keys Token_Block
begin

text \<open>
  The data of requests and their timing (\<^verbatim>\<open>src/TokenSim/llm/llm_request.py\<close>,
  \<^verbatim>\<open>src/TokenSim/llm/request_time.py\<close>). The record follows the dataclass field by field, in
  four layers (identity, cache accounting, scheduling, timing); fields that only carry workload
  provenance are left out. Token counts are integers; times are exact reals in place of floats.
  The clock of the simulation environment is the argument \<open>now\<close>. A SimPy event is either
  pending or triggered with the value passed to \<^verbatim>\<open>succeed\<close>.
\<close>

section \<open>Timing aggregates\<close>

record request_time =
  rt_id :: int
  rt_steps :: int
  rt_total_time :: real
  rt_first_step_time :: real
  rt_decode_time_sum :: real
  rt_decode_time_max_value :: real
  rt_first_step_service_time :: real
  rt_decode_service_time_sum :: real
  rt_first_step_batch :: real
  rt_decode_batch_sum :: real

definition from_step_lists :: "int \<Rightarrow> real list \<Rightarrow> real list \<Rightarrow> real list \<Rightarrow> request_time" where
  "from_step_lists i time service_time batch =
     \<lparr>rt_id = i, rt_steps = int (length time),
      rt_total_time = foldl (+) 0 time,
      rt_first_step_time = (if time \<noteq> [] then time ! 0 else 0),
      rt_decode_time_sum = foldl (+) 0 (drop 1 time),
      rt_decode_time_max_value =
        (if 1 < length time then foldl max (time ! 1) (drop 2 time) else 0),
      rt_first_step_service_time = (if service_time \<noteq> [] then service_time ! 0 else 0),
      rt_decode_service_time_sum = foldl (+) 0 (drop 1 service_time),
      rt_first_step_batch = (if batch \<noteq> [] then batch ! 0 else 0),
      rt_decode_batch_sum = foldl (+) 0 (drop 1 batch)\<rparr>"

definition decode_time :: "request_time \<Rightarrow> real" where
  "decode_time t = (if rt_steps t \<le> 1 then 0 else rt_decode_time_sum t / real_of_int (rt_steps t - 1))"

definition decode_max_time :: "request_time \<Rightarrow> real" where
  "decode_max_time t = (if rt_steps t \<le> 1 then 0 else rt_decode_time_max_value t)"

definition decode_batch :: "request_time \<Rightarrow> real" where
  "decode_batch t = (if rt_steps t \<le> 1 then 0 else rt_decode_batch_sum t / real_of_int (rt_steps t - 1))"

text \<open>\<^verbatim>\<open>prompt_util\<close> divides by the first step time, which may be zero.\<close>

definition prompt_util :: "request_time \<Rightarrow> real result" where
  "prompt_util t =
     (if rt_first_step_time t = 0 then Raise PyZeroDivisionError
      else Ok (rt_first_step_service_time t / rt_first_step_time t))"

definition decode_util :: "request_time \<Rightarrow> real" where
  "decode_util t =
     (if rt_decode_time_sum t \<le> 0 then 0
      else rt_decode_service_time_sum t / rt_decode_time_sum t)"

definition decode_idle :: "request_time \<Rightarrow> real" where
  "decode_idle t = 1 - decode_util t"

section \<open>The request record\<close>

datatype request_status =
    WAITING
  | RUNNING
  | WAITING_FOR_KV
  | WAITING_FOR_CONNECTOR_FREE
  | FINISHED_STOPPED
  | FINISHED_LENGTH_CAPPED
  | CANCEL_PENDING
  | FINISHED_CANCELLED

datatype 'v sim_event = Pending | Triggered 'v

record prefill_source_stats =
  ps_input_tokens :: int
  ps_gpu_hit_tokens :: int
  ps_cpu_hit_tokens :: int

definition computed_tokens :: "prefill_source_stats \<Rightarrow> int" where
  "computed_tokens s = ps_input_tokens s - ps_gpu_hit_tokens s - ps_cpu_hit_tokens s"

record req_ident =
  rq_id :: int
  prefill_len :: int
  decode_len :: int
  rq_block_size :: int
  hash_ids :: "hash_id list option"
  output_hash_ids :: "hash_id list option"
  cache_salt :: "string option"
  reuse_group :: "string option"
  record_timing :: bool
  max_model_len :: "int option"

record 'k req_cache = req_ident +
  cached_prefill_blocks :: int
  cached_prefill_tokens :: int
  gpu_cached_prefill_tokens :: int
  external_cached_prefill_tokens :: int
  gpu_cached_context_tokens :: int
  external_cached_context_tokens :: int
  first_prefill_source :: "prefill_source_stats option"
  prefill_admission_count :: int
  reloaded_gpu_tokens :: int
  reloaded_cpu_tokens :: int
  reloaded_generated_gpu_tokens :: int
  reloaded_generated_cpu_tokens :: int
  effective_prefill_tokens :: "int option"
  reuse_hit_blocks :: int
  reuse_miss_blocks :: int
  input_cache_committed :: bool
  input_cache_keys :: "'k list"
  physical_token_blocks :: "addr list"
  logical_tokens :: int

record 'k req_sched = "'k req_cache" +
  generation_idx :: int
  needs_recompute :: bool
  recompute_tokens :: int
  recomputation_count :: int
  recomputed_tokens_total :: int
  status :: request_status
  num_computed_tokens :: int
  scheduled_tokens :: int
  scheduled_query_tokens :: int
  scheduled_accepted_tokens :: int
  decode_round :: int
  scheduled_placeholder_tokens :: int
  prefill_chunk_pending :: bool
  cancel_requested :: bool
  owner_worker_ids :: "int set"
  cancel_pending_worker_ids :: "int set"
  prefill_chunks :: int

record 'k request = "'k req_sched" +
  recompute_service_time :: real
  arrival_at :: "real option"
  completed_at :: "real option"
  total_time :: real
  prefill_latency :: real
  decode_time_sum :: real
  decode_time_max :: real
  prefill_service_time :: real
  decode_service_time_sum :: real
  prefill_batch_size :: real
  decode_batch_sum :: real
  cancel_requested_at :: "real option"
  cancelled_at :: "real option"
  last_event_at :: real
  completion_event :: "request_time option sim_event option"
  cancellation_event :: "unit sim_event option"

end
