(* ===== verification/Request.thy ===== *)
theory Request
  imports Request_Data
begin

text \<open>
  The operations of a request (\<^verbatim>\<open>src/TokenSim/llm/llm_request.py\<close>): construction, the derived
  quantities the scheduler reads, admission accounting, one scheduler step, preemption and
  cancellation. The progress bar callback is not modelled.
\<close>

section \<open>Construction and derived quantities\<close>

definition append_tokens :: "int \<Rightarrow> ('k, 'z) req_cache_scheme \<Rightarrow> ('k, 'z) req_cache_scheme" where
  "append_tokens num_tokens r =
     (if 0 < num_tokens then r\<lparr>logical_tokens := logical_tokens r + num_tokens\<rparr> else r)"

text \<open>The dataclass defaults, then \<^verbatim>\<open>__post_init__\<close>.\<close>

definition default_request :: "int \<Rightarrow> int \<Rightarrow> int \<Rightarrow> int \<Rightarrow> 'k request" where
  "default_request i prefill decode sz =
     \<lparr>rq_id = i, prefill_len = prefill, decode_len = decode, rq_block_size = sz,
      hash_ids = None, output_hash_ids = None, cache_salt = None, reuse_group = None,
      record_timing = True, max_model_len = None,
      cached_prefill_blocks = 0, cached_prefill_tokens = 0, gpu_cached_prefill_tokens = 0,
      external_cached_prefill_tokens = 0, gpu_cached_context_tokens = 0,
      external_cached_context_tokens = 0, first_prefill_source = None,
      prefill_admission_count = 0, reloaded_gpu_tokens = 0, reloaded_cpu_tokens = 0,
      reloaded_generated_gpu_tokens = 0, reloaded_generated_cpu_tokens = 0,
      effective_prefill_tokens = None, reuse_hit_blocks = 0, reuse_miss_blocks = 0,
      input_cache_committed = False, input_cache_keys = [], physical_token_blocks = [],
      logical_tokens = 0,
      generation_idx = 0, needs_recompute = False, recompute_tokens = 0,
      recomputation_count = 0, recomputed_tokens_total = 0, status = WAITING,
      num_computed_tokens = 0, scheduled_tokens = 0, scheduled_query_tokens = 0,
      scheduled_accepted_tokens = 0, decode_round = 0, scheduled_placeholder_tokens = 0,
      prefill_chunk_pending = False, cancel_requested = False, owner_worker_ids = {},
      cancel_pending_worker_ids = {}, prefill_chunks = 0,
      recompute_service_time = 0, arrival_at = None, completed_at = None, total_time = 0,
      prefill_latency = 0, decode_time_sum = 0, decode_time_max = 0,
      prefill_service_time = 0, decode_service_time_sum = 0, prefill_batch_size = 0,
      decode_batch_sum = 0, cancel_requested_at = None, cancelled_at = None,
      last_event_at = 0, completion_event = None, cancellation_event = None\<rparr>"

definition post_init :: "'k request \<Rightarrow> 'k request" where
  "post_init r =
     (let r1 = append_tokens (prefill_len r)
            (r\<lparr>physical_token_blocks := [], logical_tokens := 0, last_event_at := 0,
               completion_event := None, cancellation_event := None\<rparr>)
      in r1\<lparr>effective_prefill_tokens :=
              (case effective_prefill_tokens r1 of None \<Rightarrow> Some (prefill_len r1) | Some t \<Rightarrow> Some t)\<rparr>)"

definition prefill_compute_len :: "('k, 'z) req_cache_scheme \<Rightarrow> int" where
  "prefill_compute_len r =
     (case effective_prefill_tokens r of None \<Rightarrow> prefill_len r | Some t \<Rightarrow> t)"

definition is_prefill :: "('k, 'z) req_sched_scheme \<Rightarrow> bool" where
  "is_prefill r \<longleftrightarrow> generation_idx r = 0"

definition context_len :: "('k, 'z) req_sched_scheme \<Rightarrow> int" where
  "context_len r = prefill_len r + generation_idx r"

definition length_capped :: "('k, 'z) req_sched_scheme \<Rightarrow> bool" where
  "length_capped r \<longleftrightarrow> (case max_model_len r of None \<Rightarrow> False | Some l \<Rightarrow> l \<le> context_len r)"

definition is_done :: "('k, 'z) req_sched_scheme \<Rightarrow> bool" where
  "is_done r \<longleftrightarrow>
     \<not> cancel_requested r \<and> (decode_len r \<le> generation_idx r \<or> length_capped r)"

definition remaining_context_tokens :: "('k, 'z) req_sched_scheme \<Rightarrow> int" where
  "remaining_context_tokens r = max 0 (context_len r - num_computed_tokens r)"

definition is_context_build :: "('k, 'z) req_sched_scheme \<Rightarrow> bool" where
  "is_context_build r \<longleftrightarrow> is_prefill r \<or> needs_recompute r"

definition is_prompt_prefilling :: "('k, 'z) req_sched_scheme \<Rightarrow> bool" where
  "is_prompt_prefilling r \<longleftrightarrow> is_context_build r \<and> num_computed_tokens r < prefill_len r"

definition step_tokens :: "('k, 'z) req_sched_scheme \<Rightarrow> int" where
  "step_tokens r =
     (if scheduled_tokens r \<noteq> 0 then scheduled_tokens r
      else max 1 (remaining_context_tokens r))"

definition query_tokens :: "('k, 'z) req_sched_scheme \<Rightarrow> int" where
  "query_tokens r =
     (if scheduled_query_tokens r \<noteq> 0 then scheduled_query_tokens r else step_tokens r)"

definition decode_graph_eligible :: "('k, 'z) req_sched_scheme \<Rightarrow> bool" where
  "decode_graph_eligible r \<longleftrightarrow>
     \<not> is_prompt_prefilling r \<or> step_tokens r = 1 \<and> 0 < num_computed_tokens r"

definition logits_tokens :: "('k, 'z) req_sched_scheme \<Rightarrow> int" where
  "logits_tokens r =
     (if is_context_build r then 1 + scheduled_placeholder_tokens r else query_tokens r)"

definition num_physical_token_blocks :: "('k, 'z) req_cache_scheme \<Rightarrow> int" where
  "num_physical_token_blocks r = int (length (physical_token_blocks r))"

text \<open>\<^verbatim>\<open>-(-tokens // block_size)\<close>, Python's floor division.\<close>

definition num_logical_token_blocks :: "('k, 'z) req_cache_scheme \<Rightarrow> int" where
  "num_logical_token_blocks r = - ((- logical_tokens r) div rq_block_size r)"

definition append_physical_block ::
  "addr \<Rightarrow> ('k, 'z) req_cache_scheme \<Rightarrow> ('k, 'z) req_cache_scheme" where
  "append_physical_block a r = r\<lparr>physical_token_blocks := physical_token_blocks r @ [a]\<rparr>"

section \<open>Admission accounting\<close>

definition start_context_build :: "int \<Rightarrow> ('k, 'z) req_sched_scheme \<Rightarrow> ('k, 'z) req_sched_scheme" where
  "start_context_build cached_tokens r =
     r\<lparr>num_computed_tokens := min (max 0 cached_tokens) (max 0 (context_len r - 1)),
       scheduled_tokens := 0, scheduled_query_tokens := 0, scheduled_placeholder_tokens := 0\<rparr>"

definition record_prefill_admission ::
  "int \<Rightarrow> int \<Rightarrow> ('k, 'z) req_cache_scheme \<Rightarrow> unit result \<times> ('k, 'z) req_cache_scheme" where
  "record_prefill_admission gpu_tokens cpu_tokens r =
     (if min gpu_tokens cpu_tokens < 0 \<or> prefill_len r < gpu_tokens + cpu_tokens then
        (Raise SimulationStateError, r)
      else
        (let r1 = (case first_prefill_source r of
               None \<Rightarrow> r\<lparr>first_prefill_source := Some \<lparr>ps_input_tokens = prefill_len r,
                           ps_gpu_hit_tokens = gpu_tokens, ps_cpu_hit_tokens = cpu_tokens\<rparr>\<rparr>
             | Some _ \<Rightarrow> r\<lparr>reloaded_gpu_tokens := reloaded_gpu_tokens r + gpu_tokens,
                           reloaded_cpu_tokens := reloaded_cpu_tokens r + cpu_tokens\<rparr>)
         in (Ok (), r1\<lparr>prefill_admission_count := prefill_admission_count r1 + 1\<rparr>)))"

definition record_context_admission ::
  "int \<Rightarrow> int \<Rightarrow> ('k, 'z) req_sched_scheme \<Rightarrow> unit result \<times> ('k, 'z) req_sched_scheme" where
  "record_context_admission gpu_tokens cpu_tokens r =
     (if min gpu_tokens cpu_tokens < 0 \<or> context_len r \<le> gpu_tokens + cpu_tokens then
        (Raise SimulationStateError, r)
      else
        (let prompt_gpu = min gpu_tokens (prefill_len r);
             prompt_cpu = min cpu_tokens (max 0 (prefill_len r - prompt_gpu));
             r1 = r\<lparr>gpu_cached_context_tokens := gpu_tokens,
                    external_cached_context_tokens := cpu_tokens,
                    gpu_cached_prefill_tokens := prompt_gpu,
                    external_cached_prefill_tokens := prompt_cpu,
                    cached_prefill_tokens := prompt_gpu + prompt_cpu,
                    cached_prefill_blocks := (prompt_gpu + prompt_cpu) div rq_block_size r,
                    effective_prefill_tokens := Some (prefill_len r - (prompt_gpu + prompt_cpu)),
                    reloaded_generated_gpu_tokens :=
                      reloaded_generated_gpu_tokens r + (gpu_tokens - prompt_gpu),
                    reloaded_generated_cpu_tokens :=
                      reloaded_generated_cpu_tokens r + (cpu_tokens - prompt_cpu)\<rparr>
         in record_prefill_admission prompt_gpu prompt_cpu r1))"

text \<open>The fields of \<^verbatim>\<open>_ADMISSION_FIELDS\<close>, in their order.\<close>

record 'k admission_snapshot =
  as_status :: request_status
  as_num_computed_tokens :: int
  as_scheduled_tokens :: int
  as_scheduled_query_tokens :: int
  as_scheduled_placeholder_tokens :: int
  as_recompute_tokens :: int
  as_cached_prefill_blocks :: int
  as_cached_prefill_tokens :: int
  as_gpu_cached_prefill_tokens :: int
  as_external_cached_prefill_tokens :: int
  as_gpu_cached_context_tokens :: int
  as_external_cached_context_tokens :: int
  as_effective_prefill_tokens :: "int option"
  as_reuse_hit_blocks :: int
  as_reuse_miss_blocks :: int
  as_input_cache_keys :: "'k list"
  as_input_cache_committed :: bool
  as_first_prefill_source :: "prefill_source_stats option"
  as_prefill_admission_count :: int
  as_reloaded_gpu_tokens :: int
  as_reloaded_cpu_tokens :: int
  as_reloaded_generated_gpu_tokens :: int
  as_reloaded_generated_cpu_tokens :: int

definition admission_state :: "'k request \<Rightarrow> 'k admission_snapshot" where
  "admission_state r =
     \<lparr>as_status = status r, as_num_computed_tokens = num_computed_tokens r,
      as_scheduled_tokens = scheduled_tokens r,
      as_scheduled_query_tokens = scheduled_query_tokens r,
      as_scheduled_placeholder_tokens = scheduled_placeholder_tokens r,
      as_recompute_tokens = recompute_tokens r,
      as_cached_prefill_blocks = cached_prefill_blocks r,
      as_cached_prefill_tokens = cached_prefill_tokens r,
      as_gpu_cached_prefill_tokens = gpu_cached_prefill_tokens r,
      as_external_cached_prefill_tokens = external_cached_prefill_tokens r,
      as_gpu_cached_context_tokens = gpu_cached_context_tokens r,
      as_external_cached_context_tokens = external_cached_context_tokens r,
      as_effective_prefill_tokens = effective_prefill_tokens r,
      as_reuse_hit_blocks = reuse_hit_blocks r, as_reuse_miss_blocks = reuse_miss_blocks r,
      as_input_cache_keys = input_cache_keys r,
      as_input_cache_committed = input_cache_committed r,
      as_first_prefill_source = first_prefill_source r,
      as_prefill_admission_count = prefill_admission_count r,
      as_reloaded_gpu_tokens = reloaded_gpu_tokens r,
      as_reloaded_cpu_tokens = reloaded_cpu_tokens r,
      as_reloaded_generated_gpu_tokens = reloaded_generated_gpu_tokens r,
      as_reloaded_generated_cpu_tokens = reloaded_generated_cpu_tokens r\<rparr>"

definition restore_admission_state :: "'k admission_snapshot \<Rightarrow> 'k request \<Rightarrow> 'k request" where
  "restore_admission_state s r =
     r\<lparr>status := as_status s, num_computed_tokens := as_num_computed_tokens s,
       scheduled_tokens := as_scheduled_tokens s,
       scheduled_query_tokens := as_scheduled_query_tokens s,
       scheduled_placeholder_tokens := as_scheduled_placeholder_tokens s,
       recompute_tokens := as_recompute_tokens s,
       cached_prefill_blocks := as_cached_prefill_blocks s,
       cached_prefill_tokens := as_cached_prefill_tokens s,
       gpu_cached_prefill_tokens := as_gpu_cached_prefill_tokens s,
       external_cached_prefill_tokens := as_external_cached_prefill_tokens s,
       gpu_cached_context_tokens := as_gpu_cached_context_tokens s,
       external_cached_context_tokens := as_external_cached_context_tokens s,
       effective_prefill_tokens := as_effective_prefill_tokens s,
       reuse_hit_blocks := as_reuse_hit_blocks s, reuse_miss_blocks := as_reuse_miss_blocks s,
       input_cache_keys := as_input_cache_keys s,
       input_cache_committed := as_input_cache_committed s,
       first_prefill_source := as_first_prefill_source s,
       prefill_admission_count := as_prefill_admission_count s,
       reloaded_gpu_tokens := as_reloaded_gpu_tokens s,
       reloaded_cpu_tokens := as_reloaded_cpu_tokens s,
       reloaded_generated_gpu_tokens := as_reloaded_generated_gpu_tokens s,
       reloaded_generated_cpu_tokens := as_reloaded_generated_cpu_tokens s\<rparr>"

section \<open>Steps\<close>

text \<open>\<^verbatim>\<open>arrive\<close>; the flag says whether the environment has an event factory.\<close>

definition arrive :: "real \<Rightarrow> bool \<Rightarrow> 'k request \<Rightarrow> 'k request" where
  "arrive now has_factory r =
     (if cancel_requested r then r
      else r\<lparr>arrival_at := Some now, last_event_at := now,
             completion_event := (if has_factory then Some Pending else None)\<rparr>)"

definition prepare_recompute :: "('k, 'z) req_sched_scheme \<Rightarrow> ('k, 'z) req_sched_scheme" where
  "prepare_recompute r =
     r\<lparr>needs_recompute := True, recompute_tokens := context_len r, num_computed_tokens := 0,
       scheduled_tokens := 0, scheduled_query_tokens := 0, scheduled_placeholder_tokens := 0\<rparr>"

definition finish_recompute :: "real \<Rightarrow> 'k request \<Rightarrow> 'k request" where
  "finish_recompute latency r =
     r\<lparr>needs_recompute := False, recomputation_count := recomputation_count r + 1,
       recomputed_tokens_total := recomputed_tokens_total r + recompute_tokens r,
       recompute_service_time := recompute_service_time r + latency, recompute_tokens := 0\<rparr>"

definition complete_timing :: "'k request \<Rightarrow> request_time" where
  "complete_timing r =
     \<lparr>rt_id = rq_id r, rt_steps = generation_idx r, rt_total_time = total_time r,
      rt_first_step_time = prefill_latency r, rt_decode_time_sum = decode_time_sum r,
      rt_decode_time_max_value = decode_time_max r,
      rt_first_step_service_time = prefill_service_time r,
      rt_decode_service_time_sum = decode_service_time_sum r,
      rt_first_step_batch = prefill_batch_size r, rt_decode_batch_sum = decode_batch_sum r\<rparr>"

text \<open>\<^verbatim>\<open>event.succeed(v)\<close> under the guard \<^verbatim>\<open>event is not None and not event.triggered\<close>.\<close>

definition succeed_pending :: "'v \<Rightarrow> 'v sim_event option \<Rightarrow> 'v sim_event option" where
  "succeed_pending v e = (case e of Some Pending \<Rightarrow> Some (Triggered v) | _ \<Rightarrow> e)"

text \<open>
  \<^verbatim>\<open>step\<close>: the bookkeeping of a sampled token. The result is the returned timing, the timing
  handed to the recorder (if there is one), and the request.
\<close>

definition step_output :: "int \<Rightarrow> ('k, 'z) req_sched_scheme \<Rightarrow> int" where
  "step_output output_tokens r =
     (let out = max 1 (min output_tokens (decode_len r - generation_idx r))
      in case max_model_len r of None \<Rightarrow> out
         | Some l \<Rightarrow> min out (max 0 (l - context_len r)))"

definition step_timing :: "real \<Rightarrow> real \<Rightarrow> int \<Rightarrow> 'k request \<Rightarrow> 'k request" where
  "step_timing now latency batch r =
     (let step_time = now - last_event_at r;
          r1 = r\<lparr>last_event_at := now, total_time := total_time r + step_time\<rparr>
      in if generation_idx r = 1 then
           r1\<lparr>prefill_latency := step_time,
              prefill_service_time := prefill_service_time r1 + latency,
              prefill_batch_size := real_of_int batch\<rparr>
         else
           r1\<lparr>decode_time_sum := decode_time_sum r1 + step_time,
              decode_time_max :=
                (if decode_time_max r1 < step_time then step_time else decode_time_max r1),
              decode_service_time_sum := decode_service_time_sum r1 + latency,
              decode_batch_sum := decode_batch_sum r1 + real_of_int batch\<rparr>)"

definition step_done ::
  "real \<Rightarrow> bool \<Rightarrow> 'k request \<Rightarrow> request_time option \<times> request_time option \<times> 'k request" where
  "step_done now recorder r =
     (if is_done r then
        (let r1 = (if length_capped r then r\<lparr>status := FINISHED_LENGTH_CAPPED\<rparr> else r);
             r2 = r1\<lparr>completed_at := Some now\<rparr>;
             t = complete_timing r2
         in (Some t, if record_timing r2 \<and> recorder then Some t else None,
             r2\<lparr>completion_event := succeed_pending (Some t) (completion_event r2)\<rparr>))
      else (None, None, r))"

definition req_step ::
  "real \<Rightarrow> real \<Rightarrow> int \<Rightarrow> bool \<Rightarrow> int \<Rightarrow> 'k request
   \<Rightarrow> request_time option \<times> request_time option \<times> 'k request" where
  "req_step now latency batch recorder output_tokens r =
     (if cancel_requested r then (None, None, r)
      else
        (let out = step_output output_tokens r;
             r1 = append_tokens out (r\<lparr>generation_idx := generation_idx r + out\<rparr>)
         in step_done now recorder (step_timing now latency batch r1)))"

definition advance ::
  "real \<Rightarrow> real \<Rightarrow> int \<Rightarrow> bool \<Rightarrow> 'k request
   \<Rightarrow> request_time option \<times> request_time option \<times> 'k request" where
  "advance now latency batch recorder r =
     (if cancel_requested r then (None, None, r)
      else
        (let context_build = is_prefill r \<or> needs_recompute r;
             r1 = (if context_build then r else r\<lparr>decode_round := decode_round r + 1\<rparr>);
             tokens = step_tokens r1;
             r2 = r1\<lparr>scheduled_tokens := 0, scheduled_query_tokens := 0,
                     scheduled_placeholder_tokens := 0,
                     num_computed_tokens := num_computed_tokens r1 + tokens\<rparr>;
             r3 = (if is_prefill r2 then r2\<lparr>prefill_chunks := prefill_chunks r2 + 1\<rparr> else r2)
         in if num_computed_tokens r3 < context_len r3 then
              (None, None,
               if needs_recompute r3 then
                 r3\<lparr>recompute_service_time := recompute_service_time r3 + latency\<rparr>
               else r3\<lparr>prefill_service_time := prefill_service_time r3 + latency\<rparr>)
            else
              (let out = (if context_build then 1 else tokens)
               in if needs_recompute r3 then
                    req_step now 0 batch recorder out (finish_recompute latency r3)
                  else req_step now latency batch recorder out r3)))"

definition release_logical_blocks :: "('k, 'z) req_cache_scheme \<Rightarrow> ('k, 'z) req_cache_scheme" where
  "release_logical_blocks r = r\<lparr>logical_tokens := 0, input_cache_keys := []\<rparr>"

section \<open>Cancellation\<close>

definition request_cancel :: "real \<Rightarrow> 'k request \<Rightarrow> 'k request" where
  "request_cancel now r =
     (let r1 = (case cancellation_event r of
            None \<Rightarrow> r\<lparr>cancellation_event := Some Pending\<rparr> | Some _ \<Rightarrow> r)
      in if is_done r1 then
           r1\<lparr>cancellation_event := succeed_pending () (cancellation_event r1)\<rparr>
         else if \<not> cancel_requested r1 then
           r1\<lparr>cancel_requested := True, cancel_requested_at := Some now,
              status := CANCEL_PENDING, cancel_pending_worker_ids := owner_worker_ids r1\<rparr>
         else r1)"

definition acknowledge_cancel :: "real \<Rightarrow> int option \<Rightarrow> 'k request \<Rightarrow> 'k request" where
  "acknowledge_cancel now worker_id r =
     (if \<not> cancel_requested r then r
      else
        (let r1 = (case worker_id of None \<Rightarrow> r
             | Some w \<Rightarrow> r\<lparr>cancel_pending_worker_ids := cancel_pending_worker_ids r - {w}\<rparr>)
         in if cancel_pending_worker_ids r1 \<noteq> {} \<or> cancelled_at r1 \<noteq> None then r1
            else r1\<lparr>cancelled_at := Some now, status := FINISHED_CANCELLED,
                    completion_event := succeed_pending None (completion_event r1),
                    cancellation_event := succeed_pending () (cancellation_event r1)\<rparr>))"

end
