(* ===== verification/Request_Progress.thy ===== *)
theory Request_Progress
  imports Request
begin

text \<open>
  What a request does over its life: every scheduler step makes progress and keeps the
  bookkeeping consistent, a request finishes within a bounded number of steps whatever chunk
  sizes it is given, the online timing aggregates are those of the per-step lists, admission
  accounting adds up and can be undone, and cancellation waits for every owner.
\<close>

section \<open>Progress\<close>

text \<open>
  A request between steps. While its context is built, some context is still to compute; while
  it decodes, everything but the newest token is. The logical blocks hold the whole context.
\<close>

definition req_inv :: "('k, 'z) req_sched_scheme \<Rightarrow> bool" where
  "req_inv r \<longleftrightarrow>
     0 < rq_block_size r \<and> 1 \<le> prefill_len r \<and> 0 \<le> generation_idx r \<and>
     logical_tokens r = context_len r \<and>
     (case max_model_len r of None \<Rightarrow> True | Some l \<Rightarrow> context_len r \<le> l) \<and>
     (if is_context_build r then 0 \<le> num_computed_tokens r \<and> num_computed_tokens r < context_len r
      else num_computed_tokens r = context_len r - 1)"

text \<open>The most tokens a step may give the request.\<close>

definition step_limit :: "('k, 'z) req_sched_scheme \<Rightarrow> int" where
  "step_limit r =
     (if is_context_build r then remaining_context_tokens r
      else case max_model_len r of None \<Rightarrow> decode_len r - generation_idx r
           | Some l \<Rightarrow> min (decode_len r - generation_idx r) (l - context_len r))"

definition sched_ok :: "('k, 'z) req_sched_scheme \<Rightarrow> bool" where
  "sched_ok r \<longleftrightarrow> 0 \<le> scheduled_tokens r \<and> scheduled_tokens r \<le> step_limit r"

abbreviation advanced :: "real \<Rightarrow> real \<Rightarrow> int \<Rightarrow> bool \<Rightarrow> 'k request \<Rightarrow> 'k request" where
  "advanced now latency batch rec r \<equiv> snd (snd (advance now latency batch rec r))"

lemma step_timing_sel [simp]:
  "generation_idx (step_timing now lat b r) = generation_idx r"
  "num_computed_tokens (step_timing now lat b r) = num_computed_tokens r"
  "logical_tokens (step_timing now lat b r) = logical_tokens r"
  "prefill_len (step_timing now lat b r) = prefill_len r"
  "decode_len (step_timing now lat b r) = decode_len r"
  "rq_block_size (step_timing now lat b r) = rq_block_size r"
  "max_model_len (step_timing now lat b r) = max_model_len r"
  "needs_recompute (step_timing now lat b r) = needs_recompute r"
  "cancel_requested (step_timing now lat b r) = cancel_requested r"
  "scheduled_tokens (step_timing now lat b r) = scheduled_tokens r"
  "rq_id (step_timing now lat b r) = rq_id r"
  "arrival_at (step_timing now lat b r) = arrival_at r"
  "completion_event (step_timing now lat b r) = completion_event r"
  "last_event_at (step_timing now lat b r) = now"
  "total_time (step_timing now lat b r) = total_time r + (now - last_event_at r)"
  by (simp_all add: step_timing_def Let_def)

lemma step_done_sel [simp]:
  "generation_idx (snd (snd (step_done now rec r))) = generation_idx r"
  "num_computed_tokens (snd (snd (step_done now rec r))) = num_computed_tokens r"
  "logical_tokens (snd (snd (step_done now rec r))) = logical_tokens r"
  "prefill_len (snd (snd (step_done now rec r))) = prefill_len r"
  "decode_len (snd (snd (step_done now rec r))) = decode_len r"
  "rq_block_size (snd (snd (step_done now rec r))) = rq_block_size r"
  "max_model_len (snd (snd (step_done now rec r))) = max_model_len r"
  "needs_recompute (snd (snd (step_done now rec r))) = needs_recompute r"
  "cancel_requested (snd (snd (step_done now rec r))) = cancel_requested r"
  "scheduled_tokens (snd (snd (step_done now rec r))) = scheduled_tokens r"
  "rq_id (snd (snd (step_done now rec r))) = rq_id r"
  "arrival_at (snd (snd (step_done now rec r))) = arrival_at r"
  "last_event_at (snd (snd (step_done now rec r))) = last_event_at r"
  "total_time (snd (snd (step_done now rec r))) = total_time r"
  "prefill_latency (snd (snd (step_done now rec r))) = prefill_latency r"
  "decode_time_sum (snd (snd (step_done now rec r))) = decode_time_sum r"
  "complete_timing (snd (snd (step_done now rec r))) = complete_timing r"
  by (simp_all add: step_done_def Let_def complete_timing_def)

lemma append_tokens_sel [simp]:
  "logical_tokens (append_tokens n r) = logical_tokens r + max 0 n"
  "generation_idx (append_tokens n r') = generation_idx r'"
  "num_computed_tokens (append_tokens n r') = num_computed_tokens r'"
  "prefill_len (append_tokens n r) = prefill_len r"
  "decode_len (append_tokens n r) = decode_len r"
  "rq_block_size (append_tokens n r) = rq_block_size r"
  "max_model_len (append_tokens n r) = max_model_len r"
  "needs_recompute (append_tokens n r') = needs_recompute r'"
  "cancel_requested (append_tokens n r') = cancel_requested r'"
  "scheduled_tokens (append_tokens n r') = scheduled_tokens r'"
  "rq_id (append_tokens n r) = rq_id r"
  "last_event_at (append_tokens n r'') = last_event_at r''"
  "total_time (append_tokens n r'') = total_time r''"
  "prefill_latency (append_tokens n r'') = prefill_latency r''"
  "decode_time_sum (append_tokens n r'') = decode_time_sum r''"
  "arrival_at (append_tokens n r'') = arrival_at r''"
  by (simp_all add: append_tokens_def)

lemma is_done_cong:
  assumes "generation_idx r = generation_idx r'" "decode_len r = decode_len r'"
    "prefill_len r = prefill_len r'" "max_model_len r = max_model_len r'"
    "cancel_requested r = cancel_requested r'"
  shows "is_done r = is_done r'"
  using assms by (simp add: is_done_def length_capped_def context_len_def split: option.split)

lemma is_done_step_done [simp]: "is_done (snd (snd (step_done now rec r))) = is_done r"
  by (rule is_done_cong) simp_all

lemma step_done_result:
  "fst (step_done now rec r) = (if is_done r then Some (complete_timing r) else None)"
  by (simp add: step_done_def Let_def complete_timing_def)

text \<open>What a sampling step does to the fields of \<^const>\<open>req_inv\<close>.\<close>

lemma req_step_sel:
  assumes "\<not> cancel_requested r" and r': "r' = snd (snd (req_step now lat b rec out r))"
  shows "generation_idx r' = generation_idx r + step_output out r"
    and "num_computed_tokens r' = num_computed_tokens r"
    and "logical_tokens r' = logical_tokens r + max 0 (step_output out r)"
    and "prefill_len r' = prefill_len r" and "decode_len r' = decode_len r"
    and "rq_block_size r' = rq_block_size r" and "max_model_len r' = max_model_len r"
    and "needs_recompute r' = needs_recompute r" and "cancel_requested r' = cancel_requested r"
    and "scheduled_tokens r' = scheduled_tokens r" and "rq_id r' = rq_id r"
    and "arrival_at r' = arrival_at r"
    and "fst (req_step now lat b rec out r) = (if is_done r' then Some (complete_timing r') else None)"
  using assms(1) by (simp_all add: r' req_step_def Let_def step_done_result)

text \<open>A step that samples: from a request whose context is complete.\<close>

lemma advance_cases:
  assumes "\<not> cancel_requested r" and tokens: "tokens = step_tokens r"
  obtains (partial) r1 where "num_computed_tokens r + tokens < context_len r"
      and "advance now lat b rec r = (None, None, r1)"
      and "num_computed_tokens r1 = num_computed_tokens r + tokens"
      and "generation_idx r1 = generation_idx r" and "logical_tokens r1 = logical_tokens r"
      and "prefill_len r1 = prefill_len r" and "decode_len r1 = decode_len r"
      and "rq_block_size r1 = rq_block_size r" and "max_model_len r1 = max_model_len r"
      and "needs_recompute r1 = needs_recompute r" and "cancel_requested r1 = cancel_requested r"
      and "scheduled_tokens r1 = 0" and "rq_id r1 = rq_id r"
      and "arrival_at r1 = arrival_at r" and "last_event_at r1 = last_event_at r"
      and "total_time r1 = total_time r" and "prefill_latency r1 = prefill_latency r"
      and "decode_time_sum r1 = decode_time_sum r"
    | (full) r1 lat' where "context_len r \<le> num_computed_tokens r + tokens"
      and "advance now lat b rec r =
        req_step now lat' b rec (if is_context_build r then 1 else tokens) r1"
      and "num_computed_tokens r1 = num_computed_tokens r + tokens"
      and "generation_idx r1 = generation_idx r" and "logical_tokens r1 = logical_tokens r"
      and "prefill_len r1 = prefill_len r" and "decode_len r1 = decode_len r"
      and "rq_block_size r1 = rq_block_size r" and "max_model_len r1 = max_model_len r"
      and "\<not> needs_recompute r1" and "cancel_requested r1 = cancel_requested r"
      and "scheduled_tokens r1 = 0" and "rq_id r1 = rq_id r"
      and "arrival_at r1 = arrival_at r" and "last_event_at r1 = last_event_at r"
      and "total_time r1 = total_time r" and "prefill_latency r1 = prefill_latency r"
      and "decode_time_sum r1 = decode_time_sum r"
proof -
  define ra where "ra = (if is_context_build r then r else r\<lparr>decode_round := decode_round r + 1\<rparr>)"
  have st: "step_tokens ra = tokens"
    by (simp add: ra_def tokens step_tokens_def remaining_context_tokens_def context_len_def)
  define rb where "rb = ra\<lparr>scheduled_tokens := 0, scheduled_query_tokens := 0,
    scheduled_placeholder_tokens := 0, num_computed_tokens := num_computed_tokens ra + tokens\<rparr>"
  define rc where "rc = (if is_prefill rb then rb\<lparr>prefill_chunks := prefill_chunks rb + 1\<rparr> else rb)"
  have sel: "num_computed_tokens rc = num_computed_tokens r + tokens"
    "generation_idx rc = generation_idx r" "logical_tokens rc = logical_tokens r"
    "prefill_len rc = prefill_len r" "decode_len rc = decode_len r"
    "rq_block_size rc = rq_block_size r" "max_model_len rc = max_model_len r"
    "needs_recompute rc = needs_recompute r" "cancel_requested rc = cancel_requested r"
    "scheduled_tokens rc = 0" "rq_id rc = rq_id r"
    "arrival_at rc = arrival_at r" "last_event_at rc = last_event_at r"
    "total_time rc = total_time r" "prefill_latency rc = prefill_latency r"
    "decode_time_sum rc = decode_time_sum r"
    by (simp_all add: rc_def rb_def ra_def)
  have ctx: "context_len rc = context_len r" by (simp add: context_len_def sel)
  have adv: "advance now lat b rec r =
    (if num_computed_tokens rc < context_len rc then
       (None, None, if needs_recompute rc then
          rc\<lparr>recompute_service_time := recompute_service_time rc + lat\<rparr>
        else rc\<lparr>prefill_service_time := prefill_service_time rc + lat\<rparr>)
     else if needs_recompute rc then
       req_step now 0 b rec (if is_context_build r then 1 else tokens) (finish_recompute lat rc)
     else req_step now lat b rec (if is_context_build r then 1 else tokens) rc)"
    unfolding advance_def Let_def is_context_build_def [symmetric] ra_def [symmetric] st
      rb_def [symmetric] rc_def [symmetric]
    using assms(1) by simp
  show thesis
  proof (cases "num_computed_tokens rc < context_len rc")
    case True
    show thesis
      by (rule partial [of "if needs_recompute rc
            then rc\<lparr>recompute_service_time := recompute_service_time rc + lat\<rparr>
            else rc\<lparr>prefill_service_time := prefill_service_time rc + lat\<rparr>"])
        (use True adv sel ctx in simp_all)
  next
    case False
    show thesis
    proof (cases "needs_recompute rc")
      case True
      show thesis
        by (rule full [of 0 "finish_recompute lat rc"])
          (use True False adv sel ctx in \<open>simp_all add: finish_recompute_def\<close>)
    next
      case nr: False
      show thesis by (rule full [of lat rc]) (use nr False adv sel ctx in simp_all)
    qed
  qed
qed

lemma not_done_limit:
  assumes "\<not> is_done r" "\<not> cancel_requested r"
  shows "1 \<le> decode_len r - generation_idx r"
    and "max_model_len r = Some l \<Longrightarrow> 1 \<le> l - context_len r"
  using assms by (auto simp: is_done_def length_capped_def)

lemma step_tokens_bounds:
  assumes "req_inv r" "sched_ok r" "\<not> is_done r" "\<not> cancel_requested r"
  shows "1 \<le> step_tokens r" and "step_tokens r \<le> step_limit r"
proof -
  have "1 \<le> step_limit r"
    using assms not_done_limit [OF assms(3,4)]
    by (auto simp: step_limit_def req_inv_def remaining_context_tokens_def split: option.splits)
  then show "1 \<le> step_tokens r" "step_tokens r \<le> step_limit r"
    using assms(1,2)
    by (auto simp: step_tokens_def sched_ok_def step_limit_def req_inv_def
        remaining_context_tokens_def split: if_splits option.splits)
qed

lemma step_output_exact:
  assumes "1 \<le> out" and "out \<le> decode_len r - generation_idx r"
    and "\<And>l. max_model_len r = Some l \<Longrightarrow> out \<le> l - context_len r"
  shows "step_output out r = out"
  using assms by (auto simp: step_output_def Let_def split: option.splits)

text \<open>How far a request still is from its last token, in steps.\<close>

definition steps_left :: "('k, 'z) req_sched_scheme \<Rightarrow> int" where
  "steps_left r =
     (decode_len r - generation_idx r) +
     (if is_context_build r then context_len r - num_computed_tokens r - 1 else 0)"

lemma req_inv_partial:
  assumes inv: "req_inv r" and tok: "1 \<le> step_tokens r"
    and lt: "num_computed_tokens r + step_tokens r < context_len r"
    and r1: "num_computed_tokens r1 = num_computed_tokens r + step_tokens r"
      "generation_idx r1 = generation_idx r" "logical_tokens r1 = logical_tokens r"
      "prefill_len r1 = prefill_len r" "decode_len r1 = decode_len r"
      "rq_block_size r1 = rq_block_size r" "max_model_len r1 = max_model_len r"
      "needs_recompute r1 = needs_recompute r"
  shows "req_inv r1 \<and> is_context_build r \<and> is_context_build r1 \<and> steps_left r1 < steps_left r"
proof -
  have cb: "is_context_build r"
    using inv tok lt by (auto simp: req_inv_def split: if_splits)
  then show ?thesis
    using inv tok lt r1
    by (auto simp: req_inv_def is_context_build_def is_prefill_def context_len_def steps_left_def
        split: option.splits)
qed

lemma req_inv_full:
  assumes inv: "req_inv r" and ok: "sched_ok r" and nd: "\<not> is_done r" and nc: "\<not> cancel_requested r"
    and ge: "context_len r \<le> num_computed_tokens r + step_tokens r"
    and gen: "generation_idx r' = generation_idx r + (if is_context_build r then 1 else step_tokens r)"
      "logical_tokens r' = logical_tokens r + (if is_context_build r then 1 else step_tokens r)"
    and r': "num_computed_tokens r' = num_computed_tokens r + step_tokens r"
      "prefill_len r' = prefill_len r" "decode_len r' = decode_len r"
      "rq_block_size r' = rq_block_size r" "max_model_len r' = max_model_len r" "\<not> needs_recompute r'"
  shows "req_inv r' \<and> \<not> is_context_build r' \<and> steps_left r' < steps_left r \<and>
    generation_idx r' \<le> decode_len r'"
proof -
  note bounds = step_tokens_bounds [OF inv ok nd nc]
  have "num_computed_tokens r + step_tokens r = context_len r" if "is_context_build r"
    using that bounds ge by (simp add: step_limit_def remaining_context_tokens_def max_def split: if_splits)
  with inv bounds not_done_limit [OF nd nc] gen r' ge show ?thesis
    by (auto simp: req_inv_def is_context_build_def is_prefill_def context_len_def steps_left_def
        step_limit_def split: option.splits if_splits)
qed

lemma advance_step:
  assumes inv: "req_inv r" and ok: "sched_ok r" and nd: "\<not> is_done r" and nc: "\<not> cancel_requested r"
    and adv: "advance now lat b rec r = (res, recorded, r')"
  shows "req_inv r'" and "\<not> cancel_requested r'" and "scheduled_tokens r' = 0"
    and "steps_left r' < steps_left r"
    and "decode_len r' = decode_len r" and "prefill_len r' = prefill_len r"
    and "generation_idx r' = (if num_computed_tokens r + step_tokens r < context_len r
        then generation_idx r
        else generation_idx r + (if is_context_build r then 1 else step_tokens r))"
    and "generation_idx r' \<le> decode_len r'"
    and "is_done r' \<longleftrightarrow> res \<noteq> None" and "max_model_len r' = max_model_len r"
proof -
  note bounds = step_tokens_bounds [OF inv ok nd nc] and lim = not_done_limit [OF nd nc]
  have "req_inv r' \<and> \<not> cancel_requested r' \<and> scheduled_tokens r' = 0 \<and>
    steps_left r' < steps_left r \<and> decode_len r' = decode_len r \<and> prefill_len r' = prefill_len r \<and>
    generation_idx r' = (if num_computed_tokens r + step_tokens r < context_len r
        then generation_idx r
        else generation_idx r + (if is_context_build r then 1 else step_tokens r)) \<and>
    generation_idx r' \<le> decode_len r' \<and> (is_done r' \<longleftrightarrow> res \<noteq> None) \<and>
    max_model_len r' = max_model_len r"
  proof (rule advance_cases [OF nc refl, of now lat b rec])
    fix r1 assume p: "num_computed_tokens r + step_tokens r < context_len r"
      "advance now lat b rec r = (None, None, r1)"
      "num_computed_tokens r1 = num_computed_tokens r + step_tokens r"
      "generation_idx r1 = generation_idx r" "logical_tokens r1 = logical_tokens r"
      "prefill_len r1 = prefill_len r" "decode_len r1 = decode_len r"
      "rq_block_size r1 = rq_block_size r" "max_model_len r1 = max_model_len r"
      "needs_recompute r1 = needs_recompute r" "cancel_requested r1 = cancel_requested r"
      "scheduled_tokens r1 = 0"
    have "is_done r1 = is_done r" by (rule is_done_cong) (simp_all add: p)
    with req_inv_partial [OF inv bounds(1) p(1,3-10)] p(2) adv p nc nd lim show ?thesis by auto
  next
    fix r1 lat' assume f: "context_len r \<le> num_computed_tokens r + step_tokens r"
      "advance now lat b rec r = req_step now lat' b rec (if is_context_build r then 1 else step_tokens r) r1"
      "num_computed_tokens r1 = num_computed_tokens r + step_tokens r"
      "generation_idx r1 = generation_idx r" "logical_tokens r1 = logical_tokens r"
      "prefill_len r1 = prefill_len r" "decode_len r1 = decode_len r"
      "rq_block_size r1 = rq_block_size r" "max_model_len r1 = max_model_len r"
      "\<not> needs_recompute r1" "cancel_requested r1 = cancel_requested r" "scheduled_tokens r1 = 0"
    define out where "out = (if is_context_build r then 1 else step_tokens r)"
    have "context_len r1 = context_len r" by (simp add: context_len_def f)
    then have out: "step_output out r1 = out"
      using bounds lim
      by (intro step_output_exact) (auto simp: out_def f step_limit_def split: if_splits option.splits)
    have r': "r' = snd (snd (req_step now lat' b rec out r1))" "res = fst (req_step now lat' b rec out r1)"
      using adv f(2) by (simp_all add: out_def)
    have nc1: "\<not> cancel_requested r1" using nc f by simp
    note sel = req_step_sel [OF nc1 r'(1)]
    have "1 \<le> out" using bounds by (simp add: out_def)
    then have "generation_idx r' = generation_idx r + out" "logical_tokens r' = logical_tokens r + out"
      using sel out f by simp_all
    with req_inv_full [OF inv ok nd nc f(1), of r'] sel f out r' nc show ?thesis
      by (auto simp: out_def)
  qed
  then show "req_inv r'" "\<not> cancel_requested r'" "scheduled_tokens r' = 0"
    "steps_left r' < steps_left r" "decode_len r' = decode_len r" "prefill_len r' = prefill_len r"
    "generation_idx r' = (if num_computed_tokens r + step_tokens r < context_len r
        then generation_idx r
        else generation_idx r + (if is_context_build r then 1 else step_tokens r))"
    "generation_idx r' \<le> decode_len r'" "is_done r' \<longleftrightarrow> res \<noteq> None"
    "max_model_len r' = max_model_len r"
    by blast+
qed

lemma advance_computed:
  assumes "\<not> cancel_requested r" "advance now lat b rec r = (res, recorded, r')"
  shows "num_computed_tokens r' = num_computed_tokens r + step_tokens r"
proof (rule advance_cases [OF assms(1) refl, of now lat b rec])
  fix r1 assume "advance now lat b rec r = (None, None, r1)" "num_computed_tokens r1 = num_computed_tokens r + step_tokens r"
  then show ?thesis using assms(2) by simp
next
  fix r1 lat' assume f: "advance now lat b rec r = req_step now lat' b rec (if is_context_build r then 1 else step_tokens r) r1"
    "num_computed_tokens r1 = num_computed_tokens r + step_tokens r" "cancel_requested r1 = cancel_requested r"
  have "r' = snd (snd (req_step now lat' b rec (if is_context_build r then 1 else step_tokens r) r1))"
    using assms(2) f(1) by simp
  from req_step_sel(2) [OF _ this] show ?thesis using f assms(1) by simp
qed

text \<open>
  A life of a request without preemption: in each step the scheduler offers some number of tokens,
  of which the request takes what its step limit allows.
\<close>

fun run_steps :: "(real \<times> real \<times> int \<times> int) list \<Rightarrow> 'k request \<Rightarrow> 'k request" where
  "run_steps [] r = r"
| "run_steps ((now, lat, b, k) # xs) r =
     (if is_done r then r
      else run_steps xs (advanced now lat b True (r\<lparr>scheduled_tokens := min k (step_limit r)\<rparr>)))"

lemma req_inv_assign [simp]: "req_inv (r\<lparr>scheduled_tokens := k\<rparr>) = req_inv r"
  by (simp add: req_inv_def is_context_build_def is_prefill_def context_len_def split: option.split)

lemma step_limit_assign [simp]: "step_limit (r\<lparr>scheduled_tokens := k\<rparr>) = step_limit r"
  by (simp add: step_limit_def is_context_build_def is_prefill_def remaining_context_tokens_def
      context_len_def split: option.split)

lemma is_done_assign [simp]: "is_done (r\<lparr>scheduled_tokens := k\<rparr>) = is_done r"
  by (rule is_done_cong) simp_all

lemma steps_left_assign [simp]: "steps_left (r\<lparr>scheduled_tokens := k\<rparr>) = steps_left r"
  by (simp add: steps_left_def is_context_build_def is_prefill_def context_len_def)

lemma sched_ok_assign:
  assumes "req_inv r" "\<not> is_done r" "\<not> cancel_requested r" "1 \<le> k"
  shows "sched_ok (r\<lparr>scheduled_tokens := min k (step_limit r)\<rparr>)"
proof -
  have "sched_ok (r\<lparr>scheduled_tokens := 0\<rparr>) \<or> step_limit r < 0"
    by (auto simp: sched_ok_def)
  moreover have "1 \<le> step_limit r"
    using assms not_done_limit [OF assms(2,3)]
    by (auto simp: step_limit_def req_inv_def remaining_context_tokens_def split: option.splits)
  ultimately show ?thesis using assms(4) by (simp add: sched_ok_def)
qed

lemma offered_advance:
  assumes "req_inv r" "\<not> is_done r" "\<not> cancel_requested r" "1 \<le> k"
  defines "r0 \<equiv> r\<lparr>scheduled_tokens := min k (step_limit r)\<rparr>"
  shows "req_inv (advanced now lat b rec r0)" "\<not> cancel_requested (advanced now lat b rec r0)"
    "steps_left (advanced now lat b rec r0) < steps_left r"
    "decode_len (advanced now lat b rec r0) = decode_len r"
    "generation_idx (advanced now lat b rec r0) \<le> decode_len r"
    "max_model_len (advanced now lat b rec r0) = max_model_len r"
proof -
  obtain res rcd r' where adv: "advance now lat b rec r0 = (res, rcd, r')" by (metis surj_pair)
  have "req_inv r0" "sched_ok r0" "\<not> is_done r0" "\<not> cancel_requested r0"
    using assms sched_ok_assign by (simp_all add: r0_def)
  note st = advance_step [OF this adv]
  show "req_inv (advanced now lat b rec r0)" "\<not> cancel_requested (advanced now lat b rec r0)"
    "steps_left (advanced now lat b rec r0) < steps_left r"
    "decode_len (advanced now lat b rec r0) = decode_len r"
    "generation_idx (advanced now lat b rec r0) \<le> decode_len r"
    "max_model_len (advanced now lat b rec r0) = max_model_len r"
    using st(1,2,4,5,8,10) by (simp_all add: adv) (simp_all add: r0_def)
qed

text \<open>
  C22. One scheduler step. For a live request given no more than its step limit, \<^verbatim>\<open>advance\<close> keeps
  the request consistent, clears the assignment, adds exactly the assigned tokens to the computed
  ones, and either computes a partial chunk, sampling nothing, or completes the context and samples: one token after a context build, all assigned tokens when decoding, never
  beyond \<^verbatim>\<open>decode_len\<close>. It returns a timing exactly when the request is then done.
\<close>

theorem advance_progress:
  assumes "req_inv r" and "sched_ok r" and "\<not> is_done r" and "\<not> cancel_requested r"
    and "advance now lat b rec r = (res, recorded, r')"
  shows "req_inv r' \<and> scheduled_tokens r' = 0 \<and> steps_left r' < steps_left r \<and>
    num_computed_tokens r' = num_computed_tokens r + step_tokens r \<and>
    generation_idx r' = (if num_computed_tokens r + step_tokens r < context_len r
        then generation_idx r
        else generation_idx r + (if is_context_build r then 1 else step_tokens r)) \<and>
    generation_idx r' \<le> decode_len r \<and> (is_done r' \<longleftrightarrow> res \<noteq> None)"
  using advance_step [OF assms] advance_computed [OF assms(4,5)] by simp

definition sample_request :: "nat request" where
  "sample_request = arrive 1 True (post_init (default_request 7 5 3 4))"

lemma sample_request_facts:
  "req_inv sample_request" "\<not> is_done sample_request" "\<not> cancel_requested sample_request"
  "sched_ok (sample_request\<lparr>scheduled_tokens := 2\<rparr>)" "generation_idx sample_request = 0"
  "decode_len sample_request = 3" "max_model_len sample_request = None"
  "num_computed_tokens sample_request = 0" "context_len sample_request = 5"
  "steps_left sample_request = 7"
  by code_simp+

theorem advance_progress_witness:
  "req_inv (advanced 2 1 1 True (sample_request\<lparr>scheduled_tokens := 2\<rparr>)) \<and>
   generation_idx (advanced 2 1 1 True (sample_request\<lparr>scheduled_tokens := 2\<rparr>)) = 0"
proof -
  define r where "r = sample_request\<lparr>scheduled_tokens := 2\<rparr>"
  obtain res rcd r' where adv: "advance 2 1 1 True r = (res, rcd, r')" by (metis surj_pair)
  have "req_inv r" "sched_ok r" "\<not> is_done r" "\<not> cancel_requested r"
    using sample_request_facts by (simp_all add: r_def)
  from advance_progress [OF this adv] show ?thesis
    using sample_request_facts
    by (simp add: adv r_def [symmetric]) (simp add: r_def step_tokens_def context_len_def)
qed

text \<open>
  C7. A request never starves once it is given tokens: whatever positive numbers of tokens the
  scheduler offers, in whatever chunks, the request is done after at most as many steps as it has
  outputs left plus context tokens left to compute. It never produces more than \<^verbatim>\<open>decode_len\<close>
  tokens, and without a model length limit it produces exactly that many.
\<close>

theorem request_finishes:
  assumes "req_inv r" and "\<not> cancel_requested r" and "generation_idx r \<le> decode_len r"
    and "\<forall>(now, lat, b, k) \<in> set xs. 1 \<le> k" and "steps_left r \<le> int (length xs)"
  shows "is_done (run_steps xs r) \<and> generation_idx (run_steps xs r) \<le> decode_len r \<and>
    (max_model_len r = None \<longrightarrow> generation_idx (run_steps xs r) = decode_len r)"
  using assms
proof (induction xs arbitrary: r)
  case Nil
  then have "is_done r" using not_done_limit(1) [of r] by (fastforce simp: steps_left_def req_inv_def split: if_splits)
  then show ?case using Nil by (auto simp: is_done_def length_capped_def)
next
  case (Cons x xs)
  obtain now lat b k where x: "x = (now, lat, b, k)" by (cases x)
  show ?case
  proof (cases "is_done r")
    case True
    then show ?thesis using Cons.prems x by (auto simp: is_done_def length_capped_def)
  next
    case False
    define r1 where "r1 = advanced now lat b True (r\<lparr>scheduled_tokens := min k (step_limit r)\<rparr>)"
    have k: "1 \<le> k" using Cons.prems(4) x by simp
    note st = offered_advance [OF Cons.prems(1) False Cons.prems(2) k, of now lat b True, folded r1_def]
    have "is_done (run_steps xs r1) \<and> generation_idx (run_steps xs r1) \<le> decode_len r1 \<and>
      (max_model_len r1 = None \<longrightarrow> generation_idx (run_steps xs r1) = decode_len r1)"
      by (rule Cons.IH) (use st Cons.prems in auto)
    then show ?thesis using False x st by (simp add: r1_def [symmetric])
  qed
qed

theorem request_finishes_witness:
  "generation_idx (run_steps (replicate 7 (2, 1, 1, 2)) sample_request) = 3"
  using request_finishes [OF sample_request_facts(1,3), of "replicate 7 (2, 1, 1, 2)"] sample_request_facts
  by simp

section \<open>Timing\<close>

lemma step_timing_split [simp]:
  "generation_idx r = 1 \<Longrightarrow> prefill_latency (step_timing now lat b r) = now - last_event_at r"
  "generation_idx r = 1 \<Longrightarrow> decode_time_sum (step_timing now lat b r) = decode_time_sum r"
  "generation_idx r \<noteq> 1 \<Longrightarrow> prefill_latency (step_timing now lat b r) = prefill_latency r"
  "generation_idx r \<noteq> 1 \<Longrightarrow>
     decode_time_sum (step_timing now lat b r) = decode_time_sum r + (now - last_event_at r)"
  by (simp_all add: step_timing_def Let_def)

lemma req_step_timing:
  assumes "\<not> cancel_requested r" and r': "r' = snd (snd (req_step now lat b rec out r))"
  shows "last_event_at r' = now" and "total_time r' = total_time r + (now - last_event_at r)"
    and "generation_idx r' = 1 \<Longrightarrow> prefill_latency r' = now - last_event_at r \<and>
      decode_time_sum r' = decode_time_sum r"
    and "generation_idx r' \<noteq> 1 \<Longrightarrow> prefill_latency r' = prefill_latency r \<and>
      decode_time_sum r' = decode_time_sum r + (now - last_event_at r)"
  using assms by (simp_all add: req_step_def Let_def)

definition timing_inv :: "real \<Rightarrow> 'k request \<Rightarrow> bool" where
  "timing_inv t r \<longleftrightarrow>
     arrival_at r = Some t \<and> total_time r = last_event_at r - t \<and>
     total_time r = prefill_latency r + decode_time_sum r \<and>
     (generation_idx r = 0 \<longrightarrow> total_time r = 0 \<and> decode_time_sum r = 0)"

lemma timing_inv_assign [simp]: "timing_inv t (r\<lparr>scheduled_tokens := k\<rparr>) = timing_inv t r"
  by (simp add: timing_inv_def)

lemma timing_inv_advance:
  assumes inv: "req_inv r" and ok: "sched_ok r" and nd: "\<not> is_done r" and nc: "\<not> cancel_requested r"
    and t: "timing_inv t r"
  shows "timing_inv t (advanced now lat b rec r)"
proof (rule advance_cases [OF nc refl, of now lat b rec])
  fix r1 assume "advance now lat b rec r = (None, None, r1)"
    "generation_idx r1 = generation_idx r"
    "arrival_at r1 = arrival_at r" "last_event_at r1 = last_event_at r"
    "total_time r1 = total_time r" "prefill_latency r1 = prefill_latency r"
    "decode_time_sum r1 = decode_time_sum r"
  then show ?thesis using t by (auto simp: timing_inv_def)
next
  fix r1 lat' assume f: "context_len r \<le> num_computed_tokens r + step_tokens r"
    "advance now lat b rec r = req_step now lat' b rec (if is_context_build r then 1 else step_tokens r) r1"
    "generation_idx r1 = generation_idx r" "cancel_requested r1 = cancel_requested r"
    "arrival_at r1 = arrival_at r" "last_event_at r1 = last_event_at r"
    "total_time r1 = total_time r" "prefill_latency r1 = prefill_latency r"
    "decode_time_sum r1 = decode_time_sum r"
  define r' where "r' = advanced now lat b rec r"
  obtain res rcd where adv: "advance now lat b rec r = (res, rcd, r')"
    unfolding r'_def by (metis prod.collapse)
  have gen: "generation_idx r' = generation_idx r + (if is_context_build r then 1 else step_tokens r)"
    using advance_step(7) [OF inv ok nd nc adv] f(1) by simp
  have pos: "1 \<le> step_tokens r" "0 \<le> generation_idx r"
    using step_tokens_bounds [OF inv ok nd nc] inv by (simp_all add: req_inv_def)
  have nc1: "\<not> cancel_requested r1" using nc f by simp
  have r': "r' = snd (snd (req_step now lat' b rec (if is_context_build r then 1 else step_tokens r) r1))"
    using f(2) by (simp add: r'_def)
  note tm = req_step_timing [OF nc1 r'] and sel = req_step_sel(12) [OF nc1 r']
  have "generation_idx r' = 1 \<longleftrightarrow> generation_idx r = 0"
    using gen pos by (auto simp: is_context_build_def is_prefill_def split: if_splits)
  then have "timing_inv t r'"
    using t tm sel f gen pos by (cases "generation_idx r = 0") (auto simp: timing_inv_def)
  then show ?thesis by (simp add: r'_def)
qed

text \<open>
  C23. Latency accounting. From arrival on, through any chunking, the accumulated total time of a
  request is the time of its last sampled token minus its arrival, and it is exactly the time to
  the first token plus the sum of the gaps between tokens: waiting and partial chunks are never
  lost or counted twice.
\<close>

theorem request_latency_accounting:
  assumes "req_inv r" and "\<not> cancel_requested r" and "timing_inv t r"
    and "\<forall>(now, lat, b, k) \<in> set xs. 1 \<le> k"
  shows "total_time (run_steps xs r) = last_event_at (run_steps xs r) - t \<and>
    total_time (run_steps xs r) = prefill_latency (run_steps xs r) + decode_time_sum (run_steps xs r)"
proof -
  have "timing_inv t (run_steps xs r)"
    using assms
  proof (induction xs arbitrary: r)
    case (Cons x xs)
    obtain now lat b k where x: "x = (now, lat, b, k)" by (cases x)
    show ?case
    proof (cases "is_done r")
      case False
      define r0 where "r0 = r\<lparr>scheduled_tokens := min k (step_limit r)\<rparr>"
      have k: "1 \<le> k" using Cons.prems(4) x by simp
      have "req_inv r0" "sched_ok r0" "\<not> is_done r0" "\<not> cancel_requested r0" "timing_inv t r0"
        using Cons.prems False sched_ok_assign [OF Cons.prems(1) False Cons.prems(2) k]
        by (simp_all add: r0_def)
      then have "timing_inv t (advanced now lat b True r0)" by (rule timing_inv_advance)
      then have "timing_inv t (run_steps xs (advanced now lat b True r0))"
        using offered_advance [OF Cons.prems(1) False Cons.prems(2) k] Cons.prems
        by (intro Cons.IH) (simp_all add: r0_def)
      then show ?thesis using False x by (simp add: r0_def)
    qed (use Cons.prems x in simp)
  qed simp
  then show ?thesis by (simp add: timing_inv_def)
qed

theorem request_latency_accounting_witness:
  "total_time (run_steps (replicate 7 (2, 1, 1, 2)) sample_request) =
     last_event_at (run_steps (replicate 7 (2, 1, 1, 2)) sample_request) - 1"
proof -
  have "timing_inv 1 sample_request" by code_simp
  from request_latency_accounting [OF sample_request_facts(1,3) this, of "replicate 7 (2, 1, 1, 2)"]
  show ?thesis by simp
qed

text \<open>
  Samples of a request: the wall clock, service time, batch size and number of sampled tokens of each step.
  \<open>unfinished\<close> says that the request is not done before any of them, as the scheduler drops finished requests.
\<close>

fun run_samples :: "(real \<times> real \<times> int \<times> int) list \<Rightarrow> 'k request \<Rightarrow> 'k request" where
  "run_samples [] r = r"
| "run_samples ((now, lat, b, k) # xs) r = run_samples xs (snd (snd (req_step now lat b True k r)))"

fun unfinished :: "(real \<times> real \<times> int \<times> int) list \<Rightarrow> 'k request \<Rightarrow> bool" where
  "unfinished [] r = True"
| "unfinished ((now, lat, b, k) # xs) r \<longleftrightarrow> \<not> is_done r \<and> unfinished xs (snd (snd (req_step now lat b True k r)))"

fun step_times :: "real \<Rightarrow> real list \<Rightarrow> real list" where
  "step_times t [] = []"
| "step_times t (now # xs) = (now - t) # step_times now xs"

lemma length_step_times [simp]: "length (step_times t xs) = length xs"
  by (induction t xs rule: step_times.induct) auto

lemma step_times_nonneg: "sorted (t # xs) \<Longrightarrow> x \<in> set (step_times t xs) \<Longrightarrow> 0 \<le> x"
  by (induction t xs rule: step_times.induct) auto

text \<open>An unfinished request gains at least one token, and exactly one when one is sampled.\<close>

lemma step_output_unfinished:
  assumes "\<not> cancel_requested r" "\<not> is_done r"
  shows "1 \<le> step_output k r" "step_output 1 r = 1"
  using assms by (auto simp: step_output_def is_done_def length_capped_def Let_def split: option.splits)

lemma sample_step_sel:
  assumes "\<not> cancel_requested r"
  shows "last_event_at (snd (snd (req_step now lat b rec k r))) = now"
    "\<not> cancel_requested (snd (snd (req_step now lat b rec k r)))"
    "generation_idx (snd (snd (req_step now lat b rec k r))) = generation_idx r + step_output k r"
  using assms by (simp_all add: req_step_def Let_def)

text \<open>The step that brings the first token sets the first-step aggregates, a later one only adds to the decode ones.\<close>

lemma req_step_first:
  assumes "\<not> cancel_requested r" "generation_idx r = 0" "step_output k r = 1"
  shows "complete_timing (snd (snd (req_step now lat b rec k r))) =
       (complete_timing r)\<lparr>rt_steps := 1, rt_total_time := total_time r + (now - last_event_at r),
         rt_first_step_time := now - last_event_at r,
         rt_first_step_service_time := prefill_service_time r + lat,
         rt_first_step_batch := real_of_int b\<rparr>"
  using assms by (simp add: req_step_def Let_def)
    (simp add: step_timing_def append_tokens_def complete_timing_def Let_def)

lemma req_step_decode:
  assumes "\<not> cancel_requested r" "1 \<le> generation_idx r" "1 \<le> step_output k r"
  shows "complete_timing (snd (snd (req_step now lat b rec k r))) =
       (complete_timing r)\<lparr>rt_steps := generation_idx r + step_output k r,
         rt_total_time := total_time r + (now - last_event_at r),
         rt_decode_time_sum := decode_time_sum r + (now - last_event_at r),
         rt_decode_time_max_value := max (decode_time_max r) (now - last_event_at r),
         rt_decode_service_time_sum := decode_service_time_sum r + lat,
         rt_decode_batch_sum := decode_batch_sum r + real_of_int b\<rparr>"
  using assms by (simp add: req_step_def Let_def)
    (simp add: step_timing_def append_tokens_def complete_timing_def Let_def max_def)

lemma complete_timing_sel [simp]:
  "rt_steps (complete_timing r) = generation_idx r" "rt_total_time (complete_timing r) = total_time r"
  "rt_decode_time_sum (complete_timing r) = decode_time_sum r" "rt_decode_time_max_value (complete_timing r) = decode_time_max r"
  "rt_decode_service_time_sum (complete_timing r) = decode_service_time_sum r"
  "rt_decode_batch_sum (complete_timing r) = decode_batch_sum r"
  by (simp_all add: complete_timing_def)

lemma decode_samples:
  assumes "\<not> cancel_requested r" "1 \<le> generation_idx r" "unfinished xs r"
  shows "complete_timing (run_samples xs r) =
    (let ts = step_times (last_event_at r) (map fst xs)
     in (complete_timing r)\<lparr>rt_steps := generation_idx (run_samples xs r),
         rt_total_time := foldl (+) (total_time r) ts,
         rt_decode_time_sum := foldl (+) (decode_time_sum r) ts,
         rt_decode_time_max_value := foldl max (decode_time_max r) ts,
         rt_decode_service_time_sum := foldl (+) (decode_service_time_sum r) (map (fst \<circ> snd) xs),
         rt_decode_batch_sum := foldl (+) (decode_batch_sum r) (map (real_of_int \<circ> fst \<circ> snd \<circ> snd) xs)\<rparr>)"
  using assms
proof (induction xs arbitrary: r)
  case Nil
  then show ?case by (simp add: complete_timing_def)
next
  case (Cons x xs)
  obtain now lat b k where x: "x = (now, lat, b, k)" by (cases x)
  define r1 where "r1 = snd (snd (req_step now lat b True k r))"
  have out: "1 \<le> step_output k r" using Cons.prems by (simp add: x step_output_unfinished)
  note sel = sample_step_sel [OF Cons.prems(1), of now lat b True k, folded r1_def]
  note one = req_step_decode [OF Cons.prems(1,2) out, of now lat b True, folded r1_def]
  have "total_time r1 = rt_total_time (complete_timing r1)" "decode_time_sum r1 = rt_decode_time_sum (complete_timing r1)"
    "decode_time_max r1 = rt_decode_time_max_value (complete_timing r1)"
    "decode_service_time_sum r1 = rt_decode_service_time_sum (complete_timing r1)"
    "decode_batch_sum r1 = rt_decode_batch_sum (complete_timing r1)" by simp_all
  note agg = this [unfolded one]
  have "1 \<le> generation_idx r1" "unfinished xs r1" using Cons.prems out sel by (simp_all add: x r1_def)
  from Cons.IH [OF sel(2) this] show ?case
    by (simp add: x r1_def [symmetric] Let_def sel(1) agg) (simp add: one)
qed

lemma single_samples:
  assumes "\<not> cancel_requested r" "unfinished xs r" "\<forall>x\<in>set xs. snd (snd (snd x)) = 1"
  shows "generation_idx (run_samples xs r) = generation_idx r + int (length xs)"
  using assms
proof (induction xs arbitrary: r)
  case (Cons x xs)
  then show ?case by (cases x) (simp add: sample_step_sel step_output_unfinished)
qed simp

text \<open>
  C24. The online aggregates are those of the per-step lists. Take a request that has just arrived and a
  sequence of sampling steps at non-decreasing times, the first of which, ending the prefill, samples one
  token while later ones sample any number; the request is unfinished before each. Then the timing it
  reports is \<^verbatim>\<open>from_step_lists\<close> of the gaps, service times and batch sizes of the steps in every field but
  \<^verbatim>\<open>steps\<close>, which counts the generated tokens, and in that field too when every step samples one token.
  The service time of the first token includes the partial chunks before it.
\<close>

theorem timing_matches_step_lists:
  assumes "\<not> cancel_requested r" and "generation_idx r = 0"
    and "complete_timing r = (from_step_lists (rq_id r) [] [] [])
      \<lparr>rt_first_step_service_time := prefill_service_time r\<rparr>"
    and "sorted (last_event_at r # map fst ((now, lat, b, 1) # xs))" and "unfinished ((now, lat, b, 1) # xs) r"
  shows "let r' = run_samples ((now, lat, b, 1) # xs) r;
      lists = from_step_lists (rq_id r) (step_times (last_event_at r) (map fst ((now, lat, b, 1) # xs)))
        ((prefill_service_time r + lat) # map (fst \<circ> snd) xs)
        (map (real_of_int \<circ> fst \<circ> snd \<circ> snd) ((now, lat, b, 1) # xs))
    in complete_timing r' = lists\<lparr>rt_steps := generation_idx r'\<rparr> \<and>
      ((\<forall>x\<in>set xs. snd (snd (snd x)) = 1) \<longrightarrow> complete_timing r' = lists)"
proof -
  define lists where "lists = from_step_lists (rq_id r) (step_times (last_event_at r) (map fst ((now, lat, b, 1) # xs)))
      ((prefill_service_time r + lat) # map (fst \<circ> snd) xs)
      (map (real_of_int \<circ> fst \<circ> snd \<circ> snd) ((now, lat, b, 1) # xs))"
  define r1 where "r1 = snd (snd (req_step now lat b True 1 r))"
  define ts where "ts = step_times now (map fst xs)"
  have out: "step_output 1 r = 1" using assms(1,5) by (simp add: step_output_unfinished)
  note sel = sample_step_sel [OF assms(1), of now lat b True 1, folded r1_def]
  note one = req_step_first [OF assms(1,2) out, of now lat b True, folded r1_def]
  have zero: "total_time r = 0" "decode_time_sum r = 0" "decode_time_max r = 0"
    "decode_service_time_sum r = 0" "decode_batch_sum r = 0"
    using assms(3) by (simp_all add: complete_timing_def from_step_lists_def)
  have "total_time r1 = rt_total_time (complete_timing r1)" "decode_time_sum r1 = rt_decode_time_sum (complete_timing r1)"
    "decode_time_max r1 = rt_decode_time_max_value (complete_timing r1)"
    "decode_service_time_sum r1 = rt_decode_service_time_sum (complete_timing r1)"
    "decode_batch_sum r1 = rt_decode_batch_sum (complete_timing r1)" by simp_all
  note agg = this [unfolded one]
  have max: "foldl max 0 ts = (if 0 < length ts then foldl max (ts ! 0) (drop 1 ts) else 0)"
  proof (cases ts)
    case (Cons t ts')
    then have "0 \<le> t" using step_times_nonneg [of now "map fst xs" t] assms(4) by (simp add: ts_def)
    with Cons show ?thesis by (simp add: max_absorb2)
  qed simp
  have len: "length ts = length xs" by (simp add: ts_def)
  have r1: "generation_idx r1 = 1" "unfinished xs r1" using sel assms(2,5) out by (simp_all add: r1_def)
  have eq: "complete_timing (run_samples ((now, lat, b, 1) # xs) r) =
      lists\<lparr>rt_steps := generation_idx (run_samples ((now, lat, b, 1) # xs) r)\<rparr>"
    using decode_samples [OF sel(2) _ r1(2)] r1(1) zero max len assms(3)
    by (auto simp: r1_def [symmetric] ts_def [symmetric] Let_def sel(1) agg one lists_def from_step_lists_def)
  moreover have "rt_steps lists = 1 + int (length xs)" by (simp add: lists_def from_step_lists_def)
  ultimately show ?thesis
    using single_samples [OF sel(2) r1(2)] r1(1) unfolding Let_def lists_def [symmetric] by (auto simp: r1_def [symmetric])
qed

lemma sample_request_timing:
  "complete_timing sample_request = (from_step_lists (rq_id sample_request) [] [] [])
      \<lparr>rt_first_step_service_time := prefill_service_time sample_request\<rparr>"
  "last_event_at sample_request = 1" "prefill_service_time sample_request = 0" "rq_id sample_request = 7"
  by (simp_all add: sample_request_def arrive_def post_init_def default_request_def append_tokens_def
      complete_timing_def from_step_lists_def)

lemma sample_request_unfinished:
  "unfinished [(3, 2, 1, 1), (4, 1, 2, 1), (6, 1, 2, 1)] sample_request"
  "unfinished [(3, 2, 1, 1), (4, 1, 2, 2)] sample_request"
  "generation_idx (run_samples [(3, 2, 1, 1), (4, 1, 2, 2)] sample_request) = 3"
  by code_simp+

theorem timing_matches_step_lists_witness:
  "complete_timing (run_samples [(3, 2, 1, 1), (4, 1, 2, 1), (6, 1, 2, 1)] sample_request) =
     from_step_lists 7 [2, 1, 2] [2, 1, 1] [1, 2, 2] \<and>
   complete_timing (run_samples [(3, 2, 1, 1), (4, 1, 2, 2)] sample_request) =
     (from_step_lists 7 [2, 1] [2, 1] [1, 2])\<lparr>rt_steps := 3\<rparr>"
proof
  note at = timing_matches_step_lists [OF sample_request_facts(3,5) sample_request_timing(1), unfolded Let_def]
  show "complete_timing (run_samples [(3, 2, 1, 1), (4, 1, 2, 1), (6, 1, 2, 1)] sample_request) =
     from_step_lists 7 [2, 1, 2] [2, 1, 1] [1, 2, 2]"
    using at [OF _ sample_request_unfinished(1), THEN conjunct2] by (simp add: sample_request_timing(2-) del: run_samples.simps)
  show "complete_timing (run_samples [(3, 2, 1, 1), (4, 1, 2, 2)] sample_request) =
     (from_step_lists 7 [2, 1] [2, 1] [1, 2])\<lparr>rt_steps := 3\<rparr>"
    using at [OF _ sample_request_unfinished(2), THEN conjunct1]
    by (simp add: sample_request_timing(2-) sample_request_unfinished(3) del: run_samples.simps)
qed

section \<open>Admission accounting\<close>

text \<open>
  C25. \<^verbatim>\<open>record_context_admission\<close> raises, leaving the request untouched, exactly when a source
  count is negative or the two sources leave no context token to compute. Otherwise the prompt
  splits without remainder into GPU hits, external hits and tokens to compute, hits beyond the
  prompt are booked as reloaded generated tokens, the first admission fixes the prompt sources and
  later ones only add to the reload counters.
\<close>

theorem record_context_admission_accounts:
  assumes "0 \<le> prefill_len r"
  shows "(gpu < 0 \<or> cpu < 0 \<or> context_len r \<le> gpu + cpu \<longrightarrow>
      record_context_admission gpu cpu r = (Raise SimulationStateError, r)) \<and>
    (0 \<le> gpu \<and> 0 \<le> cpu \<and> gpu + cpu < context_len r \<longrightarrow>
      (\<exists>r'. record_context_admission gpu cpu r = (Ok (), r') \<and>
        gpu_cached_prefill_tokens r' + external_cached_prefill_tokens r' + prefill_compute_len r' = prefill_len r \<and>
        0 \<le> gpu_cached_prefill_tokens r' \<and> 0 \<le> external_cached_prefill_tokens r' \<and> 0 \<le> prefill_compute_len r' \<and>
        gpu_cached_prefill_tokens r' + (reloaded_generated_gpu_tokens r' - reloaded_generated_gpu_tokens r) = gpu \<and>
        external_cached_prefill_tokens r' + (reloaded_generated_cpu_tokens r' - reloaded_generated_cpu_tokens r) = cpu \<and>
        prefill_admission_count r' = prefill_admission_count r + 1 \<and>
        (case first_prefill_source r of
           None \<Rightarrow> first_prefill_source r' = Some \<lparr>ps_input_tokens = prefill_len r,
                ps_gpu_hit_tokens = gpu_cached_prefill_tokens r',
                ps_cpu_hit_tokens = external_cached_prefill_tokens r'\<rparr>
         | Some s \<Rightarrow> first_prefill_source r' = Some s \<and>
             reloaded_gpu_tokens r' = reloaded_gpu_tokens r + gpu_cached_prefill_tokens r' \<and>
             reloaded_cpu_tokens r' = reloaded_cpu_tokens r + external_cached_prefill_tokens r')))"
proof (intro conjI impI)
  assume "gpu < 0 \<or> cpu < 0 \<or> context_len r \<le> gpu + cpu"
  then show "record_context_admission gpu cpu r = (Raise SimulationStateError, r)"
    by (auto simp: record_context_admission_def min_def)
next
  assume ok: "0 \<le> gpu \<and> 0 \<le> cpu \<and> gpu + cpu < context_len r"
  define pg where "pg = min gpu (prefill_len r)"
  define pc where "pc = min cpu (max 0 (prefill_len r - pg))"
  have b: "0 \<le> pg" "0 \<le> pc" "pg + pc \<le> prefill_len r" using ok assms by (auto simp: pg_def pc_def)
  let ?goal = "\<lambda>r'. record_context_admission gpu cpu r = (Ok (), r') \<and>
        gpu_cached_prefill_tokens r' = pg \<and> external_cached_prefill_tokens r' = pc \<and>
        prefill_compute_len r' = prefill_len r - (pg + pc) \<and>
        reloaded_generated_gpu_tokens r' = reloaded_generated_gpu_tokens r + (gpu - pg) \<and>
        reloaded_generated_cpu_tokens r' = reloaded_generated_cpu_tokens r + (cpu - pc) \<and>
        prefill_admission_count r' = prefill_admission_count r + 1 \<and>
        (case first_prefill_source r of
           None \<Rightarrow> first_prefill_source r' = Some \<lparr>ps_input_tokens = prefill_len r,
                ps_gpu_hit_tokens = pg, ps_cpu_hit_tokens = pc\<rparr>
         | Some s \<Rightarrow> first_prefill_source r' = Some s \<and>
             reloaded_gpu_tokens r' = reloaded_gpu_tokens r + pg \<and>
             reloaded_cpu_tokens r' = reloaded_cpu_tokens r + pc)"
  have pos: "\<not> min gpu cpu < 0" "\<not> min pg pc < 0" "\<not> prefill_len r < pg + pc"
    "\<not> context_len r \<le> gpu + cpu" "min cpu (prefill_len r - pg) = pc"
    using ok b by (auto simp: pg_def pc_def)
  have "\<exists>r'. ?goal r'"
    using pos
    by (simp add: record_context_admission_def record_prefill_admission_def Let_def
        pg_def [symmetric] pc_def [symmetric] prefill_compute_len_def split: option.splits)
  then obtain r' where r': "?goal r'" by blast
  then show "\<exists>r'. record_context_admission gpu cpu r = (Ok (), r') \<and>
        gpu_cached_prefill_tokens r' + external_cached_prefill_tokens r' + prefill_compute_len r' = prefill_len r \<and>
        0 \<le> gpu_cached_prefill_tokens r' \<and> 0 \<le> external_cached_prefill_tokens r' \<and> 0 \<le> prefill_compute_len r' \<and>
        gpu_cached_prefill_tokens r' + (reloaded_generated_gpu_tokens r' - reloaded_generated_gpu_tokens r) = gpu \<and>
        external_cached_prefill_tokens r' + (reloaded_generated_cpu_tokens r' - reloaded_generated_cpu_tokens r) = cpu \<and>
        prefill_admission_count r' = prefill_admission_count r + 1 \<and>
        (case first_prefill_source r of
           None \<Rightarrow> first_prefill_source r' = Some \<lparr>ps_input_tokens = prefill_len r,
                ps_gpu_hit_tokens = gpu_cached_prefill_tokens r',
                ps_cpu_hit_tokens = external_cached_prefill_tokens r'\<rparr>
         | Some s \<Rightarrow> first_prefill_source r' = Some s \<and>
             reloaded_gpu_tokens r' = reloaded_gpu_tokens r + gpu_cached_prefill_tokens r' \<and>
             reloaded_cpu_tokens r' = reloaded_cpu_tokens r + external_cached_prefill_tokens r')"
    using b by (intro exI [of _ r']) (simp split: option.splits)
qed

lemma sample_prefill_len: "prefill_len sample_request = 5"
  by code_simp

theorem record_context_admission_accounts_witness:
  "\<exists>r'. record_context_admission 3 1 sample_request = (Ok (), r') \<and>
     gpu_cached_prefill_tokens r' + external_cached_prefill_tokens r' + prefill_compute_len r' = 5"
proof -
  have "0 \<le> prefill_len sample_request" by (simp add: sample_prefill_len)
  note acc = record_context_admission_accounts [OF this, of 3 1, THEN conjunct2, THEN mp]
  have "0 \<le> (3::int) \<and> 0 \<le> (1::int) \<and> (3::int) + 1 < context_len sample_request"
    by (simp add: sample_request_facts)
  then show ?thesis using acc by (metis sample_prefill_len)
qed

section \<open>Cancellation\<close>

definition ack_all :: "real \<Rightarrow> int list \<Rightarrow> 'k request \<Rightarrow> 'k request" where
  "ack_all now ws r = fold (\<lambda>w. acknowledge_cancel now (Some w)) ws r"

lemma ack_all_Cons: "ack_all now (w # ws) r = ack_all now ws (acknowledge_cancel now (Some w) r)"
  by (simp add: ack_all_def)

lemma minus_insert: "A - {w} - B = A - insert w B"
  by blast

lemma ack_cancelled:
  assumes "cancel_requested r" "cancelled_at r \<noteq> None"
  shows "ack_all now ws r = r\<lparr>cancel_pending_worker_ids := cancel_pending_worker_ids r - set ws\<rparr>"
  using assms
proof (induction ws arbitrary: r)
  case (Cons w ws)
  define r1 where "r1 = r\<lparr>cancel_pending_worker_ids := cancel_pending_worker_ids r - {w}\<rparr>"
  have "acknowledge_cancel now (Some w) r = r1"
    using Cons.prems by (simp add: r1_def acknowledge_cancel_def Let_def)
  then have "ack_all now (w # ws) r = ack_all now ws r1" by (simp add: ack_all_Cons)
  also have "\<dots> = r1\<lparr>cancel_pending_worker_ids := cancel_pending_worker_ids r1 - set ws\<rparr>"
    using Cons by (simp add: r1_def)
  finally show ?case using minus_insert [of "cancel_pending_worker_ids r" w] by (simp add: r1_def)
qed (simp add: ack_all_def)

lemma ack_pending:
  assumes "cancel_requested r" "cancelled_at r = None"
  shows "ack_all now ws r =
    (if ws \<noteq> [] \<and> cancel_pending_worker_ids r \<subseteq> set ws then
       r\<lparr>cancel_pending_worker_ids := {}, cancelled_at := Some now, status := FINISHED_CANCELLED,
         completion_event := succeed_pending None (completion_event r),
         cancellation_event := succeed_pending () (cancellation_event r)\<rparr>
     else r\<lparr>cancel_pending_worker_ids := cancel_pending_worker_ids r - set ws\<rparr>)"
  using assms
proof (induction ws arbitrary: r)
  case Nil
  then show ?case by (simp add: ack_all_def)
next
  case (Cons w ws)
  show ?case
  proof (cases "cancel_pending_worker_ids r - {w} = {}")
    case True
    define r1 where "r1 = r\<lparr>cancel_pending_worker_ids := {}, cancelled_at := Some now,
      status := FINISHED_CANCELLED, completion_event := succeed_pending None (completion_event r),
      cancellation_event := succeed_pending () (cancellation_event r)\<rparr>"
    have "acknowledge_cancel now (Some w) r = r1"
      using Cons.prems True by (simp add: r1_def acknowledge_cancel_def Let_def)
    moreover have "cancel_requested r1" "cancelled_at r1 \<noteq> None" using Cons.prems by (simp_all add: r1_def)
    moreover have "cancel_pending_worker_ids r \<subseteq> insert w (set ws)" using True by blast
    ultimately show ?thesis using ack_cancelled [of r1 now ws] by (simp add: ack_all_Cons) (simp add: r1_def)
  next
    case False
    define r1 where "r1 = r\<lparr>cancel_pending_worker_ids := cancel_pending_worker_ids r - {w}\<rparr>"
    have "acknowledge_cancel now (Some w) r = r1"
      using Cons.prems False by (simp add: r1_def acknowledge_cancel_def Let_def)
    moreover have "cancel_requested r1" "cancelled_at r1 = None" using Cons.prems by (simp_all add: r1_def)
    moreover have "ws \<noteq> [] \<and> cancel_pending_worker_ids r1 \<subseteq> set ws \<longleftrightarrow>
        cancel_pending_worker_ids r \<subseteq> insert w (set ws)"
      using False by (auto simp: r1_def)
    ultimately show ?thesis using Cons.IH [of r1] minus_insert [of "cancel_pending_worker_ids r" w "set ws"]
      by (simp add: ack_all_Cons) (simp add: r1_def)
  qed
qed

text \<open>
  C27. Cancellation completes exactly when every worker that owned the request has acknowledged it.
  After \<^verbatim>\<open>request_cancel\<close> on a live request and any sequence of acknowledgements: if every owner
  is among them the request is \<^verbatim>\<open>FINISHED_CANCELLED\<close> and both of its events have fired, the
  completion event without a timing; otherwise it is still \<^verbatim>\<open>CANCEL_PENDING\<close> on exactly the owners
  that have not answered, and its events have not moved. From the cancellation on, no step changes
  the request.
\<close>

theorem cancellation_protocol:
  assumes "\<not> is_done r" and "\<not> cancel_requested r" and "cancelled_at r = None"
    and "completion_event r = Some Pending" and "cancellation_event r = None"
    and "r1 = request_cancel t r"
  shows "(owner_worker_ids r \<subseteq> set ws \<and> ws \<noteq> [] \<longrightarrow>
      status (ack_all now ws r1) = FINISHED_CANCELLED \<and>
      cancelled_at (ack_all now ws r1) = Some now \<and>
      completion_event (ack_all now ws r1) = Some (Triggered None) \<and>
      cancellation_event (ack_all now ws r1) = Some (Triggered ())) \<and>
    (\<not> (owner_worker_ids r \<subseteq> set ws \<and> ws \<noteq> []) \<longrightarrow>
      status (ack_all now ws r1) = CANCEL_PENDING \<and>
      cancel_pending_worker_ids (ack_all now ws r1) = owner_worker_ids r - set ws \<and>
      completion_event (ack_all now ws r1) = Some Pending \<and>
      cancellation_event (ack_all now ws r1) = Some Pending) \<and>
    advance now' lat b rec (ack_all now ws r1) = (None, None, ack_all now ws r1)"
proof -
  have nd: "\<not> is_done (r\<lparr>cancellation_event := Some Pending\<rparr>)"
    using assms(1) by (simp add: is_done_def length_capped_def context_len_def split: option.splits)
  have r1: "r1 = r\<lparr>cancellation_event := Some Pending, cancel_requested := True,
      cancel_requested_at := Some t, status := CANCEL_PENDING,
      cancel_pending_worker_ids := owner_worker_ids r\<rparr>"
    using assms(2,5,6) nd by (simp add: request_cancel_def)
  have "cancel_requested r1" "cancelled_at r1 = None" using assms(3) by (simp_all add: r1)
  note ack = ack_pending [OF this, of now ws]
  have "cancel_requested (ack_all now ws r1)" unfolding ack by (simp add: r1)
  then have "advance now' lat b rec (ack_all now ws r1) = (None, None, ack_all now ws r1)"
    by (simp add: advance_def)
  then show ?thesis using assms(4) unfolding ack by (auto simp: r1 succeed_pending_def)
qed

theorem cancellation_protocol_witness:
  "status (ack_all 5 [2, 1] (request_cancel 4 (sample_request\<lparr>owner_worker_ids := {1, 2}\<rparr>)))
     = FINISHED_CANCELLED"
proof -
  define r where "r = sample_request\<lparr>owner_worker_ids := {1, 2}\<rparr>"
  have "\<not> is_done r" "\<not> cancel_requested r" "cancelled_at r = None"
    "completion_event r = Some Pending" "cancellation_event r = None"
    unfolding r_def by code_simp+
  from cancellation_protocol [OF this refl, of "[2, 1]" 5 4] show ?thesis by (simp add: r_def)
qed

end
