(* ===== verification/KV_Cache.thy ===== *)
theory KV_Cache
  imports Block_Pool Request
begin

text \<open>
  The prefix-cache index of a GPU pool (\<^verbatim>\<open>src/TokenSim/block/kv_cache_manager.py\<close>). The state
  \<open>kvst\<close> holds the shared block memory and the manager; later components extend the record.
  The module-level chain cache of the key builder is carried in the manager's record, and the digest
  \<open>H\<close> is a parameter of the operations that build keys.
\<close>

section \<open>State\<close>

record kvm =
  kv_block_size :: int
  kv_model :: string
  kv_cache :: "prefix_key \<rightharpoonup> addr"
  kv_access_counter :: nat
  kv_input_keys :: "int \<rightharpoonup> prefix_key list"
  kv_chains :: chain_cache

record kvst =
  w_mem :: "prefix_key mem"
  w_kv :: kvm

abbreviation blk :: "'z kvst_scheme \<Rightarrow> addr \<Rightarrow> prefix_key phys_block" where
  "blk w a \<equiv> m_heap (w_mem w) a"

definition new_kvm :: "int \<Rightarrow> string \<Rightarrow> kvm" where
  "new_kvm sz model =
     \<lparr>kv_block_size = sz, kv_model = model, kv_cache = Map.empty, kv_access_counter = 0,
      kv_input_keys = Map.empty, kv_chains = new_chain_cache\<rparr>"

text \<open>Writing a field of a block.\<close>

definition set_blk ::
  "addr \<Rightarrow> (prefix_key phys_block \<Rightarrow> prefix_key phys_block) \<Rightarrow> 'z kvst_scheme \<Rightarrow> 'z kvst_scheme" where
  "set_blk a f w = w\<lparr>w_mem := (w_mem w)\<lparr>m_heap := upd_block a f (m_heap (w_mem w))\<rparr>\<rparr>"

section \<open>Plans\<close>

record reuse_plan =
  pl_request_id :: int
  pl_hit_blocks :: "addr list"
  pl_input_keys :: "prefix_key list"
  pl_full_input_blocks :: int
  pl_total_logical_blocks :: int
  pl_has_hash_ids :: bool
  pl_hit_tokens :: int
  pl_effective_prefill_tokens :: int

definition hit_block_count :: "reuse_plan \<Rightarrow> int" where
  "hit_block_count pl = int (length (pl_hit_blocks pl))"

definition miss_block_count :: "reuse_plan \<Rightarrow> int" where
  "miss_block_count pl = pl_total_logical_blocks pl - hit_block_count pl"

definition plan_reuse_miss_blocks :: "reuse_plan \<Rightarrow> int" where
  "plan_reuse_miss_blocks pl =
     (if \<not> pl_has_hash_ids pl then 0 else pl_full_input_blocks pl - hit_block_count pl)"

definition zero_ref_hit_blocks :: "'z kvst_scheme \<Rightarrow> reuse_plan \<Rightarrow> int" where
  "zero_ref_hit_blocks w pl = int (length (filter (\<lambda>a. ref_count (blk w a) = 0) (pl_hit_blocks pl)))"

definition is_gpu_hit :: "'z kvst_scheme \<Rightarrow> addr option \<Rightarrow> bool" where
  "is_gpu_hit w b =
     (case b of None \<Rightarrow> False
      | Some a \<Rightarrow> cached (blk w a) \<and> is_full (blk w a) \<and> device_of (blk w a) = GPU)"

text \<open>\<^verbatim>\<open>not xs\<close> for an optional list.\<close>

definition no_ids :: "hash_id list option \<Rightarrow> bool" where
  "no_ids ids \<longleftrightarrow> ids = None \<or> ids = Some []"

definition ids_or_empty :: "hash_id list option \<Rightarrow> hash_id list" where
  "ids_or_empty ids = (case ids of None \<Rightarrow> [] | Some xs \<Rightarrow> xs)"

definition kv_build_input_keys ::
  "(string \<Rightarrow> string) \<Rightarrow> ('k, 'y) req_cache_scheme \<Rightarrow> int \<Rightarrow> 'z kvst_scheme
   \<Rightarrow> prefix_key list \<times> 'z kvst_scheme" where
  "kv_build_input_keys H r full_input_blocks w =
     (if no_ids (hash_ids r) then ([], w)
      else
        (let build =
           (let (keys, cc) = build_prefix_keys H (kv_chains (w_kv w))
                  (take (nat full_input_blocks) (ids_or_empty (hash_ids r)))
                  (kv_model (w_kv w)) (cache_salt r) (reuse_group r)
            in (keys, w\<lparr>w_kv := (w_kv w)\<lparr>kv_chains := cc,
                  kv_input_keys := (kv_input_keys (w_kv w))(rq_id r \<mapsto> keys)\<rparr>\<rparr>))
         in case kv_input_keys (w_kv w) (rq_id r) of
              None \<Rightarrow> build
            | Some memo \<Rightarrow> if int (length memo) \<noteq> full_input_blocks then build else (memo, w)))"

text \<open>The loop of \<^verbatim>\<open>plan_reuse\<close>: leading keys whose indexed block is a hit.\<close>

fun leading_hits :: "'z kvst_scheme \<Rightarrow> prefix_key list \<Rightarrow> addr list" where
  "leading_hits w [] = []"
| "leading_hits w (key # keys) =
     (case kv_cache (w_kv w) key of
        None \<Rightarrow> []
      | Some a \<Rightarrow> if is_gpu_hit w (Some a) then a # leading_hits w keys else [])"

definition plan_reuse ::
  "(string \<Rightarrow> string) \<Rightarrow> ('k, 'y) req_cache_scheme \<Rightarrow> 'z kvst_scheme \<Rightarrow> reuse_plan \<times> 'z kvst_scheme" where
  "plan_reuse H r w =
     (let full_input_blocks = prefill_len r div kv_block_size (w_kv w);
          (input_keys, w1) = kv_build_input_keys H r full_input_blocks w;
          hits = leading_hits w1 input_keys;
          hit_tokens = int (length hits) * kv_block_size (w_kv w1)
      in (\<lparr>pl_request_id = rq_id r, pl_hit_blocks = hits, pl_input_keys = input_keys,
           pl_full_input_blocks = full_input_blocks,
           pl_total_logical_blocks = num_logical_token_blocks r,
           pl_has_hash_ids = (\<not> no_ids (hash_ids r)), pl_hit_tokens = hit_tokens,
           pl_effective_prefill_tokens = prefill_len r - hit_tokens\<rparr>, w1))"

definition apply_reuse_metrics ::
  "reuse_plan \<Rightarrow> ('k, 'y) req_cache_scheme \<Rightarrow> ('k, 'y) req_cache_scheme" where
  "apply_reuse_metrics pl r =
     r\<lparr>cached_prefill_blocks := hit_block_count pl,
       cached_prefill_tokens := pl_hit_tokens pl,
       effective_prefill_tokens := Some (pl_effective_prefill_tokens pl),
       reuse_hit_blocks := hit_block_count pl,
       reuse_miss_blocks := plan_reuse_miss_blocks pl\<rparr>"

definition apply_plan ::
  "reuse_plan \<Rightarrow> (prefix_key, 'y) req_cache_scheme \<Rightarrow> (prefix_key, 'y) req_cache_scheme" where
  "apply_plan pl r =
     (apply_reuse_metrics pl r)\<lparr>input_cache_keys := pl_input_keys pl, input_cache_committed := False\<rparr>"

section \<open>The index\<close>

definition evict :: "addr \<Rightarrow> 'z kvst_scheme \<Rightarrow> 'z kvst_scheme" where
  "evict a w =
     (let w1 = (case block_hash (blk w a) of
            None \<Rightarrow> w
          | Some key \<Rightarrow>
              if kv_cache (w_kv w) key = Some a then
                w\<lparr>w_kv := (w_kv w)\<lparr>kv_cache := (kv_cache (w_kv w))(key := None)\<rparr>\<rparr>
              else w)
      in set_blk a clear_cache_metadata w1)"

definition touch :: "addr \<Rightarrow> 'z kvst_scheme \<Rightarrow> 'z kvst_scheme" where
  "touch a w =
     (let w1 = w\<lparr>w_kv := (w_kv w)\<lparr>kv_access_counter := Suc (kv_access_counter (w_kv w))\<rparr>\<rparr>
      in set_blk a (\<lambda>b. b\<lparr>last_accessed := kv_access_counter (w_kv w1)\<rparr>) w1)"

definition register_block :: "addr \<Rightarrow> prefix_key \<Rightarrow> 'z kvst_scheme \<Rightarrow> 'z kvst_scheme" where
  "register_block a key w =
     (let w1 = (if block_hash (blk w a) \<noteq> None \<and> block_hash (blk w a) \<noteq> Some key then evict a w else w);
          w2 = set_blk a (\<lambda>b. b\<lparr>block_hash := Some key, is_full := True, cached := True\<rparr>) w1;
          w3 = w2\<lparr>w_kv := (w_kv w2)\<lparr>kv_cache := (kv_cache (w_kv w2))(key \<mapsto> a)\<rparr>\<rparr>
      in touch a w3)"

definition register_blocks :: "addr list \<Rightarrow> prefix_key list \<Rightarrow> 'z kvst_scheme \<Rightarrow> 'z kvst_scheme" where
  "register_blocks blocks keys w = fold (\<lambda>(a, key). register_block a key) (zip blocks keys) w"

definition register_output_blocks ::
  "(string \<Rightarrow> string) \<Rightarrow> ('k, 'y) req_cache_scheme \<Rightarrow> addr list \<Rightarrow> 'z kvst_scheme \<Rightarrow> 'z kvst_scheme" where
  "register_output_blocks H r blocks w =
     (let sz = kv_block_size (w_kv w);
          full_input_blocks = prefill_len r div sz;
          output_full_blocks = decode_len r div sz;
          out_ids = take (nat output_full_blocks) (ids_or_empty (output_hash_ids r));
          in_ids = take (nat full_input_blocks) (ids_or_empty (hash_ids r))
      in if no_ids (output_hash_ids r) then w
         else if prefill_len r mod sz \<noteq> 0 then w
         else if int (length (ids_or_empty (hash_ids r))) < full_input_blocks then w
         else if output_full_blocks \<le> 0 then w
         else if out_ids = [] then w
         else
           (let (all_keys, cc) = build_prefix_keys H (kv_chains (w_kv w)) (in_ids @ out_ids)
                  (kv_model (w_kv w)) (cache_salt r) (reuse_group r);
                w1 = w\<lparr>w_kv := (w_kv w)\<lparr>kv_chains := cc\<rparr>\<rparr>;
                keys = drop (length in_ids) all_keys;
                output_start = nat full_input_blocks;
                output_end = min (output_start + length keys) (length blocks)
            in if output_end \<le> output_start then w1
               else register_blocks (take (output_end - output_start) (drop output_start blocks))
                      (take (output_end - output_start) keys) w1))"

definition release_block :: "addr \<Rightarrow> 'z kvst_scheme \<Rightarrow> free_queue \<Rightarrow> unit result \<times> 'z kvst_scheme \<times> free_queue" where
  "release_block a w q =
     (if ref_count (blk w a) = 0 then (Raise SimulationStateError, w, q)
      else
        (let w1 = set_blk a (\<lambda>b. b\<lparr>ref_count := ref_count b - 1\<rparr>) w
         in if ref_count (blk w1 a) \<noteq> 0 then (Ok (), w1, q)
            else if \<not> cached (blk w1 a) then
              (let w2 = set_blk a clear_cache_metadata w1
               in (Ok (), w2, fq_append_unique (m_heap (w_mem w2)) q a))
            else (Ok (), w1, fq_append_lru (m_heap (w_mem w1)) q a)))"

definition forget_request :: "int \<Rightarrow> 'z kvst_scheme \<Rightarrow> 'z kvst_scheme" where
  "forget_request i w = w\<lparr>w_kv := (w_kv w)\<lparr>kv_input_keys := (kv_input_keys (w_kv w))(i := None)\<rparr>\<rparr>"

end
