(* ===== verification/Block_Allocator.thy ===== *)
theory Block_Allocator
  imports KV_Cache "HOL-Library.Multiset"
begin

text \<open>
  The reference-counting allocators (class \<^verbatim>\<open>BlockAllocator\<close> of
  \<^verbatim>\<open>src/TokenSim/block/block_manager.py\<close>). A manager has one per device; only the GPU one has a
  prefix-cache manager attached. The state \<open>world\<close> extends the cache state by the two allocators.
\<close>

record allocator =
  al_device :: device
  al_block_size :: int
  al_num_blocks :: int
  al_has_kv :: bool
  al_pool :: pool

record world = kvst +
  w_al :: "device \<Rightarrow> allocator"

abbreviation w_pool :: "'z world_scheme \<Rightarrow> device \<Rightarrow> pool" where
  "w_pool w d \<equiv> al_pool (w_al w d)"

definition new_allocator :: "device \<Rightarrow> int \<Rightarrow> int \<Rightarrow> bool \<Rightarrow> allocator" where
  "new_allocator d sz n has_kv =
     \<lparr>al_device = d, al_block_size = sz, al_num_blocks = n, al_has_kv = has_kv,
      al_pool = new_pool d sz n\<rparr>"

definition set_pool :: "device \<Rightarrow> pool \<Rightarrow> 'z world_scheme \<Rightarrow> 'z world_scheme" where
  "set_pool d p w = w\<lparr>w_al := (w_al w)(d := (w_al w d)\<lparr>al_pool := p\<rparr>)\<rparr>"

definition al_get_num_free_blocks :: "device \<Rightarrow> 'z world_scheme \<Rightarrow> int" where
  "al_get_num_free_blocks d w = bp_get_num_free_blocks (w_pool w d)"

definition al_get_num_allocated_blocks :: "device \<Rightarrow> 'z world_scheme \<Rightarrow> int" where
  "al_get_num_allocated_blocks d w = al_num_blocks (w_al w d) - al_get_num_free_blocks d w"

definition al_get_status :: "device \<Rightarrow> 'z world_scheme \<Rightarrow> int \<times> int \<times> int" where
  "al_get_status d w =
     (al_get_num_free_blocks d w, al_get_num_allocated_blocks d w, al_num_blocks (w_al w d))"

definition al_set_num_free_blocks :: "device \<Rightarrow> int \<Rightarrow> 'z world_scheme \<Rightarrow> unit result \<times> 'z world_scheme" where
  "al_set_num_free_blocks d k w =
     (let (r, m, p) = bp_set_num_free_blocks k (w_mem w, w_pool w d)
      in (r, set_pool d p (w\<lparr>w_mem := m\<rparr>)))"

definition al_allocate :: "device \<Rightarrow> 'z world_scheme \<Rightarrow> addr result \<times> 'z world_scheme" where
  "al_allocate d w =
     (if al_get_num_free_blocks d w = 0 then (Raise OutOfBlocksError, w)
      else
        (let (r, m, p) = pop_free_block (w_mem w, w_pool w d)
         in and_then (r, set_pool d p (w\<lparr>w_mem := m\<rparr>))
              (\<lambda>a w1.
                 let w2 = (if cached (blk w1 a) then
                             (if \<not> al_has_kv (w_al w1 d) then set_blk a clear_cache_metadata w1
                              else evict a w1)
                           else w1)
                 in if ref_count (blk w2 a) \<noteq> 0 then (Raise SimulationStateError, w2)
                    else (Ok a, set_blk a (\<lambda>b. b\<lparr>ref_count := ref_count b + 1\<rparr>) w2))))"

definition al_acquire :: "device \<Rightarrow> addr \<Rightarrow> 'z world_scheme \<Rightarrow> unit result \<times> 'z world_scheme" where
  "al_acquire d a w =
     and_then (validate_owned (w_mem w) (w_pool w d) a, w)
       (\<lambda>_ w.
          let w1 = (if ref_count (blk w a) = 0 then
                      set_pool d (remove_from_free_queue (w_mem w) (w_pool w d) a) w
                    else w);
              w2 = set_blk a (\<lambda>b. b\<lparr>ref_count := ref_count b + 1\<rparr>) w1
          in (Ok (), if al_has_kv (w_al w2 d) then touch a w2 else w2))"

definition al_free :: "device \<Rightarrow> addr option \<Rightarrow> 'z world_scheme \<Rightarrow> unit result \<times> 'z world_scheme" where
  "al_free d ob w =
     (case ob of
        None \<Rightarrow> (Raise SimulationStateError, w)
      | Some a \<Rightarrow>
          and_then (validate_owned (w_mem w) (w_pool w d) a, w)
            (\<lambda>_ w.
               if ref_count (blk w a) = 0 then (Raise SimulationStateError, w)
               else if al_has_kv (w_al w d) then
                 (let (r, w1, q) = release_block a w (bp_free (w_pool w d))
                  in (r, set_pool d ((w_pool w1 d)\<lparr>bp_free := q\<rparr>) w1))
               else
                 (let w1 = set_blk a (\<lambda>b. b\<lparr>ref_count := ref_count b - 1\<rparr>) w
                  in if ref_count (blk w1 a) = 0 then
                       (let w2 = set_blk a clear_cache_metadata w1
                        in (Ok (), set_pool d (append_free_block (w_mem w2) (w_pool w2 d) a) w2))
                     else (Ok (), w1))))"

section \<open>The reference invariant\<close>

text \<open>
  \<open>al_inv M w\<close>: \<open>M\<close> is the multiset of references held outside the allocators. Every pool is well
  formed, every reference is to a block of a pool, a block's reference count is the number of
  references to it, and the free queues hold exactly the unreferenced blocks.
\<close>

definition world_blocks :: "'z world_scheme \<Rightarrow> addr set" where
  "world_blocks w = pool_blocks (w_pool w GPU) \<union> pool_blocks (w_pool w CPU)"

definition al_inv :: "addr multiset \<Rightarrow> 'z world_scheme \<Rightarrow> bool" where
  "al_inv M w \<longleftrightarrow>
     (\<forall>d. pool_inv (w_mem w) (w_pool w d) \<and> bp_device (w_pool w d) = d \<and>
        al_num_blocks (w_al w d) = bp_num_blocks (w_pool w d) \<and>
        (\<forall>a \<in> pool_blocks (w_pool w d). ref_count (blk w a) = count M a \<and>
           (a \<in> set (fq_list (bp_free (w_pool w d))) \<longleftrightarrow> a \<notin># M))) \<and>
     set_mset M \<subseteq> world_blocks w"

lemma al_invD:
  assumes "al_inv M w"
  shows "pool_inv (w_mem w) (w_pool w d)" "blocks_ok (w_mem w) (w_pool w d)"
    "bp_device (w_pool w d) = d" "al_num_blocks (w_al w d) = bp_num_blocks (w_pool w d)"
    "a \<in> pool_blocks (w_pool w d) \<Longrightarrow> ref_count (blk w a) = count M a"
    "a \<in> pool_blocks (w_pool w d) \<Longrightarrow> a \<in> set (fq_list (bp_free (w_pool w d))) \<longleftrightarrow> a \<notin># M"
    "set_mset M \<subseteq> world_blocks w"
  using assms by (simp_all add: al_inv_def pool_inv_def)

lemma pool_device:
  assumes "al_inv M w" "a \<in> pool_blocks (w_pool w d)"
  shows "device_of (blk w a) = d"
  using al_invD(2,3) [OF assms(1), of d] assms(2)
  by (auto simp: blocks_ok_def pool_blocks_def ran_def)

lemma referenced_pool:
  assumes "al_inv M w" "a \<in># M"
  shows "a \<in> pool_blocks (w_pool w (device_of (blk w a)))"
  using al_invD(7) [OF assms(1)] assms pool_device [OF assms(1), of a]
  by (auto simp: world_blocks_def)

lemma al_owns:
  assumes "al_inv M w"
  shows "owns (w_mem w) (w_pool w d) a \<longleftrightarrow> a \<in> pool_blocks (w_pool w d)"
  using owns_iff [OF al_invD(2) [OF assms]] .

lemma validate_ok:
  assumes "al_inv M w" "a \<in> pool_blocks (w_pool w d)"
  shows "validate_owned (w_mem w) (w_pool w d) a = Ok ()"
  using al_owns [OF assms(1)] pool_device [OF assms] al_invD(3) [OF assms(1)] assms(2)
  by (simp add: validate_owned_def)

section \<open>What a pop gives\<close>

lemma pop_free_block_Ok:
  assumes inv: "pool_inv m p" and free: "0 < bp_get_num_free_blocks p"
  obtains a m' p' where "pop_free_block (m, p) = (Ok a, m', p')" and "pool_inv m' p'"
    and "pool_blocks p' = insert a (pool_blocks p)"
    and "set (fq_list (bp_free p')) = set (fq_list (bp_free p)) - {a}"
    and "\<And>b. b \<noteq> a \<Longrightarrow> m_heap m' b = m_heap m b" and "m_next m \<le> m_next m'"
    and "bp_device p' = bp_device p" and "bp_num_blocks p' = bp_num_blocks p"
    and "a = m_next m \<and> a \<notin> pool_blocks p \<and>
        m_heap m' a = new_block (bp_device p) (bp_next_fresh p) (bp_block_size p) \<or>
      a \<in> set (fq_list (bp_free p)) \<and> m_heap m' a = m_heap m a"
proof (cases "bp_next_fresh p < bp_num_blocks p")
  case True
  note pop = pop_fresh [OF inv True]
  have none: "bp_materialized p (bp_next_fresh p) = None" using inv True by (auto simp: pool_inv_def domIff)
  have fresh: "m_next m \<notin> pool_blocks p" using pool_blocks_below [OF pool_inv_blocks [OF inv]] by blast
  then have "m_next m \<notin> set (fq_list (bp_free p))" using queued_owned [OF pool_inv_blocks [OF inv]] by blast
  then show thesis
    using pop pop_free_block_inv [OF inv pop] fresh none
    by (intro that [OF pop]) (auto simp: pool_blocks_def ran_map_upd)
next
  case False
  have fq: "fq_inv (m_heap m) (bp_free p)" using inv by (simp add: pool_inv_def blocks_ok_def)
  have "fq_list (bp_free p) \<noteq> []"
    using num_free_view [OF inv] free False by (auto simp: pool_view_def)
  then obtain b bs where b: "fq_list (bp_free p) = b # bs" by (cases "fq_list (bp_free p)") auto
  obtain r q where rq: "fq_popleft (m_heap m) (bp_free p) = (r, q)" by fastforce
  have r: "r = Ok b" "fq_list q = bs" using fq_popleft_refines(2,3) [OF fq] b rq by auto
  then have pop: "pop_free_block (m, p) = (Ok b, m, p\<lparr>bp_free := q\<rparr>)"
    using pop_queued [OF inv False] rq by simp
  have "b \<in> pool_blocks p" using queued_owned [OF pool_inv_blocks [OF inv]] b by simp
  moreover have "distinct (b # bs)" using distinct_fq_list [OF fq] b by simp
  ultimately show thesis
    using pop_free_block_inv [OF inv pop] b r by (intro that [OF pop]) auto
qed

section \<open>Writes that leave references alone\<close>

definition quiet :: "'z world_scheme \<Rightarrow> 'z world_scheme \<Rightarrow> bool" where
  "quiet w w' \<longleftrightarrow>
     w_al w' = w_al w \<and> m_next (w_mem w') = m_next (w_mem w) \<and> world.more w' = world.more w \<and>
     (\<forall>a. block_number (blk w' a) = block_number (blk w a) \<and> device_of (blk w' a) = device_of (blk w a) \<and>
        ref_count (blk w' a) = ref_count (blk w a))"

lemma quiet_refl [simp]: "quiet w w"
  by (simp add: quiet_def)

lemma quiet_trans: "quiet w w' \<Longrightarrow> quiet w' w'' \<Longrightarrow> quiet w w''"
  by (simp add: quiet_def)

lemma set_blk_sel [simp]:
  "blk (set_blk a f w) b = (if b = a then f (blk w a) else blk w b)"
  "w_kv (set_blk a f w) = w_kv w" "m_next (w_mem (set_blk a f w)) = m_next (w_mem w)"
  "w_al (set_blk a f w') = w_al w'" "world.more (set_blk a f w') = world.more w'"
  by (simp_all add: set_blk_def upd_block_def)

lemma quiet_set_blk:
  assumes "\<And>b. block_number (f b) = block_number b" "\<And>b. device_of (f b) = device_of b"
    "\<And>b. ref_count (f b) = ref_count b"
  shows "quiet w (set_blk a f w)"
  using assms by (simp add: quiet_def)

lemma quiet_kv [simp]: "quiet w (w\<lparr>w_kv := kv\<rparr>)"
  by (simp add: quiet_def)

lemma al_inv_quiet:
  assumes "al_inv M w" and q: "quiet w w'"
  shows "al_inv M w'"
proof -
  have al: "w_al w' = w_al w" and ref: "ref_count (blk w' a) = ref_count (blk w a)" for a
    using q by (simp_all add: quiet_def)
  have "pool_inv (w_mem w') (w_pool w' d)" for d
    unfolding al
    by (rule pool_inv_mem [OF al_invD(1) [OF assms(1)]]) (use q in \<open>simp_all add: quiet_def\<close>)
  then show ?thesis using assms(1) by (simp add: al_inv_def al ref world_blocks_def)
qed

lemma quiet_free_count: "quiet w w' \<Longrightarrow> al_get_num_free_blocks d w' = al_get_num_free_blocks d w"
  by (simp add: quiet_def al_get_num_free_blocks_def)

lemma quiet_evict: "quiet w (evict a w)"
proof -
  have "quiet w1 (set_blk a clear_cache_metadata w1)" for w1 :: "'a world_scheme"
    by (rule quiet_set_blk) simp_all
  then show ?thesis
    unfolding evict_def Let_def by (auto intro: quiet_trans [OF quiet_kv] split: option.splits)
qed

lemma quiet_touch: "quiet w (touch a w)"
  unfolding touch_def Let_def
  by (rule quiet_trans [OF quiet_kv quiet_set_blk]) simp_all

lemma quiet_register_block: "quiet w (register_block a key w)"
proof -
  define w1 where "w1 = (if block_hash (blk w a) \<noteq> None \<and> block_hash (blk w a) \<noteq> Some key then evict a w else w)"
  define w2 where "w2 = set_blk a (\<lambda>b. b\<lparr>block_hash := Some key, is_full := True, cached := True\<rparr>) w1"
  define w3 where "w3 = w2\<lparr>w_kv := (w_kv w2)\<lparr>kv_cache := (kv_cache (w_kv w2))(key \<mapsto> a)\<rparr>\<rparr>"
  have "quiet w w1" by (simp add: w1_def quiet_evict)
  moreover have "quiet w1 w2" unfolding w2_def by (rule quiet_set_blk) simp_all
  moreover have "quiet w2 w3" unfolding w3_def by (rule quiet_kv)
  ultimately have "quiet w (touch a w3)" by (blast intro: quiet_trans quiet_touch)
  then show ?thesis
    unfolding register_block_def Let_def w1_def [symmetric] w2_def [symmetric] w3_def [symmetric] .
qed

lemma quiet_register_blocks: "quiet w (register_blocks bs keys w)"
  unfolding register_blocks_def
proof (induction "zip bs keys" arbitrary: bs keys w)
  case Nil
  then show ?case by (simp flip: Nil)
next
  case (Cons p ps)
  then obtain b bs' k ks' where "bs = b # bs'" "keys = k # ks'" "ps = zip bs' ks'"
    by (cases bs; cases keys) auto
  then show ?case
    using Cons.hyps(1) [of bs' ks'] quiet_register_block [of w b k] by (auto intro: quiet_trans)
qed

lemma quiet_register_output_blocks: "quiet w (register_output_blocks H r bs w)"
  unfolding register_output_blocks_def Let_def
  by (auto intro: quiet_trans [OF quiet_kv quiet_register_blocks] split: prod.splits)

section \<open>Free and held blocks add up\<close>

lemma card_pool_blocks:
  assumes "pool_inv m p"
  shows "finite (pool_blocks p)" and "int (card (pool_blocks p)) = bp_next_fresh p"
proof -
  have dom: "dom (bp_materialized p) = {0..<bp_next_fresh p}" and pos: "0 \<le> bp_next_fresh p"
    using assms by (simp_all add: pool_inv_def)
  have img: "pool_blocks p = (\<lambda>n. the (bp_materialized p n)) ` {0..<bp_next_fresh p}"
    unfolding pool_blocks_def dom [symmetric] by (force simp: ran_def image_iff dom_def)
  have num: "block_number (m_heap m (the (bp_materialized p n))) = n" if "n \<in> {0..<bp_next_fresh p}" for n
  proof -
    obtain a where "bp_materialized p n = Some a" using \<open>n \<in> _\<close> unfolding dom [symmetric] by blast
    with assms show ?thesis by (simp add: pool_inv_def blocks_ok_def)
  qed
  then have "inj_on (\<lambda>n. the (bp_materialized p n)) {0..<bp_next_fresh p}"
    by (rule inj_on_inverseI [where g = "\<lambda>a. block_number (m_heap m a)"])
  then have "card (pool_blocks p) = card {0..<bp_next_fresh p}"
    unfolding img by (rule card_image)
  then show "int (card (pool_blocks p)) = bp_next_fresh p" using pos by simp
  show "finite (pool_blocks p)" unfolding img by simp
qed

definition held :: "addr multiset \<Rightarrow> 'z world_scheme \<Rightarrow> device \<Rightarrow> addr set" where
  "held M w d = pool_blocks (w_pool w d) \<inter> set_mset M"

lemma free_count:
  assumes "al_inv M w"
  shows "al_get_num_free_blocks d w = al_num_blocks (w_al w d) - int (card (held M w d))"
proof -
  define p where "p = w_pool w d"
  have inv: "pool_inv (w_mem w) p" and nb: "al_num_blocks (w_al w d) = bp_num_blocks p"
    using al_invD [OF assms] by (simp_all add: p_def)
  then have fq: "fq_inv (m_heap (w_mem w)) (bp_free p)" by (simp add: pool_inv_def blocks_ok_def)
  note fin = card_pool_blocks [OF inv]
  have "set (fq_list (bp_free p)) = pool_blocks p - held M w d"
    using al_invD(6) [OF assms, of _ d] queued_owned [OF pool_inv_blocks [OF inv]]
    by (auto simp: p_def held_def)
  then have "fq_len (bp_free p) = card (pool_blocks p - held M w d)"
    by (metis fq_len_eq [OF fq] distinct_card [OF distinct_fq_list [OF fq]])
  moreover have "card (pool_blocks p - held M w d) = card (pool_blocks p) - card (held M w d)"
    using fin by (intro card_Diff_subset) (auto simp: held_def p_def)
  moreover have "card (held M w d) \<le> card (pool_blocks p)"
    using fin by (intro card_mono) (auto simp: held_def p_def)
  ultimately show ?thesis
    using fin(2) nb by (simp add: al_get_num_free_blocks_def bp_get_num_free_blocks_def p_def [symmetric])
qed

lemma held_add:
  assumes "a \<in> pool_blocks (w_pool w d)"
  shows "held (add_mset a M) w d = insert a (held M w d)"
  using assms by (auto simp: held_def)

section \<open>The index invariant\<close>

text \<open>
  Every indexed block belongs to a pool, and an indexed GPU block is full, marked as cached and
  carries the key it is indexed under.
\<close>

definition kv_ok :: "'z world_scheme \<Rightarrow> bool" where
  "kv_ok w \<longleftrightarrow>
     (\<forall>key a. kv_cache (w_kv w) key = Some a \<longrightarrow> a \<in> world_blocks w \<and>
        (device_of (blk w a) = GPU \<longrightarrow>
           cached (blk w a) \<and> is_full (blk w a) \<and> block_hash (blk w a) = Some key))"

lemma kv_okD:
  assumes "kv_ok w" "kv_cache (w_kv w) key = Some a"
  shows "a \<in> world_blocks w"
    and "device_of (blk w a) = GPU \<Longrightarrow>
      cached (blk w a) \<and> is_full (blk w a) \<and> block_hash (blk w a) = Some key"
  using assms by (auto simp: kv_ok_def)

text \<open>
  The index survives a change of state that keeps the pools' blocks and does not touch the cache
  fields of any indexed GPU block.
\<close>

lemma kv_ok_keep:
  assumes "kv_ok w" and "\<And>key a. kv_cache (w_kv w') key = Some a \<Longrightarrow> kv_cache (w_kv w) key = Some a"
    and "world_blocks w \<subseteq> world_blocks w'"
    and "\<And>key a. kv_cache (w_kv w') key = Some a \<Longrightarrow>
      device_of (blk w' a) = device_of (blk w a) \<and> (device_of (blk w a) = GPU \<longrightarrow>
      cached (blk w' a) = cached (blk w a) \<and> is_full (blk w' a) = is_full (blk w a) \<and>
      block_hash (blk w' a) = block_hash (blk w a))"
  shows "kv_ok w'"
  unfolding kv_ok_def
proof (intro allI impI)
  fix key a assume k: "kv_cache (w_kv w') key = Some a"
  from kv_okD [OF assms(1) assms(2) [OF k]] assms(3) assms(4) [OF k]
  show "a \<in> world_blocks w' \<and> (device_of (blk w' a) = GPU \<longrightarrow>
    cached (blk w' a) \<and> is_full (blk w' a) \<and> block_hash (blk w' a) = Some key)" by auto
qed

lemma world_blocks_set_blk [simp]: "world_blocks (set_blk a f w) = world_blocks w"
  by (simp add: world_blocks_def)

lemma world_blocks_kv [simp]: "world_blocks (w\<lparr>w_kv := kv\<rparr>) = world_blocks w"
  by (simp add: world_blocks_def)

lemma world_blocks_quiet: "quiet w w' \<Longrightarrow> world_blocks w' = world_blocks w"
  by (simp add: world_blocks_def quiet_def)

lemma evict_sel:
  "blk (evict a w) b = (if b = a then clear_cache_metadata (blk w a) else blk w b)"
  "kv_input_keys (w_kv (evict a w)) = kv_input_keys (w_kv w)"
  "kv_cache (w_kv (evict a w)) key =
     (if block_hash (blk w a) = Some key \<and> kv_cache (w_kv w) key = Some a then None
      else kv_cache (w_kv w) key)"
  by (auto simp: evict_def Let_def split: option.splits)

lemma kv_ok_evict:
  assumes "kv_ok w" and "device_of (blk w a) = GPU"
  shows "kv_ok (evict a w)" and "kv_cache (w_kv (evict a w)) key \<noteq> Some a"
proof -
  show none: "kv_cache (w_kv (evict a w)) key \<noteq> Some a" for key
    using kv_okD(2) [OF assms(1), of key a] assms(2) by (auto simp: evict_sel)
  show "kv_ok (evict a w)"
  proof (rule kv_ok_keep [OF assms(1)])
    show "kv_cache (w_kv w) key = Some b" if "kv_cache (w_kv (evict a w)) key = Some b" for key b
      using that by (auto simp: evict_sel split: if_splits)
    show "world_blocks w \<subseteq> world_blocks (evict a w)"
      by (simp add: world_blocks_quiet [OF quiet_evict])
  qed (use none in \<open>auto simp: evict_sel\<close>)
qed

lemma touch_sel:
  "blk (touch a w) b = (if b = a then (blk w a)\<lparr>last_accessed := Suc (kv_access_counter (w_kv w))\<rparr> else blk w b)"
  "kv_cache (w_kv (touch a w)) = kv_cache (w_kv w)"
  "kv_input_keys (w_kv (touch a w)) = kv_input_keys (w_kv w)"
  by (simp_all add: touch_def Let_def)

lemma kv_ok_touch: "kv_ok w \<Longrightarrow> kv_ok (touch a w)"
  by (erule kv_ok_keep) (auto simp: touch_sel world_blocks_quiet [OF quiet_touch])

lemma kv_ok_register_block:
  assumes "kv_ok w" and "a \<in> world_blocks w"
  shows "kv_ok (register_block a key w)"
proof -
  define w1 where "w1 = (if block_hash (blk w a) \<noteq> None \<and> block_hash (blk w a) \<noteq> Some key then evict a w else w)"
  define w2 where "w2 = set_blk a (\<lambda>b. b\<lparr>block_hash := Some key, is_full := True, cached := True\<rparr>) w1"
  define w3 where "w3 = w2\<lparr>w_kv := (w_kv w2)\<lparr>kv_cache := (kv_cache (w_kv w2))(key \<mapsto> a)\<rparr>\<rparr>"
  have bl: "world_blocks w3 = world_blocks w"
    using world_blocks_quiet [OF quiet_evict, of a w] by (simp add: w3_def w2_def w1_def)
  have "kv_ok w3"
    unfolding kv_ok_def
  proof (intro allI impI)
    fix k b assume k: "kv_cache (w_kv w3) k = Some b"
    show "b \<in> world_blocks w3 \<and> (device_of (blk w3 b) = GPU \<longrightarrow>
      cached (blk w3 b) \<and> is_full (blk w3 b) \<and> block_hash (blk w3 b) = Some k)"
    proof (cases "k = key")
      case True
      then show ?thesis using k assms(2) bl by (auto simp: w3_def w2_def)
    next
      case False
      then have old: "kv_cache (w_kv w) k = Some b" "kv_cache (w_kv w1) k = Some b"
        using k by (auto simp: w3_def w2_def w1_def evict_sel split: if_splits)
      then have "b \<noteq> a \<or> device_of (blk w a) \<noteq> GPU"
        using False kv_okD(2) [OF assms(1) old(1)]
        by (auto simp: w1_def evict_sel split: if_splits)
      then show ?thesis
        using kv_okD [OF assms(1) old(1)] bl
        by (auto simp: w3_def w2_def w1_def evict_sel)
    qed
  qed
  then have "kv_ok (touch a w3)" by (rule kv_ok_touch)
  then show ?thesis
    unfolding register_block_def Let_def w1_def [symmetric] w2_def [symmetric] w3_def [symmetric] .
qed

lemma kv_ok_register_blocks:
  assumes "kv_ok w" and "set bs \<subseteq> world_blocks w"
  shows "kv_ok (register_blocks bs keys w)"
  using assms
proof (induction bs arbitrary: keys w)
  case (Cons b bs)
  show ?case
  proof (cases keys)
    case (Cons k ks)
    have "kv_ok (register_blocks bs ks (register_block b k w))"
      using Cons.prems
      by (intro Cons.IH kv_ok_register_block)
        (auto simp: world_blocks_quiet [OF quiet_register_block])
    then show ?thesis by (simp add: Cons register_blocks_def)
  qed (use Cons.prems in \<open>simp add: register_blocks_def\<close>)
qed (simp add: register_blocks_def)

lemma kv_ok_kv_irrelevant:
  "kv_ok w \<Longrightarrow> kv_cache kv = kv_cache (w_kv w) \<Longrightarrow> kv_ok (w\<lparr>w_kv := kv\<rparr>)"
  by (erule kv_ok_keep) auto

lemma kv_ok_register_output_blocks:
  assumes "kv_ok w" and "set bs \<subseteq> world_blocks w"
  shows "kv_ok (register_output_blocks H r bs w)"
proof -
  have "kv_ok (register_blocks (take n (drop m bs)) ks (w\<lparr>w_kv := (w_kv w)\<lparr>kv_chains := cc\<rparr>\<rparr>))"
    and "kv_ok (w\<lparr>w_kv := (w_kv w)\<lparr>kv_chains := cc\<rparr>\<rparr>)" for n m ks cc
    using assms by (auto intro!: kv_ok_register_blocks kv_ok_kv_irrelevant dest!: in_set_takeD in_set_dropD)
  then show ?thesis
    using assms(1) unfolding register_output_blocks_def Let_def by (auto split: prod.splits)
qed

section \<open>What every allocator operation keeps\<close>

definition winv :: "addr multiset \<Rightarrow> 'z world_scheme \<Rightarrow> bool" where
  "winv M w \<longleftrightarrow> al_inv M w \<and> kv_ok w \<and> al_has_kv (w_al w GPU) \<and> \<not> al_has_kv (w_al w CPU)"

definition same_content :: "prefix_key phys_block \<Rightarrow> prefix_key phys_block \<Rightarrow> bool" where
  "same_content b b' \<longleftrightarrow> device_of b' = device_of b \<and> block_number b' = block_number b \<and>
     block_hash b' = block_hash b \<and> is_full b' = is_full b \<and> cached b' = cached b"

text \<open>
  \<open>keeps M w w'\<close>: the contents of the blocks in \<open>M\<close>, the capacities, the memoised keys and everything
  outside the allocators are as they were.
\<close>

definition keeps :: "addr multiset \<Rightarrow> 'z world_scheme \<Rightarrow> 'z world_scheme \<Rightarrow> bool" where
  "keeps M w w' \<longleftrightarrow> world.more w' = world.more w \<and>
     (\<forall>b \<in># M. same_content (blk w b) (blk w' b)) \<and>
     (\<forall>d. al_num_blocks (w_al w' d) = al_num_blocks (w_al w d)) \<and>
     kv_input_keys (w_kv w') = kv_input_keys (w_kv w) \<and> kv_chains (w_kv w') = kv_chains (w_kv w) \<and>
     kv_block_size (w_kv w') = kv_block_size (w_kv w) \<and> kv_model (w_kv w') = kv_model (w_kv w) \<and>
     world_blocks w \<subseteq> world_blocks w'"

lemma same_content_refl [simp]: "same_content b b"
  by (simp add: same_content_def)

lemma keeps_refl [simp]: "keeps M w w"
  by (simp add: keeps_def)

lemma keeps_trans: "keeps M w w' \<Longrightarrow> keeps M' w' w'' \<Longrightarrow> M \<subseteq># M' \<Longrightarrow> keeps M w w''"
  by (fastforce simp: keeps_def same_content_def dest: mset_subset_eqD)

lemma keeps_mono: "keeps M' w w' \<Longrightarrow> M \<subseteq># M' \<Longrightarrow> keeps M w w'"
  by (auto simp: keeps_def dest: mset_subset_eqD)

lemma set_pool_sel [simp]:
  "w_mem (set_pool d p w) = w_mem w" "w_kv (set_pool d p w) = w_kv w"
  "w_pool (set_pool d p w) e = (if e = d then p else w_pool w e)"
  "al_has_kv (w_al (set_pool d p w) e) = al_has_kv (w_al w e)"
  "al_num_blocks (w_al (set_pool d p w) e) = al_num_blocks (w_al w e)"
  "world.more (set_pool d p w) = world.more w"
  by (simp_all add: set_pool_def)

lemma evict_frame [simp]:
  "w_al (evict a w) = w_al w" "world.more (evict a w) = world.more w"
  "m_next (w_mem (evict a w)) = m_next (w_mem w)"
  "kv_chains (w_kv (evict a w)) = kv_chains (w_kv w)"
  "kv_block_size (w_kv (evict a w)) = kv_block_size (w_kv w)" "kv_model (w_kv (evict a w)) = kv_model (w_kv w)"
  using quiet_evict [of w a]
  by (auto simp: quiet_def) (auto simp: evict_def Let_def split: option.splits)

lemma touch_frame [simp]:
  "w_al (touch a w) = w_al w" "world.more (touch a w) = world.more w"
  "m_next (w_mem (touch a w)) = m_next (w_mem w)"
  "kv_chains (w_kv (touch a w)) = kv_chains (w_kv w)"
  "kv_block_size (w_kv (touch a w)) = kv_block_size (w_kv w)" "kv_model (w_kv (touch a w)) = kv_model (w_kv w)"
  by (simp_all add: touch_def Let_def)

lemma al_invI:
  assumes "\<And>d. pool_inv (w_mem w) (w_pool w d)" "\<And>d. bp_device (w_pool w d) = d"
    "\<And>d. al_num_blocks (w_al w d) = bp_num_blocks (w_pool w d)"
    "\<And>d a. a \<in> pool_blocks (w_pool w d) \<Longrightarrow> ref_count (blk w a) = count M a"
    "\<And>d a. a \<in> pool_blocks (w_pool w d) \<Longrightarrow> a \<in> set (fq_list (bp_free (w_pool w d))) \<longleftrightarrow> a \<notin># M"
    "set_mset M \<subseteq> world_blocks w"
  shows "al_inv M w"
  using assms by (simp add: al_inv_def)

lemma other_device: "(e :: device) \<noteq> d \<Longrightarrow> a \<in> pool_blocks (w_pool w d) \<Longrightarrow> al_inv M w \<Longrightarrow>
    a \<notin> pool_blocks (w_pool w e)"
  using pool_device by metis

lemma world_blocks_pool: "world_blocks w = (\<Union>d. pool_blocks (w_pool w d))"
  by (auto simp: world_blocks_def) (metis device.exhaust)

text \<open>A block that leaves the queue, or is made, and gets its first reference.\<close>

lemma al_inv_grant:
  assumes inv: "al_inv M w"
    and p: "pool_inv m p" "bp_device p = d" "bp_num_blocks p = bp_num_blocks (w_pool w d)"
      "pool_blocks p = insert a (pool_blocks (w_pool w d))"
      "set (fq_list (bp_free p)) = set (fq_list (bp_free (w_pool w d))) - {a}"
    and a: "a = m_next (w_mem w) \<and> a \<notin> pool_blocks (w_pool w d) \<or> a \<in> set (fq_list (bp_free (w_pool w d)))"
    and w': "\<And>e. w_pool w' e = (if e = d then p else w_pool w e)"
      "\<And>e. al_num_blocks (w_al w' e) = al_num_blocks (w_al w e)"
      "\<And>b. b \<noteq> a \<Longrightarrow> blk w' b = blk w b" "m_next (w_mem w) \<le> m_next m" "m_next (w_mem w') = m_next m"
      "\<And>b. block_number (blk w' b) = block_number (m_heap m b)" "\<And>b. device_of (blk w' b) = device_of (m_heap m b)"
      "ref_count (blk w' a) = 1"
  shows "a \<notin># M" and "al_inv (add_mset a M) w'"
proof -
  have below: "b < m_next (w_mem w)" if "b \<in> pool_blocks (w_pool w e)" for b e
    using pool_blocks_below [OF al_invD(2) [OF inv] that] .
  have fresh_out: "a \<notin> pool_blocks (w_pool w e)" if "e \<noteq> d" for e
    using a that below other_device [OF that _ inv] queued_owned [OF al_invD(2) [OF inv]] by blast
  show nM: "a \<notin># M"
    using a
  proof
    assume "a = m_next (w_mem w) \<and> a \<notin> pool_blocks (w_pool w d)"
    then have "a \<notin> world_blocks w" using below by (auto simp: world_blocks_pool)
    then show ?thesis using al_invD(7) [OF inv] by blast
  next
    assume "a \<in> set (fq_list (bp_free (w_pool w d)))"
    then show ?thesis
      using al_invD(6) [OF inv, of a d] queued_owned [OF al_invD(2) [OF inv], of a d] by blast
  qed
  show "al_inv (add_mset a M) w'"
  proof (rule al_invI)
    show "pool_inv (w_mem w') (w_pool w' e)" for e
    proof (cases "e = d")
      case True
      have "pool_inv (w_mem w') p" by (rule pool_inv_mem [OF p(1)]) (simp_all add: w')
      then show ?thesis by (simp add: True w')
    next
      case False
      have "pool_inv (w_mem w') (w_pool w e)"
        by (rule pool_inv_mem [OF al_invD(1) [OF inv]]) (use fresh_out [OF False] w'(3-5) in force)+
      then show ?thesis by (simp add: False w')
    qed
    show "bp_device (w_pool w' e) = e" for e using al_invD(3) [OF inv] by (simp add: w' p)
    show "al_num_blocks (w_al w' e) = bp_num_blocks (w_pool w' e)" for e
      using al_invD(4) [OF inv] by (simp add: w' p)
    show "ref_count (blk w' b) = count (add_mset a M) b" if "b \<in> pool_blocks (w_pool w' e)" for e b
    proof (cases "b = a")
      case True
      then show ?thesis using nM by (simp add: w'(8) count_eq_zero_iff)
    next
      case False
      then have "b \<in> pool_blocks (w_pool w e)" using that p w' by (auto split: if_splits)
      then show ?thesis using False al_invD(5) [OF inv] by (simp add: w'(3))
    qed
    show "b \<in> set (fq_list (bp_free (w_pool w' e))) \<longleftrightarrow> b \<notin># add_mset a M"
      if "b \<in> pool_blocks (w_pool w' e)" for e b
      using that al_invD(6) [OF inv, of b e] p fresh_out [of e] w'(1) [of e]
        queued_owned [OF al_invD(2) [OF inv], of b e]
      by (cases "b = a"; cases "e = d") auto
    show "set_mset (add_mset a M) \<subseteq> world_blocks w'"
      using al_invD(7) [OF inv] unfolding world_blocks_def w'(1) by (cases d) (auto simp: p(4))
  qed
qed

text \<open>
  Allocation: with a free block it succeeds, the block had no holder, now has one, carries no cached
  content and is not indexed; without one it raises and changes nothing.
\<close>

lemma al_allocate_Ok:
  assumes inv: "winv M w" and free: "0 < al_get_num_free_blocks d w"
  obtains a w' where "al_allocate d w = (Ok a, w')" and "a \<notin># M" and "winv (add_mset a M) w'"
    and "keeps M w w'" and "a \<in> pool_blocks (w_pool w' d)" and "device_of (blk w' a) = d"
    and "\<not> cached (blk w' a)" and "\<And>key. d = GPU \<Longrightarrow> kv_cache (w_kv w') key \<noteq> Some a"
    and "\<And>e. pool_blocks (w_pool w' e) = (if e = d then insert a (pool_blocks (w_pool w d)) else pool_blocks (w_pool w e))"
proof -
  have al: "al_inv M w" and kv: "kv_ok w" and has: "al_has_kv (w_al w GPU)" "\<not> al_has_kv (w_al w CPU)"
    using inv by (simp_all add: winv_def)
  obtain a m p where pop: "pop_free_block (w_mem w, w_pool w d) = (Ok a, m, p)" "pool_inv m p"
    "pool_blocks p = insert a (pool_blocks (w_pool w d))"
    "set (fq_list (bp_free p)) = set (fq_list (bp_free (w_pool w d))) - {a}"
    "\<And>b. b \<noteq> a \<Longrightarrow> m_heap m b = blk w b" "m_next (w_mem w) \<le> m_next m"
    "bp_device p = bp_device (w_pool w d)" "bp_num_blocks p = bp_num_blocks (w_pool w d)"
    "a = m_next (w_mem w) \<and> a \<notin> pool_blocks (w_pool w d) \<and>
       m_heap m a = new_block (bp_device (w_pool w d)) (bp_next_fresh (w_pool w d)) (bp_block_size (w_pool w d)) \<or>
     a \<in> set (fq_list (bp_free (w_pool w d))) \<and> m_heap m a = blk w a"
    by (rule pop_free_block_Ok [OF al_invD(1) [OF al] free [unfolded al_get_num_free_blocks_def]])
      (rule that; assumption)
  define w1 where "w1 = set_pool d p (w\<lparr>w_mem := m\<rparr>)"
  define w2 where "w2 = (if cached (blk w1 a) then
      (if \<not> al_has_kv (w_al w1 d) then set_blk a clear_cache_metadata w1 else evict a w1) else w1)"
  define w' where "w' = set_blk a (\<lambda>b. b\<lparr>ref_count := ref_count b + 1\<rparr>) w2"
  have bd: "bp_device (w_pool w d) = d" using al_invD(3) [OF al] .
  have dev1: "device_of (m_heap m a) = d"
    using pop(9) bd pool_device [OF al] queued_owned [OF al_invD(2) [OF al]] by auto
  have dev2: "device_of (blk w1 a) = d" by (simp add: w1_def dev1)
  have ref0: "ref_count (m_heap m a) = 0"
    using pop(9) al_invD(5,6) [OF al, of a d] queued_owned [OF al_invD(2) [OF al], of a d]
    by (auto simp: count_eq_zero_iff)
  have q12: "quiet w1 w2"
    unfolding w2_def by (auto intro: quiet_evict quiet_set_blk)
  have w1b: "blk w1 b = m_heap m b" for b by (simp add: w1_def)
  have w2b: "blk w2 b = blk w1 b" if "b \<noteq> a" for b
    using that by (simp add: w2_def evict_sel)
  have w2n: "block_number (blk w2 b) = block_number (m_heap m b)" "device_of (blk w2 b) = device_of (m_heap m b)"
    "ref_count (blk w2 b) = ref_count (m_heap m b)" for b
    using q12 by (simp_all add: quiet_def w1b)
  have eq: "al_allocate d w = (Ok a, w')"
    unfolding al_allocate_def pop(1) Let_def prod.case w1_def [symmetric] and_then_Ok
      w2_def [symmetric] w'_def [symmetric]
    using free ref0 w2n(3) [of a] by simp
  have pools: "w_pool w' e = (if e = d then p else w_pool w e)"
    and nbs: "al_num_blocks (w_al w' e) = al_num_blocks (w_al w e)"
    and kvs: "al_has_kv (w_al w' e) = al_has_kv (w_al w e)" for e
    using q12 by (simp_all add: w'_def quiet_def w1_def)
  have w'b: "blk w' b = blk w b" if "b \<noteq> a" for b
    using that w2b [OF that] pop(5) [OF that] by (simp add: w'_def w1b)
  have w'n: "block_number (blk w' b) = block_number (m_heap m b)" "device_of (blk w' b) = device_of (m_heap m b)" for b
    using w2n [of b] w2n [of a] by (simp_all add: w'_def)
  have w'ref: "ref_count (blk w' a) = 1" using w2n(3) [of a] ref0 by (simp add: w'_def)
  have next': "m_next (w_mem w') = m_next m" using q12 by (simp add: w'_def quiet_def w1_def)
  have src: "a = m_next (w_mem w) \<and> a \<notin> pool_blocks (w_pool w d) \<or> a \<in> set (fq_list (bp_free (w_pool w d)))"
    using pop(9) by blast
  note grant = al_inv_grant [OF al pop(2) pop(7) [unfolded bd] pop(8,3,4) src pools nbs w'b pop(6) next' w'n w'ref]
  have wb: "world_blocks w \<subseteq> world_blocks w'"
    unfolding world_blocks_def pools using pop(3) by (cases d) auto
  have kvsel: "kv_input_keys (w_kv w') = kv_input_keys (w_kv w)" "kv_chains (w_kv w') = kv_chains (w_kv w)"
    "kv_block_size (w_kv w') = kv_block_size (w_kv w)" "kv_model (w_kv w') = kv_model (w_kv w)"
    by (simp_all add: w'_def w2_def w1_def evict_sel)
  have "keeps M w w'"
    using grant(1) w'b wb nbs kvsel q12 by (auto simp: keeps_def w'_def quiet_def w1_def)
  moreover have kv1: "kv_ok w1"
  proof (rule kv_ok_keep [OF kv])
    show "world_blocks w \<subseteq> world_blocks w1"
      using pop(3) unfolding world_blocks_def by (cases d) (auto simp: w1_def)
    fix key b assume "kv_cache (w_kv w1) key = Some b"
    then have k: "kv_cache (w_kv w) key = Some b" by (simp add: w1_def)
    then show "kv_cache (w_kv w) key = Some b" .
    have "b < m_next (w_mem w)"
      using kv_okD(1) [OF kv k] pool_blocks_below [OF al_invD(2) [OF al]] by (auto simp: world_blocks_def)
    then have "m_heap m b = blk w b" using pop(5) [of b] pop(9) by (cases "b = a") auto
    then show "device_of (blk w1 b) = device_of (blk w b) \<and> (device_of (blk w b) = GPU \<longrightarrow>
      cached (blk w1 b) = cached (blk w b) \<and> is_full (blk w1 b) = is_full (blk w b) \<and>
      block_hash (blk w1 b) = block_hash (blk w b))" by (simp add: w1b)
  qed
  moreover have none: "kv_cache (w_kv w') key \<noteq> Some a" if "d = GPU" for key
    using that kv_ok_evict(2) [OF kv1, of a key] kv_okD(2) [OF kv1, of key a] dev2 has
    by (auto simp: w'_def w2_def w1_def)
  moreover have "kv_ok w2"
  proof (cases d)
    case GPU
    then show ?thesis using kv1 kv_ok_evict(1) [OF kv1] dev2 has by (simp add: w2_def w1_def)
  next
    case CPU
    have "kv_ok (set_blk a clear_cache_metadata w1)"
      by (rule kv_ok_keep [OF kv1]) (use CPU dev2 in auto)
    then show ?thesis using kv1 has CPU by (simp add: w2_def w1_def)
  qed
  then have "kv_ok w'" by (rule kv_ok_keep) (auto simp: w'_def)
  moreover have "\<not> cached (blk w' a)" by (simp add: w'_def w2_def evict_sel)
  ultimately show thesis
    using that [OF eq grant(1) _ _ _ _ _ none] grant(2) has kvs pools pop(3) w'n(2) [of a] dev1
    by (auto simp: winv_def)
qed

lemma al_allocate_none:
  assumes "al_inv M w" and "\<not> 0 < al_get_num_free_blocks d w"
  shows "al_allocate d w = (Raise OutOfBlocksError, w)"
proof -
  have "0 \<le> al_get_num_free_blocks d w"
    using num_free_view [OF al_invD(1) [OF assms(1)]] by (simp add: al_get_num_free_blocks_def)
  then show ?thesis using assms(2) by (simp add: al_allocate_def)
qed

text \<open>One block of a pool gains or loses references.\<close>

lemma al_inv_move:
  assumes inv: "al_inv M w" and a: "a \<in> pool_blocks (w_pool w d)"
    and q: "fq_inv (m_heap (w_mem w)) q"
      "set (fq_list q) = (if a \<in># M' then set (fq_list (bp_free (w_pool w d))) - {a}
         else insert a (set (fq_list (bp_free (w_pool w d)))))"
    and M': "\<And>b. b \<noteq> a \<Longrightarrow> count M' b = count M b"
    and w': "\<And>e. w_pool w' e = (if e = d then (w_pool w d)\<lparr>bp_free := q\<rparr> else w_pool w e)"
      "\<And>e. al_num_blocks (w_al w' e) = al_num_blocks (w_al w e)"
      "m_next (w_mem w') = m_next (w_mem w)"
      "\<And>b. block_number (blk w' b) = block_number (blk w b)" "\<And>b. device_of (blk w' b) = device_of (blk w b)"
      "\<And>b. b \<noteq> a \<Longrightarrow> ref_count (blk w' b) = ref_count (blk w b)" "ref_count (blk w' a) = count M' a"
  shows "al_inv M' w'"
proof -
  have mem: "b \<in># M' \<longleftrightarrow> b \<in># M" if "b \<noteq> a" for b
    using M' [OF that] by (metis count_greater_zero_iff)
  have out: "a \<notin> pool_blocks (w_pool w e)" if "e \<noteq> d" for e using other_device [OF that a inv] .
  have qsub: "set (fq_list q) \<subseteq> pool_blocks (w_pool w d)"
    using q(2) a queued_owned [OF al_invD(2) [OF inv], of _ d] by (auto split: if_splits)
  show ?thesis
  proof (rule al_invI)
    show "pool_inv (w_mem w') (w_pool w' e)" for e
    proof -
      have "pool_inv (w_mem w) (w_pool w' e)"
      proof (cases "e = d")
        case True
        have "blocks_ok (w_mem w) ((w_pool w d)\<lparr>bp_free := q\<rparr>)"
          by (rule blocks_ok_queue [OF al_invD(2) [OF inv] q(1)])
            (use qsub al_owns [OF inv] in blast)
        then show ?thesis using al_invD(1) [OF inv, of d] by (simp add: True w'(1) pool_inv_def)
      qed (use al_invD(1) [OF inv] w'(1) in simp)
      then show ?thesis by (rule pool_inv_mem) (simp_all add: w')
    qed
    show "bp_device (w_pool w' e) = e" for e using al_invD(3) [OF inv] by (simp add: w')
    show "al_num_blocks (w_al w' e) = bp_num_blocks (w_pool w' e)" for e
      using al_invD(4) [OF inv] by (simp add: w')
    fix e b assume "b \<in> pool_blocks (w_pool w' e)"
    then have b: "b \<in> pool_blocks (w_pool w e)" by (simp add: w' split: if_splits)
    show "ref_count (blk w' b) = count M' b"
      using al_invD(5) [OF inv b] w'(6,7) M' by (cases "b = a") simp_all
    show "b \<in> set (fq_list (bp_free (w_pool w' e))) \<longleftrightarrow> b \<notin># M'"
      using al_invD(6) [OF inv b] b out [of e] q(2) mem [of b] w'(1) [of e]
      by (cases "b = a"; cases "e = d") auto
  next
    have "world_blocks w' = world_blocks w" unfolding world_blocks_def w'(1) by (cases d) auto
    moreover have "a \<in> world_blocks w" using a unfolding world_blocks_pool by blast
    moreover have "b \<in> world_blocks w" if "b \<in># M'" for b
      using al_invD(7) [OF inv] mem [of b] that \<open>a \<in> world_blocks w\<close> by (cases "b = a") auto
    ultimately show "set_mset M' \<subseteq> world_blocks w'" by blast
  qed
qed

lemma al_acquire_Ok:
  assumes inv: "winv M w" and a: "a \<in> pool_blocks (w_pool w d)"
  obtains w' where "al_acquire d a w = (Ok (), w')" and "winv (add_mset a M) w'"
    and "\<And>N. keeps N w w'" and "\<And>e. pool_blocks (w_pool w' e) = pool_blocks (w_pool w e)"
    and "kv_cache (w_kv w') = kv_cache (w_kv w)"
proof -
  have al: "al_inv M w" and kv: "kv_ok w" and has: "al_has_kv (w_al w GPU)" "\<not> al_has_kv (w_al w CPU)"
    using inv by (simp_all add: winv_def)
  define w1 where "w1 = (if ref_count (blk w a) = 0
    then set_pool d (remove_from_free_queue (w_mem w) (w_pool w d) a) w else w)"
  define w2 where "w2 = set_blk a (\<lambda>b. b\<lparr>ref_count := ref_count b + 1\<rparr>) w1"
  define w' where "w' = (if al_has_kv (w_al w2 d) then touch a w2 else w2)"
  have eq: "al_acquire d a w = (Ok (), w')"
    unfolding al_acquire_def validate_ok [OF al a] and_then_Ok Let_def w1_def [symmetric]
      w2_def [symmetric] w'_def [symmetric] ..
  have own: "owns (w_mem w) (w_pool w d) a" using al_owns [OF al] a by simp
  note rm = remove_from_free_queue_ok [OF al_invD(2) [OF al] own]
  define q where "q = bp_free (w_pool w1 d)"
  have ref: "ref_count (blk w a) = count M a" using al_invD(5) [OF al a] .
  have pools: "w_pool w' e = (if e = d then (w_pool w d)\<lparr>bp_free := q\<rparr> else w_pool w e)" for e
    by (simp add: w'_def w2_def w1_def q_def remove_from_free_queue_def)
  have sc: "same_content (blk w b) (blk w' b)" for b
    by (simp add: w'_def w2_def w1_def touch_sel same_content_def)
  then have cont: "block_number (blk w' b) = block_number (blk w b)" "device_of (blk w' b) = device_of (blk w b)"
    "cached (blk w' b) = cached (blk w b)" "is_full (blk w' b) = is_full (blk w b)"
    "block_hash (blk w' b) = block_hash (blk w b)" for b
    by (simp_all add: same_content_def)
  have refs: "ref_count (blk w' b) = (if b = a then Suc (ref_count (blk w a)) else ref_count (blk w b))" for b
    by (simp add: w'_def w2_def w1_def touch_sel)
  have "al_inv (add_mset a M) w'"
  proof (rule al_inv_move [OF al a _ _ _ pools])
    show "fq_inv (m_heap (w_mem w)) q"
      using rm(1) al_invD(2) [OF al, of d] by (simp add: q_def w1_def blocks_ok_def)
    have "a \<in> set (fq_list (bp_free (w_pool w d))) \<longleftrightarrow> count M a = 0"
      using al_invD(6) [OF al a] by (simp add: count_eq_zero_iff)
    then show "set (fq_list q) = (if a \<in># add_mset a M then set (fq_list (bp_free (w_pool w d))) - {a}
         else insert a (set (fq_list (bp_free (w_pool w d)))))"
      using rm(2) ref by (auto simp: q_def w1_def)
    show "m_next (w_mem w') = m_next (w_mem w)" by (simp add: w'_def w2_def w1_def)
    show "al_num_blocks (w_al w' e) = al_num_blocks (w_al w e)" for e by (simp add: w'_def w2_def w1_def)
  qed (simp_all add: cont refs ref)
  moreover have wb: "world_blocks w' = world_blocks w" unfolding world_blocks_def pools by simp
  have kvs: "kv_cache (w_kv w') = kv_cache (w_kv w)" by (simp add: w'_def w2_def w1_def touch_sel)
  moreover have "kv_ok w'" by (rule kv_ok_keep [OF kv]) (simp_all add: wb kvs cont)
  ultimately have "winv (add_mset a M) w'"
    using has by (simp add: winv_def w'_def w2_def w1_def)
  moreover have "keeps N w w'" for N
    using wb sc by (simp add: keeps_def) (simp add: w'_def w2_def w1_def touch_sel)
  ultimately show thesis using that [OF eq] kvs pools by simp
qed

lemma queue_return:
  assumes al: "al_inv M w" and a: "a \<in> pool_blocks (w_pool w d)"
    and num: "\<And>b. block_number (h b) = block_number (blk w b)"
    and q': "q' \<in> {fq_append h (bp_free (w_pool w d)) a, fq_append_unique h (bp_free (w_pool w d)) a,
      fq_append_lru h (bp_free (w_pool w d)) a}"
  shows "fq_inv (m_heap (w_mem w)) q'" and "set (fq_list q') = insert a (set (fq_list (bp_free (w_pool w d))))"
proof -
  define q where "q = bp_free (w_pool w d)"
  have fqw: "fq_inv (m_heap (w_mem w)) q" using al_invD(2) [OF al, of d] by (simp add: q_def blocks_ok_def)
  have cong: "fq_inv h x = fq_inv (m_heap (w_mem w)) x" for x by (rule fq_inv_cong) (simp add: num)
  have "numbered (m_heap (w_mem w)) q a"
    using pool_numbered [OF al_invD(2) [OF al]] al_owns [OF al] a by (simp add: q_def)
  then have n: "numbered h q a" by (simp add: numbered_def num)
  have fq: "fq_inv h q" using fqw cong by simp
  have "fq_inv h q' \<and> set (fq_list q') = insert a (set (fq_list q))"
  proof -
    consider "q' = fq_append h q a" | "q' = fq_append_unique h q a" | "q' = fq_append_lru h q a"
      using q' by (auto simp: q_def)
    then show ?thesis
    proof cases
      case 1
      then show ?thesis using mem_fq_append(1) [OF fq n] fq_append_refines(3) [OF fq n] by simp
    next
      case 2
      then show ?thesis
        using mem_fq_append(1) [OF fq n] fq_append_refines(3) [OF fq n] fq fq_contains_iff [OF fq n]
        by (cases "fq_contains h q a") (simp_all add: fq_append_unique_def insert_absorb)
    next
      case 3
      then show ?thesis using mem_fq_append(2) [OF fq n] fq_append_lru_refines(3) [OF fq n] by simp
    qed
  qed
  then show "fq_inv (m_heap (w_mem w)) q'" "set (fq_list q') = insert a (set (fq_list (bp_free (w_pool w d))))"
    using cong by (simp_all add: q_def)
qed

text \<open>What dropping a reference does, for both kinds of allocator.\<close>

lemma al_free_eq:
  assumes al: "al_inv M w" and a: "a \<in> pool_blocks (w_pool w d)" and M: "a \<in># M"
  shows "\<exists>q. al_free d (Some a) w =
      (Ok (), set_pool d ((w_pool w d)\<lparr>bp_free := q\<rparr>)
         (if count M a = 1 \<and> (al_has_kv (w_al w d) \<longrightarrow> \<not> cached (blk w a))
          then set_blk a clear_cache_metadata (set_blk a (\<lambda>b. b\<lparr>ref_count := ref_count b - 1\<rparr>) w)
          else set_blk a (\<lambda>b. b\<lparr>ref_count := ref_count b - 1\<rparr>) w)) \<and>
    fq_inv (m_heap (w_mem w)) q \<and>
    set (fq_list q) = (if count M a = 1 then insert a (set (fq_list (bp_free (w_pool w d))))
      else set (fq_list (bp_free (w_pool w d))))"
proof -
  define w1 where "w1 = set_blk a (\<lambda>b. b\<lparr>ref_count := ref_count b - 1\<rparr>) w"
  define w2 where "w2 = set_blk a clear_cache_metadata w1"
  have ref: "ref_count (blk w a) = count M a" "ref_count (blk w a) \<noteq> 0"
    using al_invD(5) [OF al a] M by simp_all
  have p1: "w_pool w1 e = w_pool w e" "w_al w1 = w_al w" and p2: "w_pool w2 e = w_pool w e" "w_al w2 = w_al w" for e
    by (simp_all add: w1_def w2_def)
  have num: "block_number (blk w1 b) = block_number (blk w b)" "block_number (blk w2 b) = block_number (blk w b)" for b
    by (simp_all add: w1_def w2_def)
  have same: "set_pool d (w_pool w d) w1 = w1" by (simp add: set_pool_def w1_def)
  have old: "fq_inv (m_heap (w_mem w)) (bp_free (w_pool w d))"
    using al_invD(2) [OF al, of d] by (simp add: blocks_ok_def)
  have r1: "ref_count (blk w1 a) = 0 \<longleftrightarrow> count M a = 1"
  proof -
    have "0 < count M a" using M by simp
    then show ?thesis using ref(1) by (simp add: w1_def del: count_greater_zero_iff) linarith
  qed
  have c1: "cached (blk w1 a) = cached (blk w a)" by (simp add: w1_def)
  have unf: "al_free d (Some a) w =
    (if al_has_kv (w_al w d) then
       (let (r, w', q) = (if ref_count (blk w1 a) \<noteq> 0 then (Ok (), w1, bp_free (w_pool w d))
            else if \<not> cached (blk w1 a) then (Ok (), w2, fq_append_unique (m_heap (w_mem w2)) (bp_free (w_pool w d)) a)
            else (Ok (), w1, fq_append_lru (m_heap (w_mem w1)) (bp_free (w_pool w d)) a))
        in (r, set_pool d ((w_pool w' d)\<lparr>bp_free := q\<rparr>) w'))
     else if ref_count (blk w1 a) = 0 then
       (Ok (), set_pool d (append_free_block (w_mem w2) (w_pool w2 d) a) w2)
     else (Ok (), w1))"
    using ref(2)
    unfolding al_free_def option.case validate_ok [OF al a] and_then_Ok release_block_def Let_def
      w1_def [symmetric] w2_def [symmetric] by simp
  note ret1 = queue_return [OF al a num(1)] and ret2 = queue_return [OF al a num(2)]
  show ?thesis
  proof (cases "count M a = 1")
    case False
    then show ?thesis
      unfolding w1_def [symmetric] w2_def [symmetric]
      using unf old r1 p1 same by (intro exI [of _ "bp_free (w_pool w d)"]) simp
  next
    case True
    consider (lru) "al_has_kv (w_al w d)" "cached (blk w a)" | (uncached) "al_has_kv (w_al w d)" "\<not> cached (blk w a)"
      | (plain) "\<not> al_has_kv (w_al w d)" by blast
    then show ?thesis
    proof cases
      case lru
      then show ?thesis
        unfolding w1_def [symmetric] w2_def [symmetric]
        using unf r1 c1 p1 True ret1 [of "fq_append_lru (m_heap (w_mem w1)) (bp_free (w_pool w d)) a"]
        by (intro exI [of _ "fq_append_lru (m_heap (w_mem w1)) (bp_free (w_pool w d)) a"])
          simp
    next
      case uncached
      then show ?thesis
        unfolding w1_def [symmetric] w2_def [symmetric]
        using unf r1 c1 p2 True ret2 [of "fq_append_unique (m_heap (w_mem w2)) (bp_free (w_pool w d)) a"]
        by (intro exI [of _ "fq_append_unique (m_heap (w_mem w2)) (bp_free (w_pool w d)) a"])
          simp
    next
      case plain
      then show ?thesis
        unfolding w1_def [symmetric] w2_def [symmetric]
        using unf r1 p2 True ret2 [of "fq_append (m_heap (w_mem w2)) (bp_free (w_pool w d)) a"]
        by (intro exI [of _ "fq_append (m_heap (w_mem w2)) (bp_free (w_pool w d)) a"])
          (simp add: append_free_block_def)
    qed
  qed
qed

lemma al_free_Ok:
  assumes inv: "winv M w" and a: "a \<in> pool_blocks (w_pool w d)" and M: "a \<in># M"
  obtains w' where "al_free d (Some a) w = (Ok (), w')" and "winv (M - {#a#}) w'"
    and "keeps (M - {#a#}) w w'" and "\<And>e. pool_blocks (w_pool w' e) = pool_blocks (w_pool w e)"
    and "\<And>b. device_of (blk w' b) = device_of (blk w b)" and "kv_cache (w_kv w') = kv_cache (w_kv w)"
proof -
  have al: "al_inv M w" and kv: "kv_ok w" and has: "al_has_kv (w_al w GPU)" "\<not> al_has_kv (w_al w CPU)"
    using inv by (simp_all add: winv_def)
  define clr where "clr \<longleftrightarrow> count M a = 1 \<and> (al_has_kv (w_al w d) \<longrightarrow> \<not> cached (blk w a))"
  define w1 where "w1 = (if clr then set_blk a clear_cache_metadata (set_blk a (\<lambda>b. b\<lparr>ref_count := ref_count b - 1\<rparr>) w)
    else set_blk a (\<lambda>b. b\<lparr>ref_count := ref_count b - 1\<rparr>) w)"
  obtain q where fr: "al_free d (Some a) w = (Ok (), set_pool d ((w_pool w d)\<lparr>bp_free := q\<rparr>) w1)"
    and q: "fq_inv (m_heap (w_mem w)) q"
      "set (fq_list q) = (if count M a = 1 then insert a (set (fq_list (bp_free (w_pool w d))))
        else set (fq_list (bp_free (w_pool w d))))"
    using al_free_eq [OF al a M] unfolding w1_def clr_def by blast
  define w' where "w' = set_pool d ((w_pool w d)\<lparr>bp_free := q\<rparr>) w1"
  have pools: "w_pool w' e = (if e = d then (w_pool w d)\<lparr>bp_free := q\<rparr> else w_pool w e)" for e
    by (simp add: w'_def w1_def)
  have num: "block_number (blk w' b) = block_number (blk w b)" "device_of (blk w' b) = device_of (blk w b)" for b
    by (simp_all add: w'_def w1_def)
  have refs: "ref_count (blk w' b) = (if b = a then ref_count (blk w a) - 1 else ref_count (blk w b))" for b
    by (simp add: w'_def w1_def)
  have other: "blk w' b = blk w b" if "b \<noteq> a" for b using that by (simp add: w'_def w1_def)
  have ref: "ref_count (blk w a) = count M a" using al_invD(5) [OF al a] .
  have memM: "a \<in># M - {#a#} \<longleftrightarrow> count M a \<noteq> 1"
    using M by (metis One_nat_def Suc_lessI count_diff count_greater_zero_iff count_single diff_Suc_1 diff_is_0_eq less_one not_less_eq_eq zero_less_diff)
  have notq: "a \<notin> set (fq_list (bp_free (w_pool w d)))" using al_invD(6) [OF al a] M by simp
  have "al_inv (M - {#a#}) w'"
  proof (rule al_inv_move [OF al a q(1) _ _ pools])
    show "set (fq_list q) = (if a \<in># M - {#a#} then set (fq_list (bp_free (w_pool w d))) - {a}
         else insert a (set (fq_list (bp_free (w_pool w d)))))"
      using q(2) memM notq by auto
    show "m_next (w_mem w') = m_next (w_mem w)" by (simp add: w'_def w1_def)
    show "al_num_blocks (w_al w' e) = al_num_blocks (w_al w e)" for e by (simp add: w'_def w1_def)
  qed (simp_all add: num refs ref)
  moreover have wb: "world_blocks w' = world_blocks w" unfolding world_blocks_def pools by simp
  have kvs: "w_kv w' = w_kv w" by (simp add: w'_def w1_def)
  have cached_kept: "\<not> clr \<Longrightarrow> same_content (blk w b) (blk w' b)" for b
    by (simp add: w'_def w1_def same_content_def)
  have "kv_ok w'"
  proof (rule kv_ok_keep [OF kv])
    fix key b assume k: "kv_cache (w_kv w') key = Some b"
    have "\<not> clr" if "b = a" "device_of (blk w a) = GPU"
      using kv_okD(2) [OF kv, of key b] k that kvs pool_device [OF al a] has by (auto simp: clr_def)
    then show "device_of (blk w' b) = device_of (blk w b) \<and> (device_of (blk w b) = GPU \<longrightarrow>
      cached (blk w' b) = cached (blk w b) \<and> is_full (blk w' b) = is_full (blk w b) \<and>
      block_hash (blk w' b) = block_hash (blk w b))"
      using other [of b] cached_kept [of b] num(2) by (cases "b = a") (auto simp: same_content_def)
  qed (simp_all add: wb kvs)
  moreover have "al_has_kv (w_al w' e) = al_has_kv (w_al w e)" for e by (simp add: w'_def w1_def)
  ultimately have "winv (M - {#a#}) w'" using has by (simp add: winv_def)
  moreover have "keeps (M - {#a#}) w w'"
  proof -
    have "same_content (blk w b) (blk w' b)" if "b \<in># M - {#a#}" for b
      using that memM other [of b] cached_kept [of b] by (cases "b = a") (auto simp: clr_def)
    then show ?thesis using wb kvs by (simp add: keeps_def) (simp add: w'_def w1_def)
  qed
  ultimately show thesis using that [of w'] fr pools num(2) kvs by (simp add: w'_def [symmetric])
qed

end
