(* ===== verification/Block_Grants.thy ===== *)
theory Block_Grants
  imports Block_Allocator
begin

text \<open>
  Groups of allocator calls as the block manager makes them: acquire some blocks, allocate some more,
  and on an exception give back what was taken. The interface they rely on is a locale over the laws of
  a reference-counted pool; the laws are discharged for the allocator of either device.
\<close>

section \<open>The loops\<close>

text \<open>The list is what the Python variable holds when the loop ends or raises.\<close>

fun acquire_each ::
  "(addr \<Rightarrow> 's \<Rightarrow> unit result \<times> 's) \<Rightarrow> addr list \<Rightarrow> addr list \<Rightarrow> 's \<Rightarrow> unit result \<times> addr list \<times> 's" where
  "acquire_each acq [] blocks s = (Ok (), blocks, s)"
| "acquire_each acq (b # bs) blocks s =
     (case acq b s of
        (Ok _, s') \<Rightarrow> acquire_each acq bs (blocks @ [b]) s'
      | (Raise e, s') \<Rightarrow> (Raise e, blocks, s'))"

primrec allocate_each ::
  "('s \<Rightarrow> addr result \<times> 's) \<Rightarrow> nat \<Rightarrow> addr list \<Rightarrow> 's \<Rightarrow> unit result \<times> addr list \<times> 's" where
  "allocate_each alloc 0 blocks s = (Ok (), blocks, s)"
| "allocate_each alloc (Suc n) blocks s =
     (case alloc s of
        (Ok b, s') \<Rightarrow> allocate_each alloc n (blocks @ [b]) s'
      | (Raise e, s') \<Rightarrow> (Raise e, blocks, s'))"

text \<open>The \<^verbatim>\<open>except\<close> clause: release in the given order, then re-raise.\<close>

definition give_back ::
  "(addr \<Rightarrow> 's \<Rightarrow> unit result \<times> 's) \<Rightarrow> addr list \<Rightarrow> py_error \<Rightarrow> 's \<Rightarrow> 'a result \<times> 's" where
  "give_back rel blocks e s = and_then (for_each rel blocks s) (\<lambda>_ s. (Raise e, s))"

text \<open>The \<^verbatim>\<open>try\<close> block of \<^verbatim>\<open>BlockManager.allocate\<close>.\<close>

definition grant ::
  "(addr \<Rightarrow> 's \<Rightarrow> unit result \<times> 's) \<Rightarrow> ('s \<Rightarrow> addr result \<times> 's) \<Rightarrow> (addr \<Rightarrow> 's \<Rightarrow> unit result \<times> 's)
   \<Rightarrow> addr list \<Rightarrow> nat \<Rightarrow> 's \<Rightarrow> addr list result \<times> 's" where
  "grant acq alloc rel hits misses s =
     (case acquire_each acq hits [] s of
        (Raise e, blocks, s1) \<Rightarrow> give_back rel (rev blocks) e s1
      | (Ok _, blocks, s1) \<Rightarrow>
          (case allocate_each alloc misses blocks s1 of
             (Raise e, blocks', s2) \<Rightarrow> give_back rel (rev blocks') e s2
           | (Ok _, blocks', s2) \<Rightarrow> (Ok blocks', s2)))"

section \<open>The interface\<close>

text \<open>Counting references to blocks that exist already.\<close>

locale ref_counts =
  fixes inv :: "addr multiset \<Rightarrow> 's \<Rightarrow> bool"
    and frame :: "addr multiset \<Rightarrow> 's \<Rightarrow> 's \<Rightarrow> bool"
    and owned :: "'s \<Rightarrow> addr set"
    and acq :: "addr \<Rightarrow> 's \<Rightarrow> unit result \<times> 's"
    and rel :: "addr \<Rightarrow> 's \<Rightarrow> unit result \<times> 's"
  assumes frame_refl: "frame M s s"
    and frame_trans: "frame M s s' \<Longrightarrow> frame M' s' s'' \<Longrightarrow> M \<subseteq># M' \<Longrightarrow> frame M s s''"
    and acq_ok: "inv M s \<Longrightarrow> a \<in> owned s \<Longrightarrow>
      \<exists>s'. acq a s = (Ok (), s') \<and> inv (add_mset a M) s' \<and> (\<forall>N. frame N s s') \<and> owned s' = owned s"
    and rel_ok: "inv M s \<Longrightarrow> a \<in> owned s \<Longrightarrow> a \<in># M \<Longrightarrow>
      \<exists>s'. rel a s = (Ok (), s') \<and> inv (M - {#a#}) s' \<and> frame (M - {#a#}) s s' \<and> owned s' = owned s"
begin

lemma acquire_all_ok:
  assumes "inv M s" and "set hits \<subseteq> owned s"
  shows "\<exists>s'. acquire_each acq hits blocks s = (Ok (), blocks @ hits, s') \<and> inv (mset hits + M) s' \<and>
    (\<forall>N. frame N s s') \<and> owned s' = owned s"
  using assms
proof (induction hits arbitrary: M s blocks)
  case Nil
  then show ?case by (simp add: frame_refl)
next
  case (Cons a hits)
  from acq_ok [OF Cons.prems(1), of a] Cons.prems(2) obtain s1 where
    s1: "acq a s = (Ok (), s1)" "inv (add_mset a M) s1" "\<And>N. frame N s s1" "owned s1 = owned s" by auto
  from Cons.IH [OF s1(2), of "blocks @ [a]"] Cons.prems(2) s1(4) obtain s2 where
    s2: "acquire_each acq hits (blocks @ [a]) s1 = (Ok (), blocks @ a # hits, s2)"
      "inv (mset hits + add_mset a M) s2" "\<And>N. frame N s1 s2" "owned s2 = owned s1" by auto
  show ?case using s1 s2 frame_trans [OF s1(3) s2(3) subset_mset.order_refl] by auto
qed

lemma release_each_ok:
  assumes "inv (mset bs + M) s" and "set bs \<subseteq> owned s"
  shows "\<exists>s'. for_each rel bs s = (Ok (), s') \<and> inv M s' \<and> frame M s s' \<and> owned s' = owned s"
  using assms
proof (induction bs arbitrary: s)
  case Nil
  then show ?case by (simp add: frame_refl)
next
  case (Cons a bs)
  from rel_ok [OF Cons.prems(1), of a] Cons.prems(2) obtain s1 where
    s1: "rel a s = (Ok (), s1)" "inv (mset bs + M) s1" "frame (mset bs + M) s s1" "owned s1 = owned s" by auto
  from Cons.IH [OF s1(2)] Cons.prems(2) s1(4) obtain s2 where
    s2: "for_each rel bs s1 = (Ok (), s2)" "inv M s2" "frame M s1 s2" "owned s2 = owned s1" by auto
  have "frame M s s1" using frame_trans [OF frame_refl s1(3)] by simp
  then show ?case using s1 s2 frame_trans [OF _ s2(3)] by auto
qed

end

text \<open>A pool with free blocks on top.\<close>

locale ref_pool = ref_counts +
  fixes clean :: "'a \<Rightarrow> addr \<Rightarrow> bool"
    and free :: "'a \<Rightarrow> int"
    and alloc :: "'a \<Rightarrow> addr result \<times> 'a"
  assumes clean_frame: "frame M s s' \<Longrightarrow> a \<in># M \<Longrightarrow> clean s a \<Longrightarrow> clean s' a"
    and free_nonneg: "inv M s \<Longrightarrow> 0 \<le> free s"
    and alloc_ok: "inv M s \<Longrightarrow> 0 < free s \<Longrightarrow>
      \<exists>a s'. alloc s = (Ok a, s') \<and> a \<notin># M \<and> inv (add_mset a M) s' \<and> frame M s s' \<and>
        owned s' = insert a (owned s) \<and> clean s' a \<and> free s' = free s - 1"
    and alloc_none: "inv M s \<Longrightarrow> \<not> 0 < free s \<Longrightarrow> alloc s = (Raise OutOfBlocksError, s)"
    and acq_count: "inv M s \<Longrightarrow> a \<in> owned s \<Longrightarrow> acq a s = (Ok (), s') \<Longrightarrow>
      free s' = free s - (if a \<in># M then 0 else 1)"
begin

lemma acquire_each_ok:
  assumes "inv M s" and "set hits \<subseteq> owned s"
  shows "\<exists>s'. acquire_each acq hits blocks s = (Ok (), blocks @ hits, s') \<and> inv (mset hits + M) s' \<and>
    (\<forall>N. frame N s s') \<and> owned s' = owned s \<and> free s' \<ge> free s - int (length (filter (\<lambda>a. a \<notin># M) hits))"
  using assms
proof (induction hits arbitrary: M s blocks)
  case Nil
  then show ?case by (simp add: frame_refl)
next
  case (Cons a hits)
  from acq_ok [OF Cons.prems(1), of a] Cons.prems(2) obtain s1 where
    s1: "acq a s = (Ok (), s1)" "inv (add_mset a M) s1" "\<And>N. frame N s s1" "owned s1 = owned s" by auto
  have n: "free s1 = free s - (if a \<in># M then 0 else 1)" using acq_count [OF Cons.prems(1) _ s1(1)] Cons.prems(2) by simp
  from Cons.IH [OF s1(2), of "blocks @ [a]"] Cons.prems(2) s1(4) obtain s2 where
    s2: "acquire_each acq hits (blocks @ [a]) s1 = (Ok (), blocks @ a # hits, s2)"
      "inv (mset hits + add_mset a M) s2" "\<And>N. frame N s1 s2" "owned s2 = owned s1"
      "free s2 \<ge> free s1 - int (length (filter (\<lambda>b. b \<notin># add_mset a M) hits))" by auto
  have "length (filter (\<lambda>b. b \<notin># add_mset a M) hits) \<le> length (filter (\<lambda>b. b \<notin># M) hits)"
    by (induction hits) auto
  then show ?case
    using s1 s2 n frame_trans [OF s1(3) s2(3) subset_mset.order_refl] by auto
qed

lemma allocate_each_ok:
  assumes "inv M s" and "int n \<le> free s"
  shows "\<exists>bs s'. allocate_each alloc n blocks s = (Ok (), blocks @ bs, s') \<and> length bs = n \<and> distinct bs \<and>
    set bs \<inter> set_mset M = {} \<and> inv (mset bs + M) s' \<and> frame M s s' \<and>
    owned s' = set bs \<union> owned s \<and> (\<forall>b \<in> set bs. clean s' b) \<and> free s' = free s - int n"
  using assms
proof (induction n arbitrary: M s blocks)
  case 0
  then show ?case by (auto simp: frame_refl)
next
  case (Suc n)
  from alloc_ok [OF Suc.prems(1)] Suc.prems(2) obtain a s1 where
    s1: "alloc s = (Ok a, s1)" "a \<notin># M" "inv (add_mset a M) s1" "frame M s s1"
      "owned s1 = insert a (owned s)" "clean s1 a" "free s1 = free s - 1" by auto
  from Suc.IH [OF s1(3), of "blocks @ [a]"] Suc.prems(2) s1(7) obtain bs s2 where
    s2: "allocate_each alloc n (blocks @ [a]) s1 = (Ok (), blocks @ a # bs, s2)" "length bs = n" "distinct bs"
      "set bs \<inter> set_mset (add_mset a M) = {}" "inv (mset bs + add_mset a M) s2" "frame (add_mset a M) s1 s2"
      "owned s2 = set bs \<union> owned s1" "\<forall>b \<in> set bs. clean s2 b" "free s2 = free s1 - int n" by auto
  have "clean s2 a" using clean_frame [OF s2(6) _ s1(6)] by simp
  then show ?case
    using s1 s2 frame_trans [OF s1(4) s2(6)] Suc.prems
    by (intro exI [of _ "a # bs"] exI [of _ s2]) (auto simp: subset_mset.le_iff_add)
qed

lemma allocate_each_out:
  assumes "inv M s" and "\<not> int n \<le> free s"
  shows "\<exists>bs s'. allocate_each alloc n blocks s = (Raise OutOfBlocksError, blocks @ bs, s') \<and>
    inv (mset bs + M) s' \<and> frame M s s' \<and> owned s' = set bs \<union> owned s"
  using assms
proof (induction n arbitrary: M s blocks)
  case 0
  then show ?case using free_nonneg by fastforce
next
  case (Suc n)
  show ?case
  proof (cases "0 < free s")
    case False
    then show ?thesis using alloc_none [OF Suc.prems(1)] Suc.prems(1) by (auto simp: frame_refl)
  next
    case True
    from alloc_ok [OF Suc.prems(1) True] obtain a s1 where
      s1: "alloc s = (Ok a, s1)" "a \<notin># M" "inv (add_mset a M) s1" "frame M s s1"
        "owned s1 = insert a (owned s)" "free s1 = free s - 1" by auto
    from Suc.IH [OF s1(3), of "blocks @ [a]"] Suc.prems(2) s1(6) obtain bs s2 where
      s2: "allocate_each alloc n (blocks @ [a]) s1 = (Raise OutOfBlocksError, blocks @ a # bs, s2)"
        "inv (mset bs + add_mset a M) s2" "frame (add_mset a M) s1 s2" "owned s2 = set bs \<union> owned s1" by auto
    show ?thesis
      using s1 s2 frame_trans [OF s1(4) s2(3)]
      by (intro exI [of _ "a # bs"] exI [of _ s2]) (auto simp: subset_mset.le_iff_add)
  qed
qed

text \<open>The \<^verbatim>\<open>try\<close> block either grants everything or leaves no reference behind.\<close>

lemma grant_ok:
  assumes "inv M s" and "set hits \<subseteq> owned s"
    and "int (length (filter (\<lambda>a. a \<notin># M) hits)) + int n \<le> free s"
  shows "\<exists>bs s'. grant acq alloc rel hits n s = (Ok (hits @ bs), s') \<and> length bs = n \<and> distinct bs \<and>
    set bs \<inter> (set_mset M \<union> set hits) = {} \<and> inv (mset (hits @ bs) + M) s' \<and> frame (mset hits + M) s s' \<and>
    set bs \<subseteq> owned s' \<and> (\<forall>b \<in> set bs. clean s' b) \<and>
    free s' \<ge> free s - int (length (filter (\<lambda>a. a \<notin># M) hits)) - int n"
proof -
  from acquire_each_ok [OF assms(1,2), of "[]"] obtain s1 where
    s1: "acquire_each acq hits [] s = (Ok (), hits, s1)" "inv (mset hits + M) s1" "\<And>N. frame N s s1"
      "free s1 \<ge> free s - int (length (filter (\<lambda>a. a \<notin># M) hits))" by auto
  from allocate_each_ok [OF s1(2), of n hits] assms(3) s1(4) obtain bs s2 where
    s2: "allocate_each alloc n hits s1 = (Ok (), hits @ bs, s2)" "length bs = n" "distinct bs"
      "set bs \<inter> set_mset (mset hits + M) = {}" "inv (mset bs + (mset hits + M)) s2"
      "frame (mset hits + M) s1 s2" "owned s2 = set bs \<union> owned s1" "\<forall>b \<in> set bs. clean s2 b"
      "free s2 = free s1 - int n" by auto
  show ?thesis
    using s1 s2 frame_trans [OF s1(3) s2(6) subset_mset.order_refl]
    by (intro exI [of _ bs] exI [of _ s2]) (auto simp: grant_def ac_simps)
qed

lemma grant_cases:
  assumes "inv M s" and "set hits \<subseteq> owned s"
  shows "(\<exists>bs s'. grant acq alloc rel hits n s = (Ok (hits @ bs), s') \<and> length bs = n \<and> distinct bs \<and>
      set bs \<inter> (set_mset M \<union> set hits) = {} \<and> inv (mset (hits @ bs) + M) s' \<and> frame (mset hits + M) s s' \<and> set bs \<subseteq> owned s' \<and>
      (\<forall>b \<in> set bs. clean s' b)) \<or>
    (\<exists>s'. grant acq alloc rel hits n s = (Raise OutOfBlocksError, s') \<and> inv M s' \<and> frame M s s')"
proof -
  from acquire_each_ok [OF assms, of "[]"] obtain s1 where
    s1: "acquire_each acq hits [] s = (Ok (), hits, s1)" "inv (mset hits + M) s1" "\<And>N. frame N s s1"
      "owned s1 = owned s" by auto
  show ?thesis
  proof (cases "int n \<le> free s1")
    case True
    from allocate_each_ok [OF s1(2) True, of hits] obtain bs s2 where
      s2: "allocate_each alloc n hits s1 = (Ok (), hits @ bs, s2)" "length bs = n" "distinct bs"
        "set bs \<inter> set_mset (mset hits + M) = {}" "inv (mset bs + (mset hits + M)) s2"
        "frame (mset hits + M) s1 s2" "owned s2 = set bs \<union> owned s1" "\<forall>b \<in> set bs. clean s2 b" by auto
    then show ?thesis
      using s1 frame_trans [OF s1(3) s2(6) subset_mset.order_refl]
      by (intro disjI1 exI [of _ bs] exI [of _ s2]) (auto simp: grant_def ac_simps)
  next
    case False
    from allocate_each_out [OF s1(2) False, of hits] obtain bs s2 where
      s2: "allocate_each alloc n hits s1 = (Raise OutOfBlocksError, hits @ bs, s2)"
        "inv (mset bs + (mset hits + M)) s2" "frame (mset hits + M) s1 s2" "owned s2 = set bs \<union> owned s1" by auto
    have i: "inv (mset (rev (hits @ bs)) + M) s2" using s2(2) by (simp add: ac_simps)
    from release_each_ok [OF i] s2(4) s1(4) assms(2) obtain s3 where
      s3: "for_each rel (rev (hits @ bs)) s2 = (Ok (), s3)" "inv M s3" "frame M s2 s3" by auto
    then show ?thesis
      using s1 s2 frame_trans [OF frame_trans [OF s1(3) [of M] s2(3)] s3(3)]
      by (auto simp: grant_def give_back_def)
  qed
qed

end

section \<open>The allocators give the interface\<close>

lemma al_free_nonneg: "al_inv M w \<Longrightarrow> 0 \<le> al_get_num_free_blocks d w"
  using num_free_view [OF al_invD(1), of M w d] by (simp add: al_get_num_free_blocks_def)

lemma free_change:
  assumes "al_inv M w" "al_inv M' w'" "al_num_blocks (w_al w' d) = al_num_blocks (w_al w d)"
  shows "al_get_num_free_blocks d w' =
    al_get_num_free_blocks d w + int (card (held M w d)) - int (card (held M' w' d))"
  using free_count [OF assms(1)] free_count [OF assms(2)] assms(3) by simp

lemma allocate_free_count:
  assumes "winv M w" "winv (add_mset a M) w'" "keeps M w w'" "a \<notin># M"
    "\<And>e. pool_blocks (w_pool w' e) = (if e = d then insert a (pool_blocks (w_pool w d)) else pool_blocks (w_pool w e))"
  shows "al_get_num_free_blocks d w' = al_get_num_free_blocks d w - 1"
proof -
  have "held (add_mset a M) w' d = insert a (held M w d)" "a \<notin> held M w d"
    using assms(4,5) by (auto simp: held_def)
  then show ?thesis
    using free_change [of M w "add_mset a M" w' d] assms(1-3) by (simp add: winv_def keeps_def held_def)
qed

lemma acquire_free_count:
  assumes "winv M w" "winv (add_mset a M) w'" "keeps M w w'" "a \<in> pool_blocks (w_pool w d)"
    "\<And>e. pool_blocks (w_pool w' e) = pool_blocks (w_pool w e)"
  shows "al_get_num_free_blocks d w' = al_get_num_free_blocks d w - (if a \<in># M then 0 else 1)"
proof -
  have h: "held (add_mset a M) w' d = insert a (held M w d)"
    using assms(4,5) by (auto simp: held_def)
  have "card (insert a (held M w d)) = card (held M w d) + (if a \<in># M then 0 else 1)"
    using assms(4) by (auto simp: held_def card_insert_if)
  then show ?thesis
    using free_change [of M w "add_mset a M" w' d] assms(1-3) h by (simp add: winv_def keeps_def)
qed

interpretation al: ref_pool winv keeps "\<lambda>w. pool_blocks (w_pool w d)" "al_acquire d"
  "\<lambda>a. al_free d (Some a)" "\<lambda>w a. device_of (blk w a) = d \<and> \<not> cached (blk w a)"
  "al_get_num_free_blocks d" "al_allocate d"
proof unfold_locales
  show "keeps M w w" for M and w :: "'a world_scheme" by simp
  show "keeps M w w''" if "keeps M w w'" "keeps M' w' w''" "M \<subseteq># M'" for M M' and w w' w'' :: "'a world_scheme"
    using keeps_trans [OF that] .
  show "device_of (blk w' a) = d \<and> \<not> cached (blk w' a)"
    if "keeps M w w'" "a \<in># M" "device_of (blk w a) = d \<and> \<not> cached (blk w a)" for M a and w w' :: "'a world_scheme"
    using that by (auto simp: keeps_def same_content_def)
  fix M and w :: "'a world_scheme"
  assume inv: "winv M w"
  then have al: "al_inv M w" by (simp add: winv_def)
  show "0 \<le> al_get_num_free_blocks d w" by (rule al_free_nonneg [OF al])
  show "al_allocate d w = (Raise OutOfBlocksError, w)" if "\<not> 0 < al_get_num_free_blocks d w"
    by (rule al_allocate_none [OF al that])
  show "\<exists>a w'. al_allocate d w = (Ok a, w') \<and> a \<notin># M \<and> winv (add_mset a M) w' \<and> keeps M w w' \<and>
      pool_blocks (w_pool w' d) = insert a (pool_blocks (w_pool w d)) \<and>
      (device_of (blk w' a) = d \<and> \<not> cached (blk w' a)) \<and> al_get_num_free_blocks d w' = al_get_num_free_blocks d w - 1"
    if "0 < al_get_num_free_blocks d w"
    by (rule al_allocate_Ok [OF inv that]) (use allocate_free_count [OF inv] in auto)
  fix a assume a: "a \<in> pool_blocks (w_pool w d)"
  show "\<exists>w'. al_acquire d a w = (Ok (), w') \<and> winv (add_mset a M) w' \<and> (\<forall>N. keeps N w w') \<and>
      pool_blocks (w_pool w' d) = pool_blocks (w_pool w d)"
    by (rule al_acquire_Ok [OF inv a]) blast
  show "al_get_num_free_blocks d w' = al_get_num_free_blocks d w - (if a \<in># M then 0 else 1)"
    if "al_acquire d a w = (Ok (), w')" for w'
    by (rule al_acquire_Ok [OF inv a]) (use acquire_free_count [OF inv _ _ a] that in auto)
  show "\<exists>w'. al_free d (Some a) w = (Ok (), w') \<and> winv (M - {#a#}) w' \<and> keeps (M - {#a#}) w w' \<and>
      pool_blocks (w_pool w' d) = pool_blocks (w_pool w d)" if "a \<in># M"
    by (rule al_free_Ok [OF inv a that]) blast
qed

end
