(* ===== verification/Block_Table.thy ===== *)
theory Block_Table
  imports Token_Block "HOL-Library.Multiset"
begin

text \<open>
  The request-to-blocks table (\<^verbatim>\<open>src/TokenSim/block/block_table.py\<close>), a dictionary of lists, and
  the multiset of references it holds.
\<close>

type_synonym block_table = "(int \<times> addr list) list"

definition get_blocks :: "block_table \<Rightarrow> int \<Rightarrow> addr list" where
  "get_blocks t i = (case map_of t i of None \<Rightarrow> [] | Some bs \<Rightarrow> bs)"

definition add_block :: "int \<Rightarrow> addr \<Rightarrow> block_table \<Rightarrow> block_table" where
  "add_block i b t = AList.update i (get_blocks t i @ [b]) t"

definition add_blocks :: "int \<Rightarrow> addr list \<Rightarrow> block_table \<Rightarrow> block_table" where
  "add_blocks i bs t = AList.update i (get_blocks t i @ bs) t"

definition get_num_blocks :: "block_table \<Rightarrow> int \<Rightarrow> int" where
  "get_num_blocks t i = int (length (get_blocks t i))"

definition pop_blocks :: "int \<Rightarrow> block_table \<Rightarrow> addr list \<times> block_table" where
  "pop_blocks i t = (get_blocks t i, AList.delete i t)"

definition set_blocks :: "int \<Rightarrow> addr list \<Rightarrow> block_table \<Rightarrow> block_table" where
  "set_blocks i bs t = (if bs \<noteq> [] then AList.update i bs t else AList.delete i t)"

definition pop_last_block :: "int \<Rightarrow> block_table \<Rightarrow> addr option \<times> block_table" where
  "pop_last_block i t =
     (if get_blocks t i = [] then (None, t)
      else (let bs = butlast (get_blocks t i)
            in (Some (last (get_blocks t i)),
                if bs = [] then AList.delete i t else AList.update i bs t)))"

definition request_ids :: "block_table \<Rightarrow> int list" where
  "request_ids t = map fst t"

section \<open>The references a table holds\<close>

definition table_refs :: "block_table \<Rightarrow> addr multiset" where
  "table_refs t = (\<Sum>p\<leftarrow>t. mset (snd p))"

definition table_ok :: "block_table \<Rightarrow> bool" where
  "table_ok t \<longleftrightarrow> distinct (dict_keys t)"

lemma get_blocks_update [simp]:
  "get_blocks (AList.update i bs t) j = (if j = i then bs else get_blocks t j)"
  by (simp add: get_blocks_def)

lemma get_blocks_delete [simp]:
  "get_blocks (AList.delete i t) j = (if j = i then [] else get_blocks t j)"
  by (simp add: get_blocks_def)

lemma get_blocks_Nil [simp]: "get_blocks [] i = []"
  by (simp add: get_blocks_def)

lemma get_blocks_Cons: "get_blocks (p # t) i = (if fst p = i then snd p else get_blocks t i)"
  by (simp add: get_blocks_def)

lemma table_refs_simps [simp]:
  "table_refs [] = {#}" "table_refs (p # t) = mset (snd p) + table_refs t"
  by (simp_all add: table_refs_def)

lemma delete_absent [simp]: "i \<notin> set (dict_keys t) \<Longrightarrow> AList.delete i t = t"
  by (simp add: delete_id)

lemma table_refs_delete:
  "table_ok t \<Longrightarrow> table_refs t = mset (get_blocks t i) + table_refs (AList.delete i t)"
proof (induction t)
  case (Cons p t)
  then show ?case by (cases p) (auto simp: table_ok_def get_blocks_Cons)
qed simp

lemma table_refs_update:
  "table_ok t \<Longrightarrow> table_refs (AList.update i bs t) = mset bs + table_refs (AList.delete i t)"
proof (induction t)
  case (Cons p t)
  then show ?case by (cases p) (auto simp: table_ok_def)
qed simp

lemma table_ok_update [simp]: "table_ok (AList.update i bs t) = table_ok t"
  by (simp add: table_ok_def)

lemma table_ok_delete [simp]: "table_ok t \<Longrightarrow> table_ok (AList.delete i t)"
  by (simp add: table_ok_def)

lemma table_ok_Nil [simp]: "table_ok []"
  by (simp add: table_ok_def)

lemma table_refs_add_blocks:
  "table_ok t \<Longrightarrow> table_refs (add_blocks i bs t) = mset bs + table_refs t"
  by (simp add: add_blocks_def table_refs_update table_refs_delete [of t i])

lemma table_refs_add_block: "table_ok t \<Longrightarrow> table_refs (add_block i b t) = add_mset b (table_refs t)"
  using table_refs_add_blocks [of t i "[b]"] by (simp add: add_block_def add_blocks_def)

lemma table_refs_set_blocks:
  "table_ok t \<Longrightarrow> table_refs (set_blocks i bs t) = mset bs + (table_refs t - mset (get_blocks t i))"
  by (simp add: set_blocks_def table_refs_update table_refs_delete [of t i])

lemma table_ok_ops [simp]:
  assumes "table_ok t"
  shows "table_ok (add_blocks i bs t)" "table_ok (add_block i b t)" "table_ok (set_blocks i bs t)"
    "table_ok (snd (pop_blocks i t))" "table_ok (snd (pop_last_block i t))"
  using assms
  by (simp_all add: add_blocks_def add_block_def set_blocks_def pop_blocks_def pop_last_block_def Let_def)

lemma table_refs_pop_blocks:
  "table_ok t \<Longrightarrow> table_refs t = mset (fst (pop_blocks i t)) + table_refs (snd (pop_blocks i t))"
  by (simp add: pop_blocks_def table_refs_delete [of t i])

lemma table_refs_pop_last:
  assumes "table_ok t" and "pop_last_block i t = (Some b, t')"
  shows "table_refs t = add_mset b (table_refs t')" and "get_blocks t i = get_blocks t' i @ [b]"
proof -
  have ne: "get_blocks t i \<noteq> []" and b: "b = last (get_blocks t i)"
    and t': "t' = (if butlast (get_blocks t i) = [] then AList.delete i t
        else AList.update i (butlast (get_blocks t i)) t)"
    using assms(2) by (auto simp: pop_last_block_def Let_def split: if_splits)
  have split: "get_blocks t i = butlast (get_blocks t i) @ [b]" using ne b by simp
  show "get_blocks t i = get_blocks t' i @ [b]" using split t' by (auto split: if_splits)
  have "mset (get_blocks t i) = add_mset b (mset (butlast (get_blocks t i)))"
    by (subst split) simp
  then show "table_refs t = add_mset b (table_refs t')"
    using t' assms(1) table_refs_delete [OF assms(1), of i] by (auto simp: table_refs_update)
qed

lemma blocks_in_refs: "table_ok t \<Longrightarrow> set (get_blocks t i) \<subseteq> set_mset (table_refs t)"
  using table_refs_delete [of t i] by auto

end
