(* ===== verification/Block_Manager.thy ===== *)
theory Block_Manager
  imports Complex_Main Block_Grants Block_Table
begin

text \<open>
  The uniform block manager (class \<^verbatim>\<open>BlockManager\<close> of \<^verbatim>\<open>src/TokenSim/block/block_manager.py\<close>):
  paged KV blocks per request, prefix reuse, swapping between the devices and reserved blocks. Its
  state extends the allocators by the block table and the reserved blocks. Operations on a request
  take the request and return it with the fields they write.
\<close>

record bman = world +
  bm_block_size :: int
  bm_num_total_gpu_blocks :: int
  bm_num_total_cpu_blocks :: int
  bm_reserved :: "addr list"
  bm_table :: block_table
  bm_watermark_blocks :: int

type_synonym req = "prefix_key request"

definition empty_mem :: "prefix_key mem" where
  "empty_mem = \<lparr>m_heap = (\<lambda>_. new_block GPU 0 0), m_next = 0\<rparr>"

definition new_block_manager :: "int \<Rightarrow> int \<Rightarrow> int \<Rightarrow> string \<Rightarrow> real \<Rightarrow> bman" where
  "new_block_manager sz gpu cpu model watermark =
     \<lparr>w_mem = empty_mem, w_kv = new_kvm sz model,
      w_al = (\<lambda>d. case d of GPU \<Rightarrow> new_allocator GPU sz gpu True | CPU \<Rightarrow> new_allocator CPU sz cpu False),
      bm_block_size = sz, bm_num_total_gpu_blocks = gpu, bm_num_total_cpu_blocks = cpu,
      bm_reserved = [], bm_table = [], bm_watermark_blocks =
        (if watermark * real_of_int gpu < 0 then \<lceil>watermark * real_of_int gpu\<rceil>
         else \<lfloor>watermark * real_of_int gpu\<rfloor>)\<rparr>"

section \<open>Admission\<close>

definition bm_can_allocate :: "(string \<Rightarrow> string) \<Rightarrow> req \<Rightarrow> bman \<Rightarrow> bool \<times> bman" where
  "bm_can_allocate H r w =
     (let (plan, w1) = plan_reuse H r w;
          num_free_gpu_blocks = al_get_num_free_blocks GPU w1 - zero_ref_hit_blocks w1 plan
      in (bm_watermark_blocks w1 \<le> num_free_gpu_blocks - miss_block_count plan, w1))"

definition sync_request_blocks :: "addr list \<Rightarrow> req \<Rightarrow> req" where
  "sync_request_blocks blocks r = fold append_physical_block blocks (r\<lparr>physical_token_blocks := []\<rparr>)"

definition mark_pending_step ::
  "addr list \<Rightarrow> reuse_plan \<Rightarrow> nat \<times> prefix_key \<Rightarrow> 'z kvst_scheme \<Rightarrow> 'z kvst_scheme" where
  "mark_pending_step blocks plan ik w =
     (let (i, key) = ik
      in if int i < hit_block_count plan \<or> length blocks \<le> i then w
         else set_blk (blocks ! i) (\<lambda>b. b\<lparr>block_hash := Some key, is_full := True, cached := False\<rparr>) w)"

definition mark_input_blocks_pending :: "addr list \<Rightarrow> reuse_plan \<Rightarrow> bman \<times> req \<Rightarrow> bman \<times> req" where
  "mark_input_blocks_pending blocks plan wr =
     (let (w, r) = wr
      in if pl_input_keys plan = [] then (w, r\<lparr>input_cache_keys := []\<rparr>)
         else (fold (mark_pending_step blocks plan) (List.enumerate 0 (pl_input_keys plan)) w,
               r\<lparr>input_cache_keys := pl_input_keys plan\<rparr>))"

definition bm_allocate :: "(string \<Rightarrow> string) \<Rightarrow> bman \<times> req \<Rightarrow> unit result \<times> bman \<times> req" where
  "bm_allocate H wr =
     (let (w, r) = wr
      in if get_num_blocks (bm_table w) (rq_id r) \<noteq> 0 then (Raise SimulationStateError, w, r)
         else
           (let (plan, w1) = plan_reuse H r w
            in case grant (al_acquire GPU) (al_allocate GPU) (\<lambda>a. al_free GPU (Some a))
                      (pl_hit_blocks plan) (nat (miss_block_count plan)) w1 of
                 (Raise e, w2) \<Rightarrow> (Raise e, w2, r)
               | (Ok blocks, w2) \<Rightarrow>
                   (let r1 = apply_plan plan r;
                        w3 = w2\<lparr>bm_table := add_blocks (rq_id r) blocks (bm_table w2)\<rparr>;
                        r2 = sync_request_blocks blocks r1
                    in (Ok (), mark_input_blocks_pending blocks plan (w3, r2)))))"

section \<open>Queries\<close>

definition bm_num_blocks :: "bman \<Rightarrow> req \<Rightarrow> int" where
  "bm_num_blocks w r =
     (if get_num_blocks (bm_table w) (rq_id r) \<noteq> 0 then get_num_blocks (bm_table w) (rq_id r)
      else num_physical_token_blocks r)"

definition get_request_block_counts :: "bman \<Rightarrow> req list \<Rightarrow> (int \<times> int) list" where
  "get_request_block_counts w rs = fold (\<lambda>r d. AList.update (rq_id r) (bm_num_blocks w r) d) rs []"

definition bm_can_append_slot :: "bman \<Rightarrow> req \<Rightarrow> int \<Rightarrow> bool" where
  "bm_can_append_slot w r reserved_blocks =
     (let required_blocks =
            (if get_num_blocks (bm_table w) (rq_id r) < num_logical_token_blocks r then 1 else 0)
      in required_blocks + reserved_blocks \<le> al_get_num_free_blocks GPU w)"

definition bm_can_swap_out :: "bman \<Rightarrow> req \<Rightarrow> bool" where
  "bm_can_swap_out w r =
     (let blocks = get_blocks (bm_table w) (rq_id r)
      in blocks \<noteq> [] \<and> int (length blocks) \<le> al_get_num_free_blocks CPU w)"

definition bm_can_swap_in :: "bman \<Rightarrow> req \<Rightarrow> bool" where
  "bm_can_swap_in w r =
     (let blocks = get_blocks (bm_table w) (rq_id r)
      in blocks \<noteq> [] \<and> int (length blocks) \<le> al_get_num_free_blocks GPU w)"

section \<open>Release and commit\<close>

definition bm_free_block :: "addr \<Rightarrow> 'z world_scheme \<Rightarrow> unit result \<times> 'z world_scheme" where
  "bm_free_block a w =
     (case device_of (blk w a) of GPU \<Rightarrow> al_free GPU (Some a) w | CPU \<Rightarrow> al_free CPU (Some a) w)"

definition commit_input_cache :: "bman \<times> req \<Rightarrow> bman \<times> req" where
  "commit_input_cache wr =
     (let (w, r) = wr
      in if input_cache_committed r then (w, r)
         else
           (let blocks = get_blocks (bm_table w) (rq_id r);
                keys = input_cache_keys r;
                w1 = (if keys \<noteq> [] then register_blocks (take (length keys) blocks) keys w else w)
            in (w1, r\<lparr>input_cache_committed := True\<rparr>)))"

definition commit_finished_cache :: "(string \<Rightarrow> string) \<Rightarrow> bman \<times> req \<Rightarrow> bman \<times> req" where
  "commit_finished_cache H wr =
     (let (w, r) = commit_input_cache wr
      in (register_output_blocks H r (get_blocks (bm_table w) (rq_id r)) w, r))"

definition release_request_blocks :: "bman \<times> req \<Rightarrow> unit result \<times> bman \<times> req" where
  "release_request_blocks wr =
     (let (w, r) = wr;
          (popped, t) = pop_blocks (rq_id r) (bm_table w);
          blocks = (if popped \<noteq> [] then popped else physical_token_blocks r);
          (res, w1) = for_each bm_free_block blocks (w\<lparr>bm_table := t\<rparr>)
      in case res of
           Raise e \<Rightarrow> (Raise e, w1, r)
         | Ok _ \<Rightarrow> (Ok (), forget_request (rq_id r) w1, r\<lparr>physical_token_blocks := []\<rparr>))"

definition bm_free :: "(string \<Rightarrow> string) \<Rightarrow> bman \<times> req \<Rightarrow> unit result \<times> bman \<times> req" where
  "bm_free H wr = release_request_blocks (commit_finished_cache H wr)"

section \<open>Growing, shrinking and sharing\<close>

definition append_slot :: "bman \<times> req \<Rightarrow> unit result \<times> bman \<times> req" where
  "append_slot wr =
     (let (w, r) = wr
      in if get_num_blocks (bm_table w) (rq_id r) < num_logical_token_blocks r then
           (case al_allocate GPU w of
              (Raise e, w1) \<Rightarrow> (Raise e, w1, r)
            | (Ok b, w1) \<Rightarrow>
                (Ok (), w1\<lparr>bm_table := add_block (rq_id r) b (bm_table w1)\<rparr>, append_physical_block b r))
         else (Ok (), w, r))"

definition rollback_last_block :: "bman \<times> req \<Rightarrow> unit result \<times> bman \<times> req" where
  "rollback_last_block wr =
     (let (w, r) = wr
      in case pop_last_block (rq_id r) (bm_table w) of
           (None, t) \<Rightarrow> (Ok (), w, r)
         | (Some b, t) \<Rightarrow>
             (case bm_free_block b (w\<lparr>bm_table := t\<rparr>) of
                (Raise e, w1) \<Rightarrow> (Raise e, w1, r)
              | (Ok _, w1) \<Rightarrow> (Ok (), w1, sync_request_blocks (get_blocks (bm_table w1) (rq_id r)) r)))"

definition acquire_any :: "addr \<Rightarrow> 'z world_scheme \<Rightarrow> unit result \<times> 'z world_scheme" where
  "acquire_any b w = al_acquire (if device_of (blk w b) = GPU then GPU else CPU) b w"

definition fork :: "req \<Rightarrow> bman \<times> req \<Rightarrow> unit result \<times> bman \<times> req" where
  "fork parent wr =
     (let (w, child) = wr;
          parent_blocks = get_blocks (bm_table w) (rq_id parent)
      in if get_num_blocks (bm_table w) (rq_id child) \<noteq> 0 then (Raise SimulationStateError, w, child)
         else if parent_blocks = [] then (Raise SimulationStateError, w, child)
         else
           (case acquire_each acquire_any parent_blocks [] w of
              (Raise e, acquired, w1) \<Rightarrow>
                (let (res, w2) = give_back bm_free_block (rev acquired) e w1 in (res, w2, child))
            | (Ok _, acquired, w1) \<Rightarrow>
                (Ok (), w1\<lparr>bm_table := add_blocks (rq_id child) acquired (bm_table w1)\<rparr>,
                 sync_request_blocks acquired child)))"

section \<open>Swapping\<close>

definition validate_blocks_device :: "addr list \<Rightarrow> device \<Rightarrow> bman \<Rightarrow> unit result" where
  "validate_blocks_device blocks expected w =
     (if \<exists>b \<in> set blocks. device_of (blk w b) \<noteq> expected then Raise SimulationStateError else Ok ())"

fun swap_each :: "device \<Rightarrow> addr list \<Rightarrow> addr list \<Rightarrow> bman \<Rightarrow> unit result \<times> addr list \<times> bman" where
  "swap_each target [] targets w = (Ok (), targets, w)"
| "swap_each target (src # srcs) targets w =
     (case al_allocate target w of
        (Raise e, w1) \<Rightarrow> (Raise e, targets, w1)
      | (Ok b, w1) \<Rightarrow>
          (let w2 = set_blk b (\<lambda>x. x\<lparr>block_hash := block_hash (blk w1 src), is_full := is_full (blk w1 src),
                 cached := False\<rparr>) w1
           in swap_each target srcs (targets @ [b]) w2))"

definition bm_swap :: "device \<Rightarrow> device \<Rightarrow> bman \<times> req \<Rightarrow> unit result \<times> bman \<times> req" where
  "bm_swap source target wr =
     (let (w, r) = wr;
          source_blocks = get_blocks (bm_table w) (rq_id r)
      in case validate_blocks_device source_blocks source w of
           Raise e \<Rightarrow> (Raise e, w, r)
         | Ok _ \<Rightarrow>
             if al_get_num_free_blocks target w < int (length source_blocks) then
               (Raise OutOfBlocksError, w, r)
             else
               (case swap_each target source_blocks [] w of
                  (Raise e, targets, w1) \<Rightarrow>
                    (let (res, w2) = give_back (\<lambda>a. al_free target (Some a)) (rev targets) e w1
                     in (res, w2, r))
                | (Ok _, targets, w1) \<Rightarrow>
                    (let w2 = w1\<lparr>bm_table := set_blocks (rq_id r) targets (bm_table w1)\<rparr>;
                         r1 = sync_request_blocks targets r;
                         (res, w3) = for_each bm_free_block source_blocks w2
                     in (res, w3, r1))))"

definition swap_out :: "bman \<times> req \<Rightarrow> unit result \<times> bman \<times> req" where
  "swap_out = bm_swap GPU CPU"

definition swap_in :: "bman \<times> req \<Rightarrow> unit result \<times> bman \<times> req" where
  "swap_in = bm_swap CPU GPU"

section \<open>Reserved blocks\<close>

definition reserve_gpu_blocks :: "int \<Rightarrow> bman \<Rightarrow> unit result \<times> bman" where
  "reserve_gpu_blocks num_blocks w =
     (case allocate_each (al_allocate GPU) (nat num_blocks) [] w of
        (Raise e, allocated, w1) \<Rightarrow> give_back (\<lambda>a. al_free GPU (Some a)) allocated e w1
      | (Ok _, allocated, w1) \<Rightarrow> (Ok (), w1\<lparr>bm_reserved := bm_reserved w1 @ allocated\<rparr>))"

primrec release_reserved_loop :: "nat \<Rightarrow> bman \<Rightarrow> unit result \<times> bman" where
  "release_reserved_loop 0 w = (Ok (), w)"
| "release_reserved_loop (Suc n) w =
     (case bm_reserved w of
        [] \<Rightarrow> (Raise PyIndexError, w)
      | b # bs \<Rightarrow> and_then (al_free GPU (Some b) (w\<lparr>bm_reserved := bs\<rparr>)) (\<lambda>_ w. release_reserved_loop n w))"

definition release_reserved_blocks :: "int option \<Rightarrow> bman \<Rightarrow> unit result \<times> bman" where
  "release_reserved_blocks num_blocks w =
     (let n = (case num_blocks of None \<Rightarrow> int (length (bm_reserved w)) | Some k \<Rightarrow> k)
      in if n < 0 then (Raise SimulationStateError, w)
         else if int (length (bm_reserved w)) < n then (Raise SimulationStateError, w)
         else release_reserved_loop (nat n) w)"

section \<open>The references the manager holds\<close>

interpretation any: ref_counts winv keeps world_blocks acquire_any bm_free_block
proof unfold_locales
  show "keeps M w w" for M and w :: "'a world_scheme" by simp
  show "keeps M w w''" if "keeps M w w'" "keeps M' w' w''" "M \<subseteq># M'" for M M' and w w' w'' :: "'a world_scheme"
    using keeps_trans [OF that] .
  fix M a and w :: "'a world_scheme"
  assume inv: "winv M w" and a: "a \<in> world_blocks w"
  then obtain d where d: "a \<in> pool_blocks (w_pool w d)" by (auto simp: world_blocks_pool)
  then have dev: "device_of (blk w a) = d" using inv pool_device by (auto simp: winv_def)
  show "\<exists>w'. acquire_any a w = (Ok (), w') \<and> winv (add_mset a M) w' \<and> (\<forall>N. keeps N w w') \<and> world_blocks w' = world_blocks w"
    by (rule al_acquire_Ok [OF inv d]) (auto simp: acquire_any_def dev world_blocks_def, cases d, auto)
  show "\<exists>w'. bm_free_block a w = (Ok (), w') \<and> winv (M - {#a#}) w' \<and> keeps (M - {#a#}) w w' \<and>
      world_blocks w' = world_blocks w" if "a \<in># M"
    by (rule al_free_Ok [OF inv d that]) (cases d, auto simp: bm_free_block_def dev world_blocks_def)
qed

definition bm_refs :: "bman \<Rightarrow> addr multiset" where
  "bm_refs w = table_refs (bm_table w) + mset (bm_reserved w)"

text \<open>
  \<open>bm_ok H M w\<close>: the references counted by the blocks are those of \<open>M\<close>, and the tables, the index
  and the key chains are consistent. At rest \<open>M\<close> is \<^const>\<open>bm_refs\<close>.
\<close>

definition bm_ok :: "(string \<Rightarrow> string) \<Rightarrow> addr multiset \<Rightarrow> bman \<Rightarrow> bool" where
  "bm_ok H M w \<longleftrightarrow> winv M w \<and> table_ok (bm_table w) \<and> cc_ok H (kv_chains (w_kv w)) \<and>
     0 < kv_block_size (w_kv w) \<and> 0 \<le> bm_watermark_blocks w \<and>
     (\<forall>b \<in> set (bm_reserved w). device_of (blk w b) = GPU)"

definition bm_inv :: "(string \<Rightarrow> string) \<Rightarrow> bman \<Rightarrow> bool" where
  "bm_inv H w \<longleftrightarrow> bm_ok H (bm_refs w) w"

definition req_synced :: "bman \<Rightarrow> req \<Rightarrow> bool" where
  "req_synced w r \<longleftrightarrow> physical_token_blocks r = get_blocks (bm_table w) (rq_id r)"

lemma more_sel:
  fixes w w' :: bman
  assumes "world.more w' = world.more w"
  shows "bm_table w' = bm_table w" "bm_reserved w' = bm_reserved w"
    "bm_watermark_blocks w' = bm_watermark_blocks w" "bm_block_size w' = bm_block_size w"
    "bm_num_total_gpu_blocks w' = bm_num_total_gpu_blocks w"
    "bm_num_total_cpu_blocks w' = bm_num_total_cpu_blocks w"
  using assms by (cases w; cases w'; simp)+

lemma winv_fields [simp]:
  fixes w :: bman
  shows "winv M (w\<lparr>bm_table := t\<rparr>) = winv M w" "winv M (w\<lparr>bm_reserved := rs\<rparr>) = winv M w"
  by (simp_all add: winv_def al_inv_def kv_ok_def world_blocks_def)

lemma bm_ok_table: "bm_ok H M w \<Longrightarrow> table_ok t \<Longrightarrow> bm_ok H M (w\<lparr>bm_table := t\<rparr>)"
  by (simp add: bm_ok_def)

lemma bm_ok_reserved:
  "bm_ok H M w \<Longrightarrow> \<forall>b \<in> set rs. device_of (blk w b) = GPU \<Longrightarrow> bm_ok H M (w\<lparr>bm_reserved := rs\<rparr>)"
  by (simp add: bm_ok_def)

text \<open>The block size and the capacities, which no operation changes.\<close>

definition shape :: "bman \<Rightarrow> int \<times> int \<times> int" where
  "shape w = (kv_block_size (w_kv w), al_num_blocks (w_al w GPU), al_num_blocks (w_al w CPU))"

lemma shape_fields [simp]: "shape (w\<lparr>bm_table := t\<rparr>) = shape w" "shape (w\<lparr>bm_reserved := rs\<rparr>) = shape w"
  by (simp_all add: shape_def)

text \<open>The fields of a request that the manager does not write: its identity, its length and its progress.\<close>

definition same_progress :: "req \<Rightarrow> req \<Rightarrow> bool" where
  "same_progress r r' \<longleftrightarrow> req_ident.truncate r' = req_ident.truncate r \<and> logical_tokens r' = logical_tokens r \<and>
     req_cache.more r' = req_cache.more r"

lemma same_progress_refl [simp]: "same_progress r r"
  by (simp add: same_progress_def)

lemma same_progress_trans: "same_progress r r1 \<Longrightarrow> same_progress r1 r2 \<Longrightarrow> same_progress r r2"
  by (simp add: same_progress_def)

lemma same_progress_upd [simp]:
  "same_progress r (r1\<lparr>physical_token_blocks := bs\<rparr>) = same_progress r r1"
  "same_progress r (r1\<lparr>input_cache_keys := ks\<rparr>) = same_progress r r1"
  "same_progress r (r1\<lparr>input_cache_committed := c\<rparr>) = same_progress r r1"
  "same_progress r (apply_plan pl r1) = same_progress r r1"
  by (simp_all add: same_progress_def req_ident.truncate_def apply_plan_def apply_reuse_metrics_def)

lemma same_progress_ident:
  assumes "same_progress r r'"
  shows "rq_id r' = rq_id r" "prefill_len r' = prefill_len r"
  using assms by (simp_all add: same_progress_def req_ident.truncate_def)

text \<open>What a step that only calls the allocators keeps.\<close>

lemma bm_ok_keeps:
  fixes w w' :: bman
  assumes "bm_ok H M w" "winv M' w'" "keeps N w w'" "set (bm_reserved w) \<subseteq> set_mset N"
  shows "bm_ok H M' w'" "bm_refs w' = bm_refs w" "bm_table w' = bm_table w" "bm_reserved w' = bm_reserved w"
    "shape w' = shape w"
proof -
  note sel = more_sel [of w' w]
  show "shape w' = shape w" using assms(3) by (simp add: keeps_def shape_def)
  show "bm_table w' = bm_table w" "bm_reserved w' = bm_reserved w" "bm_refs w' = bm_refs w"
    using assms(3) sel by (auto simp: keeps_def bm_refs_def)
  moreover have "device_of (blk w' b) = GPU" if "b \<in> set (bm_reserved w)" for b
    using assms(1,3,4) that by (auto simp: keeps_def bm_ok_def same_content_def)
  ultimately show "bm_ok H M' w'" using assms(1-3) sel by (auto simp: keeps_def bm_ok_def)
qed

text \<open>A step that touches neither the allocators nor the fields of the manager.\<close>

lemma bm_ok_quiet:
  fixes w w' :: bman
  assumes "bm_ok H M w" "quiet w w'" "kv_ok w'" "cc_ok H (kv_chains (w_kv w'))"
    "kv_block_size (w_kv w') = kv_block_size (w_kv w)"
  shows "bm_ok H M w'" "bm_refs w' = bm_refs w" "bm_table w' = bm_table w" "shape w' = shape w"
proof -
  have more: "world.more w' = world.more w" and al: "w_al w' = w_al w" using assms(2) by (simp_all add: quiet_def)
  note sel = more_sel [OF more]
  show "shape w' = shape w" using assms(5) al by (simp add: shape_def)
  show "bm_table w' = bm_table w" "bm_refs w' = bm_refs w" using sel by (simp_all add: bm_refs_def)
  show "bm_ok H M w'"
    using assms al_inv_quiet [OF _ assms(2)] sel al by (auto simp: bm_ok_def winv_def quiet_def)
qed

section \<open>Plans\<close>

lemma build_input_keys_facts:
  assumes "kv_build_input_keys H r n w = (keys, w')" and "cc_ok H (kv_chains (w_kv w))" and "0 \<le> n"
  shows "int (length keys) \<le> n" "cc_ok H (kv_chains (w_kv w'))"
    "\<exists>kv. w' = w\<lparr>w_kv := kv\<rparr> \<and> kv_cache kv = kv_cache (w_kv w) \<and> kv_block_size kv = kv_block_size (w_kv w)"
proof -
  obtain ks cc where b: "build_prefix_keys H (kv_chains (w_kv w)) (take (nat n) (ids_or_empty (hash_ids r)))
      (kv_model (w_kv w)) (cache_salt r) (reuse_group r) = (ks, cc)" by (metis surj_pair)
  note memo = build_prefix_keys_memo [OF assms(2) b]
  then have len: "length ks \<le> nat n" by simp
  have same: "\<exists>kv. w = w\<lparr>w_kv := kv\<rparr> \<and> kv_cache kv = kv_cache (w_kv w) \<and> kv_block_size kv = kv_block_size (w_kv w)"
    by (rule exI [of _ "w_kv w"]) simp
  from assms len memo same show "int (length keys) \<le> n" "cc_ok H (kv_chains (w_kv w'))"
    "\<exists>kv. w' = w\<lparr>w_kv := kv\<rparr> \<and> kv_cache kv = kv_cache (w_kv w) \<and> kv_block_size kv = kv_block_size (w_kv w)"
    by (auto simp: kv_build_input_keys_def b Let_def split: if_splits option.splits)
qed

lemma leading_hits_facts:
  "leading_hits w keys = hits \<Longrightarrow> length hits \<le> length keys \<and>
   (\<forall>i < length hits. kv_cache (w_kv w) (keys ! i) = Some (hits ! i) \<and> is_gpu_hit w (Some (hits ! i)))"
proof (induction w keys arbitrary: hits rule: leading_hits.induct)
  case (2 w key keys)
  show ?case
  proof (cases hits)
    case (Cons a hs)
    with "2.prems" have a: "kv_cache (w_kv w) key = Some a" "is_gpu_hit w (Some a)" "leading_hits w keys = hs"
      by (auto split: option.splits if_splits)
    from "2.IH" [OF a] a Cons show ?thesis by (auto simp: nth_Cons split: nat.splits)
  qed simp
qed simp

lemma gpu_hit_pool:
  assumes "winv M w" "kv_cache (w_kv w) key = Some a" "is_gpu_hit w (Some a)"
  shows "a \<in> pool_blocks (w_pool w GPU)" "block_hash (blk w a) = Some key"
proof -
  have al: "al_inv M w" and kv: "kv_ok w" using assms(1) by (simp_all add: winv_def)
  have dev: "device_of (blk w a) = GPU" using assms(3) by (simp add: is_gpu_hit_def)
  then show "block_hash (blk w a) = Some key" using kv_okD(2) [OF kv assms(2)] by simp
  from kv_okD(1) [OF kv assms(2)] obtain d where d: "a \<in> pool_blocks (w_pool w d)" by (auto simp: world_blocks_pool)
  with pool_device [OF al d] dev show "a \<in> pool_blocks (w_pool w GPU)" by simp
qed

text \<open>A plan's hits are GPU blocks that carry the leading keys of the request.\<close>

lemma plan_reuse_facts:
  assumes plan: "plan_reuse H r w = (pl, w1)" and ok: "bm_ok H M w" and len: "0 \<le> prefill_len r"
  shows "bm_ok H M w1" "bm_table w1 = bm_table w" "bm_reserved w1 = bm_reserved w" "w_mem w1 = w_mem w" "w_al w1 = w_al w"
    "set (pl_hit_blocks pl) \<subseteq> pool_blocks (w_pool w1 GPU)"
    "\<And>i. i < length (pl_hit_blocks pl) \<Longrightarrow> block_hash (blk w1 (pl_hit_blocks pl ! i)) = Some (pl_input_keys pl ! i)"
    "length (pl_hit_blocks pl) \<le> length (pl_input_keys pl)"
    "int (length (pl_input_keys pl)) \<le> prefill_len r div kv_block_size (w_kv w)"
    "pl_total_logical_blocks pl = num_logical_token_blocks r" "bm_watermark_blocks w1 = bm_watermark_blocks w"
    "shape w1 = shape w"
proof -
  define n where "n = prefill_len r div kv_block_size (w_kv w)"
  obtain keys w2 where b: "kv_build_input_keys H r n w = (keys, w2)" by (metis surj_pair)
  have w2: "w1 = w2" and hits: "pl_hit_blocks pl = leading_hits w1 keys" and keys: "pl_input_keys pl = keys"
    and "pl_total_logical_blocks pl = num_logical_token_blocks r"
    using plan b by (auto simp: plan_reuse_def n_def Let_def)
  then show "pl_total_logical_blocks pl = num_logical_token_blocks r" by simp
  have w: "winv M w" "cc_ok H (kv_chains (w_kv w))" "0 < kv_block_size (w_kv w)" "kv_ok w"
    using ok by (simp_all add: bm_ok_def winv_def)
  have n0: "0 \<le> n" using len w(3) by (simp add: n_def pos_imp_zdiv_nonneg_iff)
  note facts = build_input_keys_facts [OF b w(2) n0, folded w2]
  then obtain kv where kv: "w1 = w\<lparr>w_kv := kv\<rparr>" "kv_cache kv = kv_cache (w_kv w)"
    "kv_block_size kv = kv_block_size (w_kv w)" by blast
  have "bm_ok H M (w\<lparr>w_kv := kv\<rparr>)"
    by (rule bm_ok_quiet [OF ok]) (use facts kv in \<open>simp_all add: kv_ok_kv_irrelevant [OF w(4)]\<close>)
  then show ok1: "bm_ok H M w1" by (simp add: kv(1))
  show "bm_table w1 = bm_table w" "bm_reserved w1 = bm_reserved w" "w_mem w1 = w_mem w" "w_al w1 = w_al w"
    "bm_watermark_blocks w1 = bm_watermark_blocks w" "shape w1 = shape w"
    by (simp_all add: kv shape_def)
  show "int (length (pl_input_keys pl)) \<le> prefill_len r div kv_block_size (w_kv w)"
    using facts(1) by (simp add: keys n_def)
  note lead = leading_hits_facts [OF hits [symmetric]]
  then show "length (pl_hit_blocks pl) \<le> length (pl_input_keys pl)" by (simp add: keys)
  have hit: "pl_hit_blocks pl ! i \<in> pool_blocks (w_pool w1 GPU)"
    "block_hash (blk w1 (pl_hit_blocks pl ! i)) = Some (keys ! i)" if "i < length (pl_hit_blocks pl)" for i
    using lead that gpu_hit_pool [of M w1 "keys ! i"] ok1 by (auto simp: bm_ok_def)
  then show "set (pl_hit_blocks pl) \<subseteq> pool_blocks (w_pool w1 GPU)" by (auto simp: in_set_conv_nth)
  show "block_hash (blk w1 (pl_hit_blocks pl ! i)) = Some (pl_input_keys pl ! i)" if "i < length (pl_hit_blocks pl)" for i
    using hit(2) [OF that] by (simp add: keys)
qed

section \<open>Admission\<close>

definition relabel :: "prefix_key option \<Rightarrow> bool \<Rightarrow> prefix_key phys_block \<Rightarrow> prefix_key phys_block" where
  "relabel k full b = b\<lparr>block_hash := k, is_full := full, cached := False\<rparr>"

text \<open>Writing the metadata of a block that is not cached keeps the index.\<close>

lemma bm_ok_relabel:
  assumes "bm_ok H M w" "\<not> cached (blk w a)"
  shows "bm_ok H M (set_blk a (relabel k full) w)" "quiet w (set_blk a (relabel k full) w)"
    "bm_table (set_blk a (relabel k full) w) = bm_table w" "shape (set_blk a (relabel k full) w) = shape w"
proof -
  show q: "quiet w (set_blk a (relabel k full) w)" by (rule quiet_set_blk) (simp_all add: relabel_def)
  have kv: "kv_ok w" and c: "cc_ok H (kv_chains (w_kv w))" using assms(1) by (simp_all add: bm_ok_def winv_def)
  have "kv_ok (set_blk a (relabel k full) w)"
    by (rule kv_ok_keep [OF kv]) (use assms(2) kv_okD(2) [OF kv] in \<open>auto simp: relabel_def\<close>)
  then show "bm_ok H M (set_blk a (relabel k full) w)" "bm_table (set_blk a (relabel k full) w) = bm_table w"
    "shape (set_blk a (relabel k full) w) = shape w"
    using bm_ok_quiet [OF assms(1) q] c by simp_all
qed

lemma mark_pending_step_eq:
  "mark_pending_step blocks plan (i, key) w =
     (if int i < hit_block_count plan \<or> length blocks \<le> i then w else set_blk (blocks ! i) (relabel (Some key) True) w)"
  by (simp add: mark_pending_step_def relabel_def [abs_def])

text \<open>The loop of \<^verbatim>\<open>_mark_input_blocks_pending\<close>, from index \<open>n\<close> on.\<close>

lemma mark_pending_loop:
  assumes "bm_ok H M w" and "distinct (drop hits blocks)" and hits: "hit_block_count plan = int hits"
    and "\<And>i. hits \<le> i \<Longrightarrow> i < length blocks \<Longrightarrow> \<not> cached (blk w (blocks ! i))"
  shows "bm_ok H M (fold (mark_pending_step blocks plan) (List.enumerate n keys) w) \<and>
    bm_table (fold (mark_pending_step blocks plan) (List.enumerate n keys) w) = bm_table w \<and>
    quiet w (fold (mark_pending_step blocks plan) (List.enumerate n keys) w) \<and>
    shape (fold (mark_pending_step blocks plan) (List.enumerate n keys) w) = shape w \<and>
    (\<forall>b. b \<notin> set (drop (max hits n) blocks) \<longrightarrow>
       blk (fold (mark_pending_step blocks plan) (List.enumerate n keys) w) b = blk w b) \<and>
    (\<forall>i < length keys. hits \<le> n + i \<longrightarrow> n + i < length blocks \<longrightarrow>
       block_hash (blk (fold (mark_pending_step blocks plan) (List.enumerate n keys) w) (blocks ! (n + i))) =
         Some (keys ! i))"
  using assms
proof (induction keys arbitrary: n w)
  case Nil
  then show ?case by simp
next
  case (Cons key keys)
  define w1 where "w1 = mark_pending_step blocks plan (n, key) w"
  define w2 where "w2 = fold (mark_pending_step blocks plan) (List.enumerate (Suc n) keys) w1"
  have eq: "fold (mark_pending_step blocks plan) (List.enumerate n (key # keys)) w = w2"
    by (simp add: w2_def w1_def)
  define live where "live \<longleftrightarrow> hits \<le> n \<and> n < length blocks"
  have w1: "w1 = (if live then set_blk (blocks ! n) (relabel (Some key) True) w else w)"
    by (auto simp: w1_def mark_pending_step_eq hits live_def)
  have step: "bm_ok H M w1" "bm_table w1 = bm_table w" "quiet w w1" "shape w1 = shape w"
    "\<And>i. hits \<le> i \<Longrightarrow> i < length blocks \<Longrightarrow> \<not> cached (blk w1 (blocks ! i))"
    using bm_ok_relabel [OF Cons.prems(1)] Cons.prems(1,4) by (auto simp: w1 live_def relabel_def)
  have IH: "bm_ok H M w2" "bm_table w2 = bm_table w1" "quiet w1 w2" "shape w2 = shape w1"
    "\<And>b. b \<notin> set (drop (max hits (Suc n)) blocks) \<Longrightarrow> blk w2 b = blk w1 b"
    "\<And>i. i < length keys \<Longrightarrow> hits \<le> Suc n + i \<Longrightarrow> Suc n + i < length blocks \<Longrightarrow>
       block_hash (blk w2 (blocks ! (Suc n + i))) = Some (keys ! i)"
    using Cons.IH [OF step(1) Cons.prems(2) hits step(5), of "Suc n"] by (simp_all add: w2_def)
  have now: "block_hash (blk w2 (blocks ! n)) = Some key" if live
  proof -
    have "distinct (drop (n - hits) (drop hits blocks))" using Cons.prems(2) by (rule distinct_drop)
    then have "distinct (blocks ! n # drop (Suc n) blocks)"
      using that by (simp add: live_def Cons_nth_drop_Suc)
    then have "blocks ! n \<notin> set (drop (max hits (Suc n)) blocks)" using that by (simp add: live_def max_def)
    from IH(5) [OF this] that show ?thesis by (simp add: w1 relabel_def)
  qed
  have out: "blk w2 b = blk w b" if "b \<notin> set (drop (max hits n) blocks)" for b
  proof -
    have "set (drop (max hits (Suc n)) blocks) \<subseteq> set (drop (max hits n) blocks)"
      by (rule set_drop_subset_set_drop) simp
    moreover have "b \<noteq> blocks ! n" if live
    proof -
      have "blocks ! n \<in> set (drop (max hits n) blocks)"
        using that by (auto simp: live_def max_def in_set_conv_nth intro: exI [of _ 0])
      with \<open>b \<notin> _\<close> show ?thesis by blast
    qed
    moreover from calculation(1) that have "b \<notin> set (drop (max hits (Suc n)) blocks)" by blast
    ultimately show ?thesis using IH(5) [of b] by (cases live) (simp_all add: w1)
  qed
  have keys: "block_hash (blk w2 (blocks ! (n + i))) = Some ((key # keys) ! i)"
    if "i < length (key # keys)" "hits \<le> n + i" "n + i < length blocks" for i
    using that now IH(6) [of "i - 1"] by (cases i) (auto simp: live_def)
  show ?case unfolding eq using IH(1-4) step(2-4) out keys quiet_trans by auto
qed

lemma sync_request_blocks_eq: "sync_request_blocks blocks r = r\<lparr>physical_token_blocks := blocks\<rparr>"
proof -
  have "fold append_physical_block bs s = s\<lparr>physical_token_blocks := physical_token_blocks s @ bs\<rparr>" for bs and s :: req
    by (induction bs arbitrary: s) (simp_all add: append_physical_block_def)
  then show ?thesis by (simp add: sync_request_blocks_def)
qed

text \<open>What a completed admission leaves behind.\<close>

definition admitted :: "(string \<Rightarrow> string) \<Rightarrow> reuse_plan \<Rightarrow> bman \<Rightarrow> req \<Rightarrow> bman \<Rightarrow> req \<Rightarrow> bool" where
  "admitted H plan w r w' r' \<longleftrightarrow> bm_inv H w' \<and> req_synced w' r' \<and> same_progress r r' \<and> shape w' = shape w \<and>
     (\<exists>bs. get_blocks (bm_table w') (rq_id r) = pl_hit_blocks plan @ bs \<and> length bs = nat (miss_block_count plan) \<and>
        distinct bs \<and> set bs \<inter> set_mset (bm_refs w) = {}) \<and>
     (\<forall>j. j \<noteq> rq_id r \<longrightarrow> get_blocks (bm_table w') j = get_blocks (bm_table w) j) \<and>
     input_cache_keys r' = pl_input_keys plan \<and> \<not> input_cache_committed r' \<and>
     (\<forall>i. i < length (pl_input_keys plan) \<longrightarrow> i < length (get_blocks (bm_table w') (rq_id r)) \<longrightarrow>
        block_hash (blk w' (get_blocks (bm_table w') (rq_id r) ! i)) = Some (pl_input_keys plan ! i))"

lemma allocate_finish:
  fixes w1 w2 :: bman
  assumes ok: "bm_ok H (mset (pl_hit_blocks plan @ bs) + bm_refs w1) w2"
    and t: "bm_table w2 = bm_table w1" "bm_reserved w2 = bm_reserved w1" "get_blocks (bm_table w1) (rq_id r) = []"
      "shape w2 = shape w1"
    and bs: "length bs = nat (miss_block_count plan)" "distinct bs" "set bs \<inter> set_mset (bm_refs w1) = {}"
      "\<forall>b \<in> set bs. \<not> cached (blk w2 b)" "set bs \<inter> set (pl_hit_blocks plan) = {}"
    and hits: "\<And>i. i < length (pl_hit_blocks plan) \<Longrightarrow> block_hash (blk w2 (pl_hit_blocks plan ! i)) = Some (pl_input_keys plan ! i)"
    and fin: "mark_input_blocks_pending (pl_hit_blocks plan @ bs) plan
      (w2\<lparr>bm_table := add_blocks (rq_id r) (pl_hit_blocks plan @ bs) (bm_table w2)\<rparr>,
       sync_request_blocks (pl_hit_blocks plan @ bs) (apply_plan plan r)) = (w', r')"
  shows "admitted H plan w1 r w' r'"
proof -
  define blocks where "blocks = pl_hit_blocks plan @ bs"
  define t' where "t' = add_blocks (rq_id r) blocks (bm_table w1)"
  define w3 where "w3 = w2\<lparr>bm_table := t'\<rparr>"
  define w4 where "w4 = fold (mark_pending_step blocks plan) (List.enumerate 0 (pl_input_keys plan)) w3"
  have tok: "table_ok (bm_table w1)" using ok t(1) by (simp add: bm_ok_def)
  have ok3: "bm_ok H (mset blocks + bm_refs w1) w3"
    unfolding w3_def blocks_def by (rule bm_ok_table [OF ok]) (simp add: t'_def tok)
  have clean: "\<not> cached (blk w3 (blocks ! i))" if "length (pl_hit_blocks plan) \<le> i" "i < length blocks" for i
    using that bs(4) by (auto simp: w3_def blocks_def nth_append)
  have loop: "bm_ok H (mset blocks + bm_refs w1) w4" "bm_table w4 = t'" "quiet w3 w4" "shape w4 = shape w3"
    "\<And>b. b \<notin> set bs \<Longrightarrow> blk w4 b = blk w2 b"
    "\<And>i. i < length (pl_input_keys plan) \<Longrightarrow> length (pl_hit_blocks plan) \<le> i \<Longrightarrow> i < length blocks \<Longrightarrow>
       block_hash (blk w4 (blocks ! i)) = Some (pl_input_keys plan ! i)"
    using mark_pending_loop [where n = 0 and keys = "pl_input_keys plan" and plan = plan, OF ok3 _ _ clean] bs(2)
    unfolding w4_def [symmetric] by (simp_all add: blocks_def hit_block_count_def, simp_all add: w3_def)
  have w': "w' = w4" using fin
    by (auto simp: mark_input_blocks_pending_def Let_def w4_def w3_def t'_def blocks_def t(1) split: if_splits)
  have r': "input_cache_keys r' = pl_input_keys plan" "\<not> input_cache_committed r'" "rq_id r' = rq_id r"
    "physical_token_blocks r' = blocks"
    using fin by (auto simp: mark_input_blocks_pending_def Let_def sync_request_blocks_eq apply_plan_def
        apply_reuse_metrics_def blocks_def split: if_splits)
  have progress: "same_progress r r'"
    using fin by (auto simp: mark_input_blocks_pending_def Let_def sync_request_blocks_eq split: if_splits)
  have get: "get_blocks t' j = (if j = rq_id r then blocks else get_blocks (bm_table w1) j)" for j
    using t(3) by (simp add: t'_def add_blocks_def)
  have "world.more w4 = world.more w3" using loop(3) by (simp add: quiet_def)
  from more_sel(2) [OF this] have "bm_reserved w4 = bm_reserved w1" using t(2) by (simp add: w3_def)
  then have "bm_refs w4 = mset blocks + bm_refs w1"
    by (simp add: bm_refs_def loop(2) t'_def table_refs_add_blocks [OF tok] ac_simps)
  then have inv: "bm_inv H w4" using loop(1) by (simp add: bm_inv_def)
  have keys: "block_hash (blk w4 (blocks ! i)) = Some (pl_input_keys plan ! i)"
    if "i < length (pl_input_keys plan)" "i < length blocks" for i
  proof (cases "i < length (pl_hit_blocks plan)")
    case True
    then have "blocks ! i \<notin> set bs" using bs(5) by (auto simp: blocks_def nth_append dest: nth_mem)
    then show ?thesis using True hits [OF True] loop(5) by (simp add: blocks_def nth_append)
  qed (use loop(6) that in simp)
  show ?thesis
    unfolding admitted_def w' loop(2) req_synced_def r' get using inv keys bs r'(2) progress loop(4) t(4)
    by (auto simp: blocks_def w3_def)
qed

text \<open>The plan does not depend on whether the keys were memoised by an earlier plan.\<close>

lemma plan_reuse_again:
  assumes "plan_reuse H r w = (pl, w1)" and ok: "bm_ok H M w" and "0 \<le> prefill_len r"
  shows "fst (plan_reuse H r w1) = pl"
proof -
  define n where "n = prefill_len r div kv_block_size (w_kv w)"
  obtain keys w2 where b: "kv_build_input_keys H r n w = (keys, w2)" by (metis surj_pair)
  have w2: "w2 = w1" using assms(1) b by (auto simp: plan_reuse_def n_def Let_def)
  have cc: "cc_ok H (kv_chains (w_kv w))" and sz: "0 < kv_block_size (w_kv w)" using ok by (simp_all add: bm_ok_def)
  have n0: "0 \<le> n" using assms(3) sz by (simp add: n_def pos_imp_zdiv_nonneg_iff)
  obtain kv where kv: "w1 = w\<lparr>w_kv := kv\<rparr>" "kv_cache kv = kv_cache (w_kv w)" "kv_block_size kv = kv_block_size (w_kv w)"
    and kvw: "w_kv w1 = kv" and cc1: "cc_ok H (kv_chains kv)"
    using build_input_keys_facts [OF b cc n0] by (auto simp: w2)
  obtain ks c where b1: "build_prefix_keys H (kv_chains (w_kv w)) (take (nat n) (ids_or_empty (hash_ids r)))
      (kv_model (w_kv w)) (cache_salt r) (reuse_group r) = (ks, c)" by (metis surj_pair)
  obtain ks' c' where b2: "build_prefix_keys H (kv_chains kv) (take (nat n) (ids_or_empty (hash_ids r)))
      (kv_model kv) (cache_salt r) (reuse_group r) = (ks', c')" by (metis surj_pair)
  have "kv_model (w_kv w1) = kv_model (w_kv w)" and "\<not> no_ids (hash_ids r) \<Longrightarrow>
      kv_input_keys (w_kv w1) (rq_id r) = Some keys" "no_ids (hash_ids r) \<Longrightarrow> keys = []"
    "int (length keys) \<noteq> n \<Longrightarrow> \<not> no_ids (hash_ids r) \<Longrightarrow> keys = ks"
    using b by (auto simp: kv_build_input_keys_def b1 Let_def w2 split: if_splits option.splits)
  note model = this(1) [unfolded kvw] and memo = this(2-4) [unfolded kvw]
  have "ks' = ks" using build_prefix_keys_memo [OF cc b1] build_prefix_keys_memo [OF cc1 b2] model by simp
  then have "fst (kv_build_input_keys H r n w1) = keys"
    using memo by (simp add: kv_build_input_keys_def kv(1) b2 Let_def)
  then obtain w3 where b3: "kv_build_input_keys H r n w1 = (keys, w3)" by (metis prod.collapse)
  moreover have "leading_hits w3 ks = leading_hits w1 ks" for ks
  proof -
    have "\<exists>kv3. w3 = w1\<lparr>w_kv := kv3\<rparr> \<and> kv_cache kv3 = kv_cache (w_kv w1) \<and> kv_block_size kv3 = kv_block_size (w_kv w1)"
      using build_input_keys_facts(3) [OF b3 _ n0] cc1 by (simp add: kv(1))
    then show ?thesis by (auto, induction ks) (auto simp: is_gpu_hit_def split: option.splits)
  qed
  moreover have "kv_block_size (w_kv w3) = kv_block_size (w_kv w1)"
    using build_input_keys_facts(3) [OF b3 _ n0] cc1 by (auto simp: kv(1))
  moreover have "prefill_len r div kv_block_size (w_kv w1) = n" by (simp add: kvw kv(3) n_def)
  ultimately have "fst (plan_reuse H r w1) = fst (plan_reuse H r w)"
    using b by (simp add: plan_reuse_def n_def [symmetric] Let_def w2)
  then show ?thesis by (simp add: assms(1))
qed

lemma allocate_cases:
  assumes inv: "bm_inv H w" and len: "0 \<le> prefill_len r" and new: "get_blocks (bm_table w) (rq_id r) = []"
    and plan: "plan_reuse H r w = (pl, w1)"
  shows "(\<exists>w' r'. bm_allocate H (w, r) = (Ok (), w', r') \<and> admitted H pl w r w' r') \<or>
    (\<exists>w'. bm_allocate H (w, r) = (Raise OutOfBlocksError, w', r) \<and> bm_inv H w' \<and>
       bm_table w' = bm_table w \<and> bm_reserved w' = bm_reserved w \<and> shape w' = shape w)"
proof -
  note pf = plan_reuse_facts [OF plan inv [unfolded bm_inv_def] len]
  have refs: "bm_refs w1 = bm_refs w" by (simp add: bm_refs_def pf)
  have win: "winv (bm_refs w) w1" using pf(1) by (simp add: bm_ok_def)
  define g where "g = grant (al_acquire GPU) (al_allocate GPU) (\<lambda>a. al_free GPU (Some a))
    (pl_hit_blocks pl) (nat (miss_block_count pl)) w1"
  have unf: "bm_allocate H (w, r) = (case g of (Raise e, w2) \<Rightarrow> (Raise e, w2, r)
     | (Ok blocks, w2) \<Rightarrow> (Ok (), mark_input_blocks_pending blocks pl
         (w2\<lparr>bm_table := add_blocks (rq_id r) blocks (bm_table w2)\<rparr>, sync_request_blocks blocks (apply_plan pl r))))"
    using new by (simp add: bm_allocate_def plan g_def get_num_blocks_def Let_def split: prod.split result.split)
  from al.grant_cases [OF win pf(6), of "nat (miss_block_count pl)", folded g_def]
  consider (ok) bs w2 where "g = (Ok (pl_hit_blocks pl @ bs), w2)" "length bs = nat (miss_block_count pl)" "distinct bs"
      "set bs \<inter> (set_mset (bm_refs w) \<union> set (pl_hit_blocks pl)) = {}"
      "winv (mset (pl_hit_blocks pl @ bs) + bm_refs w) w2" "keeps (mset (pl_hit_blocks pl) + bm_refs w) w1 w2" "\<forall>b \<in> set bs. \<not> cached (blk w2 b)"
    | (out) w2 where "g = (Raise OutOfBlocksError, w2)" "winv (bm_refs w) w2" "keeps (bm_refs w) w1 w2"
    by blast
  then show ?thesis
  proof cases
    case out
    have res: "set (bm_reserved w1) \<subseteq> set_mset (bm_refs w)" using pf(3) by (simp add: bm_refs_def)
    note k = bm_ok_keeps [OF pf(1) out(2,3) res]
    then show ?thesis using out unf pf refs by (auto simp: bm_inv_def)
  next
    case ok
    have res: "set (bm_reserved w1) \<subseteq> set_mset (mset (pl_hit_blocks pl) + bm_refs w)"
      using pf(3) by (auto simp: bm_refs_def)
    note k = bm_ok_keeps [OF pf(1) ok(5,6) res]
    obtain w' r' where fin: "mark_input_blocks_pending (pl_hit_blocks pl @ bs) pl
      (w2\<lparr>bm_table := add_blocks (rq_id r) (pl_hit_blocks pl @ bs) (bm_table w2)\<rparr>,
       sync_request_blocks (pl_hit_blocks pl @ bs) (apply_plan pl r)) = (w', r')" by (metis surj_pair)
    have hits: "block_hash (blk w2 (pl_hit_blocks pl ! i)) = Some (pl_input_keys pl ! i)"
      if "i < length (pl_hit_blocks pl)" for i
    proof -
      have "pl_hit_blocks pl ! i \<in># mset (pl_hit_blocks pl) + bm_refs w" using that by simp
      then have "same_content (blk w1 (pl_hit_blocks pl ! i)) (blk w2 (pl_hit_blocks pl ! i))"
        using ok(6) unfolding keeps_def by blast
      then show ?thesis using pf(7) [OF that] by (simp add: same_content_def)
    qed
    have "admitted H pl w1 r w' r'"
      by (rule allocate_finish [OF _ _ _ _ _ ok(2,3) _ ok(7) _ hits fin]) (use k ok(4) pf new refs in auto)
    then have "admitted H pl w r w' r'" by (simp add: admitted_def refs pf)
    then show ?thesis using unf ok(1) fin by auto
  qed
qed

lemma can_allocate_grant:
  assumes inv: "bm_inv H w" and len: "0 \<le> prefill_len r" and new: "get_blocks (bm_table w) (rq_id r) = []"
    and fit: "prefill_len r div kv_block_size (w_kv w) \<le> num_logical_token_blocks r"
    and plan: "plan_reuse H r w = (pl, w1)" and can: "fst (bm_can_allocate H r w)"
  shows "\<exists>w' r'. bm_allocate H (w, r) = (Ok (), w', r') \<and> admitted H pl w r w' r'"
proof -
  note pf = plan_reuse_facts [OF plan inv [unfolded bm_inv_def] len]
  have win: "winv (bm_refs w) w1" using pf(1) by (simp add: bm_ok_def)
  have miss: "0 \<le> miss_block_count pl"
    using pf(8-10) fit by (simp add: miss_block_count_def hit_block_count_def)
  have zero: "zero_ref_hit_blocks w1 pl = int (length (filter (\<lambda>a. a \<notin># bm_refs w) (pl_hit_blocks pl)))"
  proof -
    have "ref_count (blk w1 a) = 0 \<longleftrightarrow> a \<notin># bm_refs w" if "a \<in> set (pl_hit_blocks pl)" for a
      using al_invD(5) [of "bm_refs w" w1 a GPU] win pf(6) that
      by (auto simp: winv_def not_in_iff)
    then show ?thesis by (simp add: zero_ref_hit_blocks_def cong: filter_cong)
  qed
  have "0 \<le> bm_watermark_blocks w1" using pf(1) by (simp add: bm_ok_def)
  then have "int (length (filter (\<lambda>a. a \<notin># bm_refs w) (pl_hit_blocks pl))) + int (nat (miss_block_count pl))
      \<le> al_get_num_free_blocks GPU w1"
    using can miss by (simp add: bm_can_allocate_def plan Let_def zero)
  from al.grant_ok [OF win pf(6) this] obtain bs w2 where
    "grant (al_acquire GPU) (al_allocate GPU) (\<lambda>a. al_free GPU (Some a)) (pl_hit_blocks pl)
       (nat (miss_block_count pl)) w1 = (Ok (pl_hit_blocks pl @ bs), w2)" by blast
  then have "fst (bm_allocate H (w, r)) = Ok ()"
    using new by (simp add: bm_allocate_def plan get_num_blocks_def Let_def)
  then show ?thesis using allocate_cases [OF inv len new plan] by auto
qed

section \<open>Every operation keeps the references\<close>

text \<open>
  What an operation on one request promises: the manager is consistent, the request lists its blocks
  of the table, and the entries of other requests are as before.
\<close>

definition op_ok :: "(string \<Rightarrow> string) \<Rightarrow> bman \<Rightarrow> req \<Rightarrow> bman \<Rightarrow> req \<Rightarrow> bool" where
  "op_ok H w r w' r' \<longleftrightarrow> bm_inv H w' \<and> req_synced w' r' \<and> same_progress r r' \<and> shape w' = shape w \<and>
     rq_id r' = rq_id r \<and> prefill_len r' = prefill_len r \<and>
     (\<forall>j. j \<noteq> rq_id r \<longrightarrow> get_blocks (bm_table w') j = get_blocks (bm_table w) j)"

lemma table_world_blocks:
  assumes "bm_inv H w"
  shows "set (get_blocks (bm_table w) i) \<subseteq> world_blocks w" "set (bm_reserved w) \<subseteq> world_blocks w"
proof -
  have tok: "table_ok (bm_table w)" and sub: "set_mset (bm_refs w) \<subseteq> world_blocks w"
    using assms al_invD(7) by (auto simp: bm_inv_def bm_ok_def winv_def)
  then show "set (get_blocks (bm_table w) i) \<subseteq> world_blocks w" "set (bm_reserved w) \<subseteq> world_blocks w"
    using blocks_in_refs [OF tok, of i] by (auto simp: bm_refs_def)
qed

lemma kv_sizes_register_blocks [simp]:
  fixes w :: "'a world_scheme"
  shows "kv_block_size (w_kv (register_blocks bs ks w)) = kv_block_size (w_kv w)"
  "kv_chains (w_kv (register_blocks bs ks w)) = kv_chains (w_kv w)"
proof -
  have one: "kv_block_size (w_kv (register_block a k w)) = kv_block_size (w_kv w)"
    "kv_chains (w_kv (register_block a k w)) = kv_chains (w_kv w)" for a k and w :: "'a world_scheme"
    by (simp_all add: register_block_def Let_def)
  have "kv_block_size (w_kv (fold (\<lambda>(a, k). register_block a k) xs w)) = kv_block_size (w_kv w)"
    "kv_chains (w_kv (fold (\<lambda>(a, k). register_block a k) xs w)) = kv_chains (w_kv w)" for xs
    by (induction xs arbitrary: w) (simp_all add: one split_beta)
  then show "kv_block_size (w_kv (register_blocks bs ks w)) = kv_block_size (w_kv w)"
    "kv_chains (w_kv (register_blocks bs ks w)) = kv_chains (w_kv w)" by (simp_all add: register_blocks_def)
qed

lemma commit_input_ok:
  assumes "bm_inv H w" "req_synced w r" "commit_input_cache (w, r) = (w', r')"
  shows "op_ok H w r w' r'" "bm_table w' = bm_table w" "bm_refs w' = bm_refs w"
proof -
  define w1 where "w1 = (if input_cache_committed r \<or> input_cache_keys r = [] then w
    else register_blocks (take (length (input_cache_keys r)) (get_blocks (bm_table w) (rq_id r))) (input_cache_keys r) w)"
  have eq: "w' = w1" "rq_id r' = rq_id r" "physical_token_blocks r' = physical_token_blocks r" "prefill_len r' = prefill_len r"
    "same_progress r r'"
    using assms(3) by (auto simp: commit_input_cache_def Let_def w1_def split: if_splits)
  have q: "quiet w w1" by (simp add: w1_def quiet_register_blocks)
  have "kv_ok w" "cc_ok H (kv_chains (w_kv w))" using assms(1) by (simp_all add: bm_inv_def bm_ok_def winv_def)
  moreover have "set (take n (get_blocks (bm_table w) i)) \<subseteq> world_blocks w" for n i
    using table_world_blocks(1) [OF assms(1), of i] by (auto dest: in_set_takeD)
  ultimately have "kv_ok w1" "cc_ok H (kv_chains (w_kv w1))" "kv_block_size (w_kv w1) = kv_block_size (w_kv w)"
    by (auto simp: w1_def intro!: kv_ok_register_blocks)
  note ok = bm_ok_quiet [OF assms(1) [unfolded bm_inv_def] q this]
  then show "bm_table w' = bm_table w" "bm_refs w' = bm_refs w" by (simp_all add: eq)
  with ok(1,4) show "op_ok H w r w' r'" using assms(2) eq by (simp add: op_ok_def bm_inv_def req_synced_def)
qed

lemma register_output_ok:
  assumes "bm_inv H w" "set bs \<subseteq> world_blocks w" and w': "w' = register_output_blocks H r bs w"
  shows "bm_inv H w'" "bm_table w' = bm_table w" "bm_refs w' = bm_refs w" "shape w' = shape w"
proof -
  have q: "quiet w w'" unfolding w' by (rule quiet_register_output_blocks)
  have kv: "kv_ok w" and cc: "cc_ok H (kv_chains (w_kv w))" using assms(1) by (simp_all add: bm_inv_def bm_ok_def winv_def)
  have "cc_ok H (snd (build_prefix_keys H (kv_chains (w_kv w)) hs m salt g))" for hs m salt g
    using build_prefix_keys_memo [OF cc] by (metis prod.collapse)
  then have "cc_ok H (kv_chains (w_kv w'))" "kv_block_size (w_kv w') = kv_block_size (w_kv w)"
    using cc unfolding w' register_output_blocks_def Let_def by (auto simp: split_beta)
  note ok = bm_ok_quiet [OF assms(1) [unfolded bm_inv_def] q kv_ok_register_output_blocks [OF kv assms(2), of H r, folded w'] this]
  then show "bm_inv H w'" "bm_table w' = bm_table w" "bm_refs w' = bm_refs w" "shape w' = shape w"
    by (simp_all add: bm_inv_def)
qed

lemma commit_finished_ok:
  assumes "bm_inv H w" "req_synced w r" "commit_finished_cache H (w, r) = (w', r')"
  shows "op_ok H w r w' r'" "bm_table w' = bm_table w" "bm_refs w' = bm_refs w"
proof -
  obtain w1 where c: "commit_input_cache (w, r) = (w1, r')"
    and w': "w' = register_output_blocks H r' (get_blocks (bm_table w1) (rq_id r')) w1"
    using assms(3) by (auto simp: commit_finished_cache_def Let_def split: prod.splits)
  note in_ok = commit_input_ok [OF assms(1,2) c]
  then have inv1: "bm_inv H w1" by (simp add: op_ok_def)
  note out = register_output_ok [OF inv1 table_world_blocks(1) [OF inv1] w']
  then show "bm_table w' = bm_table w" "bm_refs w' = bm_refs w" using in_ok by simp_all
  then show "op_ok H w r w' r'" using out in_ok by (simp add: op_ok_def req_synced_def)
qed

lemma release_request_ok:
  assumes "bm_inv H w" "req_synced w r"
  shows "\<exists>w' r'. release_request_blocks (w, r) = (Ok (), w', r') \<and> op_ok H w r w' r' \<and>
    get_blocks (bm_table w') (rq_id r) = [] \<and> bm_refs w' + mset (get_blocks (bm_table w) (rq_id r)) = bm_refs w"
proof -
  define bs where "bs = get_blocks (bm_table w) (rq_id r)"
  define t where "t = snd (pop_blocks (rq_id r) (bm_table w))"
  have tok: "table_ok (bm_table w)" using assms(1) by (simp add: bm_inv_def bm_ok_def)
  have pop: "pop_blocks (rq_id r) (bm_table w) = (bs, t)" by (simp add: pop_blocks_def bs_def t_def)
  have bs': "(if bs \<noteq> [] then bs else physical_token_blocks r) = bs" using assms(2) by (simp add: req_synced_def bs_def)
  have refs: "bm_refs w = mset bs + (table_refs t + mset (bm_reserved w))"
    using table_refs_pop_blocks [OF tok, of "rq_id r"] by (simp add: bm_refs_def pop ac_simps)
  have ok: "bm_ok H (mset bs + (table_refs t + mset (bm_reserved w))) (w\<lparr>bm_table := t\<rparr>)"
    using assms(1) bm_ok_table [of H "bm_refs w" w t] tok by (simp add: bm_inv_def refs t_def)
  have "set bs \<subseteq> world_blocks (w\<lparr>bm_table := t\<rparr>)"
    using table_world_blocks(1) [OF assms(1), of "rq_id r"] by (simp add: bs_def world_blocks_def)
  with any.release_each_ok [of bs "table_refs t + mset (bm_reserved w)" "w\<lparr>bm_table := t\<rparr>"] ok obtain w1 where
    w1: "for_each bm_free_block bs (w\<lparr>bm_table := t\<rparr>) = (Ok (), w1)" "winv (table_refs t + mset (bm_reserved w)) w1"
      "keeps (table_refs t + mset (bm_reserved w)) (w\<lparr>bm_table := t\<rparr>) w1" by (auto simp: bm_ok_def)
  have "set (bm_reserved (w\<lparr>bm_table := t\<rparr>)) \<subseteq> set_mset (table_refs t + mset (bm_reserved w))" by simp
  note k = bm_ok_keeps [OF ok w1(2,3) this]
  have "quiet w1 (forget_request (rq_id r) w1)" by (simp add: forget_request_def)
  from bm_ok_quiet [OF k(1) this] k
  have fin: "bm_ok H (table_refs t + mset (bm_reserved w)) (forget_request (rq_id r) w1)"
    by (simp add: forget_request_def bm_ok_def winv_def kv_ok_kv_irrelevant)
  have eq: "release_request_blocks (w, r) = (Ok (), forget_request (rq_id r) w1, r\<lparr>physical_token_blocks := []\<rparr>)"
    by (simp only: release_request_blocks_def Let_def prod.case pop bs' w1(1) result.case)
  have tab: "bm_table (forget_request (rq_id r) w1) = t" "bm_reserved (forget_request (rq_id r) w1) = bm_reserved w"
    "shape (forget_request (rq_id r) w1) = shape w"
    using k(3-5) by (simp_all add: forget_request_def shape_def)
  have get: "get_blocks t j = (if j = rq_id r then [] else get_blocks (bm_table w) j)" for j
    by (simp add: t_def pop_blocks_def)
  show ?thesis
    using eq fin by (auto simp: op_ok_def bm_inv_def bm_refs_def tab req_synced_def get)
      (use refs in \<open>simp_all add: bm_refs_def bs_def ac_simps\<close>)
qed

end
