(* ===== verification/Block_Lifecycle.thy ===== *)
theory Block_Lifecycle
  imports Block_Manager
begin

text \<open>
  The block manager over its whole life: the remaining operations keep the references, swapping moves
  every block of a request, and any sequence of operations from a new manager accounts for every block.
\<close>

lemma reserved_refs: "set (bm_reserved w) \<subseteq> set_mset (bm_refs w)"
  by (simp add: bm_refs_def)

section \<open>Growing and shrinking\<close>

lemma append_slot_ok:
  assumes "bm_inv H w" "req_synced w r"
  shows "(\<exists>w' r'. append_slot (w, r) = (Ok (), w', r') \<and> op_ok H w r w' r') \<or>
    append_slot (w, r) = (Raise OutOfBlocksError, w, r) \<and> al_get_num_free_blocks GPU w \<le> 0 \<and>
      get_num_blocks (bm_table w) (rq_id r) < num_logical_token_blocks r"
proof (cases "get_num_blocks (bm_table w) (rq_id r) < num_logical_token_blocks r")
  case False
  then show ?thesis using assms by (simp add: append_slot_def op_ok_def)
next
  case True
  have ok: "bm_ok H (bm_refs w) w" and win: "winv (bm_refs w) w" using assms(1) by (simp_all add: bm_inv_def bm_ok_def)
  show ?thesis
  proof (cases "0 < al_get_num_free_blocks GPU w")
    case False
    then show ?thesis using True al.alloc_none [OF win False] by (simp add: append_slot_def)
  next
    case free: True
    from al.alloc_ok [OF win free] obtain a w1 where
      a: "al_allocate GPU w = (Ok a, w1)" "winv (add_mset a (bm_refs w)) w1" "keeps (bm_refs w) w w1" by blast
    note k = bm_ok_keeps [OF ok a(2,3) reserved_refs]
    define t where "t = add_block (rq_id r) a (bm_table w)"
    have tok: "table_ok (bm_table w)" using ok by (simp add: bm_ok_def)
    have "bm_ok H (add_mset a (bm_refs w)) (w1\<lparr>bm_table := t\<rparr>)"
      by (rule bm_ok_table [OF k(1)]) (simp add: t_def tok)
    moreover have "bm_refs (w1\<lparr>bm_table := t\<rparr>) = add_mset a (bm_refs w)"
      using k(4) by (simp add: bm_refs_def t_def table_refs_add_block [OF tok])
    ultimately have "bm_inv H (w1\<lparr>bm_table := t\<rparr>)" by (simp add: bm_inv_def)
    moreover have "append_slot (w, r) = (Ok (), w1\<lparr>bm_table := t\<rparr>, append_physical_block a r)"
      using True a(1) k(3) by (simp add: append_slot_def t_def)
    ultimately show ?thesis
      using assms(2) k(5) by (auto simp: op_ok_def req_synced_def append_physical_block_def t_def add_block_def)
  qed
qed

lemma rollback_ok:
  assumes "bm_inv H w" "req_synced w r"
  shows "\<exists>w' r'. rollback_last_block (w, r) = (Ok (), w', r') \<and> op_ok H w r w' r' \<and>
    get_blocks (bm_table w') (rq_id r) = butlast (get_blocks (bm_table w) (rq_id r))"
proof -
  obtain ob t where pop: "pop_last_block (rq_id r) (bm_table w) = (ob, t)" by (metis surj_pair)
  have ok: "bm_ok H (bm_refs w) w" and tok: "table_ok (bm_table w)" using assms(1) by (simp_all add: bm_inv_def bm_ok_def)
  show ?thesis
  proof (cases ob)
    case None
    then have "get_blocks (bm_table w) (rq_id r) = []"
      using pop by (auto simp: pop_last_block_def Let_def split: if_splits)
    then show ?thesis using None pop assms by (simp add: rollback_last_block_def op_ok_def)
  next
    case (Some b)
    note refs = table_refs_pop_last [OF tok pop [unfolded Some]]
    have t: "table_ok t" using table_ok_ops(5) [OF tok, of "rq_id r"] by (simp add: pop)
    have other: "get_blocks t j = get_blocks (bm_table w) j" if "j \<noteq> rq_id r" for j
      using pop that by (auto simp: pop_last_block_def Let_def split: if_splits)
    have refs': "bm_refs w = add_mset b (table_refs t + mset (bm_reserved w))" by (simp add: bm_refs_def refs)
    have ok1: "bm_ok H (bm_refs w) (w\<lparr>bm_table := t\<rparr>)" by (rule bm_ok_table [OF ok t])
    then have win: "winv (bm_refs w) (w\<lparr>bm_table := t\<rparr>)" by (simp add: bm_ok_def)
    have "b \<in> world_blocks (w\<lparr>bm_table := t\<rparr>)"
      using al_invD(7) [of "bm_refs w"] win by (auto simp: winv_def refs')
    from any.rel_ok [OF win this] obtain w1 where
      w1: "bm_free_block b (w\<lparr>bm_table := t\<rparr>) = (Ok (), w1)" "winv (table_refs t + mset (bm_reserved w)) w1"
        "keeps (table_refs t + mset (bm_reserved w)) (w\<lparr>bm_table := t\<rparr>) w1" by (auto simp: refs')
    note k = bm_ok_keeps [OF ok1 w1(2,3), simplified]
    have "bm_inv H w1" using k by (simp add: bm_inv_def bm_refs_def)
    then show ?thesis
      using pop Some w1(1) k refs(2) other
      by (auto simp: rollback_last_block_def sync_request_blocks_eq op_ok_def req_synced_def)
  qed
qed

lemma fork_ok:
  assumes "bm_inv H w" "req_synced w child"
  shows "(\<exists>w' r'. fork parent (w, child) = (Ok (), w', r') \<and> op_ok H w child w' r' \<and>
       get_blocks (bm_table w') (rq_id child) = get_blocks (bm_table w) (rq_id parent) \<and>
       get_blocks (bm_table w') (rq_id child) \<noteq> []) \<or>
    fork parent (w, child) = (Raise SimulationStateError, w, child) \<and>
      (get_blocks (bm_table w) (rq_id child) \<noteq> [] \<or> get_blocks (bm_table w) (rq_id parent) = [])"
proof (cases "get_blocks (bm_table w) (rq_id child) \<noteq> [] \<or> get_blocks (bm_table w) (rq_id parent) = []")
  case True
  then have "fork parent (w, child) = (Raise SimulationStateError, w, child)" by (simp add: fork_def get_num_blocks_def Let_def)
  with True show ?thesis by blast
next
  case False
  define bs where "bs = get_blocks (bm_table w) (rq_id parent)"
  have ok: "bm_ok H (bm_refs w) w" and win: "winv (bm_refs w) w" and tok: "table_ok (bm_table w)"
    using assms(1) by (simp_all add: bm_inv_def bm_ok_def)
  from any.acquire_all_ok [OF win table_world_blocks(1) [OF assms(1)], of "rq_id parent" "[]"] obtain w1 where
    w1: "acquire_each acquire_any bs [] w = (Ok (), bs, w1)" "winv (mset bs + bm_refs w) w1" "\<And>N. keeps N w w1"
    by (auto simp: bs_def)
  note k = bm_ok_keeps [OF ok w1(2,3) reserved_refs]
  define t where "t = add_blocks (rq_id child) bs (bm_table w)"
  have "bm_ok H (mset bs + bm_refs w) (w1\<lparr>bm_table := t\<rparr>)"
    by (rule bm_ok_table [OF k(1)]) (simp add: t_def tok)
  moreover have "bm_refs (w1\<lparr>bm_table := t\<rparr>) = mset bs + bm_refs w"
    using k(4) by (simp add: bm_refs_def t_def table_refs_add_blocks [OF tok])
  ultimately have "bm_inv H (w1\<lparr>bm_table := t\<rparr>)" by (simp add: bm_inv_def)
  moreover have "fork parent (w, child) = (Ok (), w1\<lparr>bm_table := t\<rparr>, sync_request_blocks bs child)"
    using False w1(1) k(3) by (simp add: fork_def get_num_blocks_def bs_def t_def Let_def)
  ultimately show ?thesis
    using False k(5) by (auto simp: op_ok_def req_synced_def sync_request_blocks_eq t_def add_blocks_def bs_def)
qed

section \<open>Reserved blocks\<close>

lemma reserve_ok:
  assumes "bm_inv H w"
  shows "(\<exists>bs w'. reserve_gpu_blocks n w = (Ok (), w') \<and> bm_inv H w' \<and> shape w' = shape w \<and> bm_table w' = bm_table w \<and>
       bm_reserved w' = bm_reserved w @ bs \<and> length bs = nat n) \<or>
    (\<exists>w'. reserve_gpu_blocks n w = (Raise OutOfBlocksError, w') \<and> bm_inv H w' \<and> shape w' = shape w \<and> bm_table w' = bm_table w \<and>
       bm_reserved w' = bm_reserved w \<and> al_get_num_free_blocks GPU w < n)"
proof -
  have ok: "bm_ok H (bm_refs w) w" and win: "winv (bm_refs w) w" using assms by (simp_all add: bm_inv_def bm_ok_def)
  show ?thesis
  proof (cases "int (nat n) \<le> al_get_num_free_blocks GPU w")
    case True
    from al.allocate_each_ok [OF win True, of "[]"] obtain bs w1 where
      w1: "allocate_each (al_allocate GPU) (nat n) [] w = (Ok (), bs, w1)" "length bs = nat n"
        "winv (mset bs + bm_refs w) w1" "keeps (bm_refs w) w w1" "\<forall>b \<in> set bs. device_of (blk w1 b) = GPU" by auto
    note k = bm_ok_keeps [OF ok w1(3,4) reserved_refs]
    have "bm_inv H (w1\<lparr>bm_reserved := bm_reserved w1 @ bs\<rparr>)"
      using bm_ok_reserved [OF k(1), of "bm_reserved w1 @ bs"] k(1,3,4) w1(5)
      by (auto simp: bm_inv_def bm_refs_def bm_ok_def ac_simps)
    then show ?thesis using w1 k by (auto simp: reserve_gpu_blocks_def)
  next
    case False
    from al.allocate_each_out [OF win False, of "[]"] obtain bs w1 where
      w1: "allocate_each (al_allocate GPU) (nat n) [] w = (Raise OutOfBlocksError, bs, w1)"
        "winv (mset bs + bm_refs w) w1" "keeps (bm_refs w) w w1" "set bs \<subseteq> pool_blocks (w_pool w1 GPU)" by auto
    from al.release_each_ok [OF w1(2,4)] obtain w2 where
      w2: "for_each (\<lambda>a. al_free GPU (Some a)) bs w1 = (Ok (), w2)" "winv (bm_refs w) w2" "keeps (bm_refs w) w1 w2" by auto
    note k = bm_ok_keeps [OF ok w2(2) keeps_trans [OF w1(3) w2(3) subset_mset.order_refl] reserved_refs]
    have "0 \<le> al_get_num_free_blocks GPU w" by (rule al.free_nonneg [OF win])
    then have "al_get_num_free_blocks GPU w < n" using False by linarith
    then show ?thesis using w1(1) w2(1) k by (auto simp: reserve_gpu_blocks_def give_back_def bm_inv_def)
  qed
qed

lemma release_reserved_loop_ok:
  assumes "bm_inv H w" and "n \<le> length (bm_reserved w)"
  shows "\<exists>w'. release_reserved_loop n w = (Ok (), w') \<and> bm_inv H w' \<and> bm_table w' = bm_table w \<and> shape w' = shape w \<and>
    bm_reserved w' = drop n (bm_reserved w)"
  using assms
proof (induction n arbitrary: w)
  case 0
  then show ?case by simp
next
  case (Suc n)
  from Suc.prems(2) obtain b bs where r: "bm_reserved w = b # bs" by (cases "bm_reserved w") auto
  have ok: "bm_ok H (bm_refs w) (w\<lparr>bm_reserved := bs\<rparr>)"
    using bm_ok_reserved [of H "bm_refs w" w bs] Suc.prems(1) by (simp add: bm_inv_def bm_ok_def r)
  then have win: "winv (bm_refs w) (w\<lparr>bm_reserved := bs\<rparr>)" by (simp add: bm_ok_def)
  have "al_inv (bm_refs w) w" "device_of (blk w b) = GPU" "b \<in># bm_refs w"
    using Suc.prems(1) by (simp_all add: bm_inv_def bm_ok_def winv_def r bm_refs_def)
  then have "b \<in> pool_blocks (w_pool w GPU)" using referenced_pool by metis
  with al.rel_ok [OF win, of b GPU] obtain w1 where
    w1: "al_free GPU (Some b) (w\<lparr>bm_reserved := bs\<rparr>) = (Ok (), w1)" "winv (bm_refs w - {#b#}) w1"
      "keeps (bm_refs w - {#b#}) (w\<lparr>bm_reserved := bs\<rparr>) w1"
    by (auto simp: r bm_refs_def)
  have "set (bm_reserved (w\<lparr>bm_reserved := bs\<rparr>)) \<subseteq> set_mset (bm_refs w - {#b#})" by (simp add: bm_refs_def r)
  note k = bm_ok_keeps [OF ok w1(2,3) this]
  have "bm_refs w1 = bm_refs w - {#b#}" using k(3,4) by (simp add: bm_refs_def r)
  then have "bm_inv H w1" using k(1) by (simp add: bm_inv_def)
  from Suc.IH [OF this] k(3-5) Suc.prems(2) obtain w' where
    "release_reserved_loop n w1 = (Ok (), w')" "bm_inv H w'" "bm_table w' = bm_table w" "shape w' = shape w"
    "bm_reserved w' = drop n bs"
    by (auto simp: r)
  then show ?case using w1(1) by (simp add: r)
qed

section \<open>Swapping\<close>

lemma swap_each_ok:
  assumes "bm_ok H M w" and "int (length srcs) \<le> al_get_num_free_blocks d w" and "set srcs \<subseteq> set_mset M"
    and "set (bm_reserved w) \<subseteq> set_mset M"
  shows "\<exists>bs w'. swap_each d srcs ts w = (Ok (), ts @ bs, w') \<and> length bs = length srcs \<and> distinct bs \<and>
    set bs \<inter> set_mset M = {} \<and> bm_ok H (mset bs + M) w' \<and> keeps M w w' \<and>
    (\<forall>b \<in> set bs. device_of (blk w' b) = d) \<and>
    (\<forall>i < length srcs. block_hash (blk w' (bs ! i)) = block_hash (blk w (srcs ! i)) \<and>
       is_full (blk w' (bs ! i)) = is_full (blk w (srcs ! i)))"
  using assms
proof (induction srcs arbitrary: M w ts)
  case Nil
  then show ?case by simp
next
  case (Cons src srcs)
  have win: "winv M w" using Cons.prems(1) by (simp add: bm_ok_def)
  from al.alloc_ok [OF win, of d] Cons.prems(2) obtain a w1 where
    a: "al_allocate d w = (Ok a, w1)" "a \<notin># M" "winv (add_mset a M) w1" "keeps M w w1"
      "device_of (blk w1 a) = d" "\<not> cached (blk w1 a)" "al_get_num_free_blocks d w1 = al_get_num_free_blocks d w - 1"
    by auto
  define w2 where "w2 = set_blk a (relabel (block_hash (blk w1 src)) (is_full (blk w1 src))) w1"
  note k = bm_ok_keeps [OF Cons.prems(1) a(3,4) Cons.prems(4)]
  note w2 = bm_ok_relabel [OF k(1) a(6), where k = "block_hash (blk w1 src)" and full = "is_full (blk w1 src)",
      folded w2_def]
  have blk2: "blk w2 b = (if b = a then relabel (block_hash (blk w1 src)) (is_full (blk w1 src)) (blk w1 a) else blk w1 b)" for b
    by (simp add: w2_def)
  have keep2: "keeps M w w2"
    using a(2,4) w2(2) blk2 by (auto simp: keeps_def quiet_def w2_def world_blocks_def)
  have free2: "int (length srcs) \<le> al_get_num_free_blocks d w2"
    using Cons.prems(2) a(7) quiet_free_count [OF w2(2)] by simp
  have "set srcs \<subseteq> set_mset (add_mset a M)" using Cons.prems(3) by auto
  moreover have "set (bm_reserved w2) \<subseteq> set_mset (add_mset a M)"
    using Cons.prems(4) k(4) more_sel(2) [of w2 w1] w2(2) by (auto simp: quiet_def)
  ultimately obtain bs w' where
    IH: "swap_each d srcs (ts @ [a]) w2 = (Ok (), ts @ a # bs, w')" "length bs = length srcs" "distinct bs"
      "set bs \<inter> set_mset (add_mset a M) = {}" "bm_ok H (mset bs + add_mset a M) w'" "keeps (add_mset a M) w2 w'"
      "\<forall>b \<in> set bs. device_of (blk w' b) = d"
      "\<forall>i < length srcs. block_hash (blk w' (bs ! i)) = block_hash (blk w2 (srcs ! i)) \<and>
         is_full (blk w' (bs ! i)) = is_full (blk w2 (srcs ! i))"
    using Cons.IH [OF w2(1) free2, of "ts @ [a]"] by auto
  have eq: "swap_each d (src # srcs) ts w = (Ok (), ts @ a # bs, w')"
    using IH(1) by (simp add: a(1) w2_def relabel_def [abs_def] Let_def)
  have old: "block_hash (blk w2 b) = block_hash (blk w b) \<and> is_full (blk w2 b) = is_full (blk w b)" if "b \<in># M" for b
    using keep2 that by (auto simp: keeps_def same_content_def)
  have new: "device_of (blk w' a) = d" "block_hash (blk w' a) = block_hash (blk w src)" "is_full (blk w' a) = is_full (blk w src)"
  proof -
    have c: "same_content (blk w2 a) (blk w' a)" using IH(6) by (simp add: keeps_def)
    have "src \<noteq> a" "src \<in># M" using a(2) Cons.prems(3) by auto
    then have "blk w2 src = blk w1 src" by (simp add: blk2)
    with c old [OF \<open>src \<in># M\<close>] a(5) show "device_of (blk w' a) = d"
      "block_hash (blk w' a) = block_hash (blk w src)" "is_full (blk w' a) = is_full (blk w src)"
      by (simp_all add: same_content_def blk2 relabel_def)
  qed
  have labels: "block_hash (blk w' ((a # bs) ! i)) = block_hash (blk w ((src # srcs) ! i)) \<and>
      is_full (blk w' ((a # bs) ! i)) = is_full (blk w ((src # srcs) ! i))" if "i < length (src # srcs)" for i
    using that new IH(8) old Cons.prems(3) by (cases i) (auto dest: nth_mem)
  have "keeps M w w'" using keeps_trans [OF keep2 IH(6)] by simp
  with eq IH(2-5,7) new(1) a(2) labels show ?case
    by (intro exI [of _ "a # bs"] exI [of _ w']) auto
qed

lemma swap_ok:
  assumes inv: "bm_inv H w" and syn: "req_synced w r"
    and bs0: "bs0 = get_blocks (bm_table w) (rq_id r)"
    and dev: "\<forall>b \<in> set bs0. device_of (blk w b) = source"
    and free: "int (length bs0) \<le> al_get_num_free_blocks target w"
  shows "\<exists>bs w' r'. bm_swap source target (w, r) = (Ok (), w', r') \<and> op_ok H w r w' r' \<and>
    get_blocks (bm_table w') (rq_id r) = bs \<and> length bs = length bs0 \<and> distinct bs \<and>
    set bs \<inter> set_mset (bm_refs w) = {} \<and> (\<forall>b \<in> set bs. device_of (blk w' b) = target) \<and>
    (\<forall>i < length bs0. block_hash (blk w' (bs ! i)) = block_hash (blk w (bs0 ! i)) \<and>
       is_full (blk w' (bs ! i)) = is_full (blk w (bs0 ! i)))"
proof -
  have ok: "bm_ok H (bm_refs w) w" and tok: "table_ok (bm_table w)" using inv by (simp_all add: bm_inv_def bm_ok_def)
  have sub: "set bs0 \<subseteq> set_mset (bm_refs w)" using blocks_in_refs [OF tok, of "rq_id r"] by (auto simp: bs0 bm_refs_def)
  define R where "R = table_refs (bm_table w) - mset bs0 + mset (bm_reserved w)"
  have R: "bm_refs w = mset bs0 + R"
    using table_refs_delete [OF tok, of "rq_id r"] by (simp add: R_def bm_refs_def bs0 ac_simps)
  from swap_each_ok [OF ok free sub reserved_refs, of "[]"] obtain bs w1 where
    s: "swap_each target bs0 [] w = (Ok (), bs, w1)" "length bs = length bs0" "distinct bs"
      "set bs \<inter> set_mset (bm_refs w) = {}" "bm_ok H (mset bs + bm_refs w) w1" "keeps (bm_refs w) w w1"
      "\<forall>b \<in> set bs. device_of (blk w1 b) = target"
      "\<forall>i < length bs0. block_hash (blk w1 (bs ! i)) = block_hash (blk w (bs0 ! i)) \<and>
         is_full (blk w1 (bs ! i)) = is_full (blk w (bs0 ! i))" by auto
  have tab: "bm_table w1 = bm_table w" "bm_reserved w1 = bm_reserved w" "shape w1 = shape w"
    using s(6) more_sel [of w1 w] by (auto simp: keeps_def shape_def)
  define t where "t = set_blocks (rq_id r) bs (bm_table w)"
  have trefs: "table_refs t + mset (bm_reserved w) = mset bs + R"
    by (simp add: t_def table_refs_set_blocks [OF tok] R_def bs0)
  define w2 where "w2 = w1\<lparr>bm_table := t\<rparr>"
  have ok2: "bm_ok H (mset bs0 + (mset bs + R)) w2"
    using bm_ok_table [OF s(5), of t] tok by (simp add: w2_def t_def R ac_simps)
  then have win2: "winv (mset bs0 + (mset bs + R)) w2" by (simp add: bm_ok_def)
  have "set bs0 \<subseteq> world_blocks w2" using al_invD(7) [of "mset bs0 + (mset bs + R)" w2] win2 by (auto simp: winv_def)
  from any.release_each_ok [OF win2 this] obtain w3 where
    w3: "for_each bm_free_block bs0 w2 = (Ok (), w3)" "winv (mset bs + R) w3" "keeps (mset bs + R) w2 w3" by auto
  have "set (bm_reserved w2) \<subseteq> set_mset (mset bs + R)" by (auto simp: w2_def tab R_def)
  note k = bm_ok_keeps [OF ok2 w3(2,3) this]
  have tab3: "bm_table w3 = t" "bm_reserved w3 = bm_reserved w" "shape w3 = shape w"
    using k(3-5) tab by (simp_all add: w2_def)
  have "validate_blocks_device bs0 source w = Ok ()" using dev by (auto simp: validate_blocks_device_def)
  then have eq: "bm_swap source target (w, r) = (Ok (), w3, sync_request_blocks bs r)"
    using free s(1) w3(1) by (simp add: bm_swap_def bs0 [symmetric] Let_def w2_def t_def tab)
  have get: "get_blocks t j = (if j = rq_id r then bs else get_blocks (bm_table w) j)" for j
    using s(2) by (auto simp: t_def set_blocks_def)
  have same: "same_content (blk w1 b) (blk w3 b)" if "b \<in> set bs" for b
    using w3(3) that by (auto simp: keeps_def w2_def)
  have "bm_inv H w3" using k(1) trefs by (simp add: bm_inv_def bm_refs_def tab3)
  then have "op_ok H w r w3 (sync_request_blocks bs r)"
    by (simp add: op_ok_def req_synced_def tab3 get sync_request_blocks_eq)
  moreover have "device_of (blk w3 b) = target" if "b \<in> set bs" for b
    using same [OF that] s(7) that by (simp add: same_content_def)
  moreover have "block_hash (blk w3 (bs ! i)) = block_hash (blk w (bs0 ! i)) \<and>
      is_full (blk w3 (bs ! i)) = is_full (blk w (bs0 ! i))" if "i < length bs0" for i
    using same [of "bs ! i"] s(2,8) that by (simp add: same_content_def)
  ultimately show ?thesis using eq s(2-4) by (auto simp: tab3 get)
qed

section \<open>Any sequence of operations\<close>

text \<open>
  The manager and the requests it serves, by id. A step is one call of the manager with any outcome, or
  a change of a request by its own operations, which do not write its block list.
\<close>

type_synonym bm_state = "bman \<times> (int \<Rightarrow> req)"

inductive bm_step :: "(string \<Rightarrow> string) \<Rightarrow> bm_state \<Rightarrow> bm_state \<Rightarrow> bool" for H where
  ask: "bm_step H (w, rs) (snd (bm_can_allocate H (rs i) w), rs)"
| allocate: "bm_allocate H (w, rs i) = (res, w', r') \<Longrightarrow> bm_step H (w, rs) (w', rs(i := r'))"
| append: "append_slot (w, rs i) = (res, w', r') \<Longrightarrow> bm_step H (w, rs) (w', rs(i := r'))"
| rollback: "rollback_last_block (w, rs i) = (res, w', r') \<Longrightarrow> bm_step H (w, rs) (w', rs(i := r'))"
| fork: "fork (rs j) (w, rs i) = (res, w', r') \<Longrightarrow> bm_step H (w, rs) (w', rs(i := r'))"
| swap_out: "swap_out (w, rs i) = (res, w', r') \<Longrightarrow> bm_step H (w, rs) (w', rs(i := r'))"
| swap_in: "swap_in (w, rs i) = (res, w', r') \<Longrightarrow> bm_step H (w, rs) (w', rs(i := r'))"
| commit_input: "commit_input_cache (w, rs i) = (w', r') \<Longrightarrow> bm_step H (w, rs) (w', rs(i := r'))"
| commit_finished: "commit_finished_cache H (w, rs i) = (w', r') \<Longrightarrow> bm_step H (w, rs) (w', rs(i := r'))"
| release: "release_request_blocks (w, rs i) = (res, w', r') \<Longrightarrow> bm_step H (w, rs) (w', rs(i := r'))"
| free: "bm_free H (w, rs i) = (res, w', r') \<Longrightarrow> bm_step H (w, rs) (w', rs(i := r'))"
| reserve: "reserve_gpu_blocks n w = (res, w') \<Longrightarrow> bm_step H (w, rs) (w', rs)"
| release_reserved: "release_reserved_blocks k w = (res, w') \<Longrightarrow> bm_step H (w, rs) (w', rs)"
| request: "rq_id r' = rq_id (rs i) \<Longrightarrow> physical_token_blocks r' = physical_token_blocks (rs i) \<Longrightarrow>
    0 \<le> prefill_len r' \<Longrightarrow> bm_step H (w, rs) (w, rs(i := r'))"

inductive bm_reachable :: "(string \<Rightarrow> string) \<Rightarrow> bman \<Rightarrow> bm_state \<Rightarrow> bool" for H w0 where
  start: "(\<And>i. rq_id (rs i) = i \<and> physical_token_blocks (rs i) = [] \<and> 0 \<le> prefill_len (rs i)) \<Longrightarrow>
    bm_reachable H w0 (w0, rs)"
| step: "bm_reachable H w0 s \<Longrightarrow> bm_step H s s' \<Longrightarrow> bm_reachable H w0 s'"

definition sys_inv :: "(string \<Rightarrow> string) \<Rightarrow> bman \<Rightarrow> bm_state \<Rightarrow> bool" where
  "sys_inv H w0 s \<longleftrightarrow> bm_inv H (fst s) \<and> shape (fst s) = shape w0 \<and>
     (\<forall>i. rq_id (snd s i) = i \<and> req_synced (fst s) (snd s i) \<and> 0 \<le> prefill_len (snd s i))"

lemma sys_inv_op:
  assumes "sys_inv H w0 (w, rs)" "op_ok H w (rs i) w' r'"
  shows "sys_inv H w0 (w', rs(i := r'))"
  using assms by (auto simp: sys_inv_def op_ok_def req_synced_def)

lemma sys_inv_same:
  assumes "sys_inv H w0 (w, rs)" "bm_inv H w'" "bm_table w' = bm_table w" "shape w' = shape w"
  shows "sys_inv H w0 (w', rs)"
  using assms by (auto simp: sys_inv_def req_synced_def)

lemma op_ok_refl: "bm_inv H w \<Longrightarrow> req_synced w r \<Longrightarrow> op_ok H w r w r"
  by (simp add: op_ok_def)

lemma op_ok_trans: "op_ok H w r w1 r1 \<Longrightarrow> op_ok H w1 r1 w2 r2 \<Longrightarrow> op_ok H w r w2 r2"
  by (auto simp: op_ok_def intro: same_progress_trans)

lemma allocate_op:
  assumes "bm_inv H w" "req_synced w r" "0 \<le> prefill_len r" "bm_allocate H (w, r) = (res, w', r')"
  shows "op_ok H w r w' r'"
proof (cases "get_blocks (bm_table w) (rq_id r) = []")
  case False
  then show ?thesis using assms by (simp add: bm_allocate_def get_num_blocks_def op_ok_refl)
next
  case True
  obtain pl w1 where plan: "plan_reuse H r w = (pl, w1)" by (metis surj_pair)
  show ?thesis
    using allocate_cases [OF assms(1,3) True plan] assms(2,4)
    by (auto simp: op_ok_def admitted_def req_synced_def dest: same_progress_ident)
qed

lemma swap_op:
  assumes "bm_inv H w" "req_synced w r" "bm_swap source target (w, r) = (res, w', r')"
  shows "op_ok H w r w' r'"
proof (cases "(\<forall>b \<in> set (get_blocks (bm_table w) (rq_id r)). device_of (blk w b) = source) \<and>
    int (length (get_blocks (bm_table w) (rq_id r))) \<le> al_get_num_free_blocks target w")
  case True
  then show ?thesis using swap_ok [OF assms(1,2) refl, of source target] assms(3) by auto
next
  case False
  then have "w' = w" "r' = r"
    using assms(3) by (auto simp: bm_swap_def validate_blocks_device_def Let_def split: if_splits)
  then show ?thesis using assms by (simp add: op_ok_refl)
qed

lemma free_op:
  assumes "bm_inv H w" "req_synced w r"
  shows "\<exists>w' r'. bm_free H (w, r) = (Ok (), w', r') \<and> op_ok H w r w' r' \<and> get_blocks (bm_table w') (rq_id r) = [] \<and>
    bm_refs w' + mset (get_blocks (bm_table w) (rq_id r)) = bm_refs w"
proof -
  obtain w1 r1 where c: "commit_finished_cache H (w, r) = (w1, r1)" by (metis surj_pair)
  note ok = commit_finished_ok [OF assms c]
  then have "bm_inv H w1" "req_synced w1 r1" "rq_id r1 = rq_id r" by (simp_all add: op_ok_def)
  with release_request_ok [of H w1 r1] ok op_ok_trans [OF ok(1)] show ?thesis by (fastforce simp: bm_free_def c)
qed

lemma release_reserved_op:
  assumes "bm_inv H w" "release_reserved_blocks k w = (res, w')"
  shows "bm_inv H w' \<and> bm_table w' = bm_table w \<and> shape w' = shape w"
proof -
  define n where "n = (case k of None \<Rightarrow> int (length (bm_reserved w)) | Some k \<Rightarrow> k)"
  show ?thesis
  proof (cases "n < 0 \<or> int (length (bm_reserved w)) < n")
    case True
    then show ?thesis using assms by (auto simp: release_reserved_blocks_def n_def Let_def split: if_splits option.splits)
  next
    case False
    then have "nat n \<le> length (bm_reserved w)" by linarith
    with release_reserved_loop_ok [OF assms(1) this] assms(2) False show ?thesis
      by (auto simp: release_reserved_blocks_def n_def [symmetric] Let_def)
  qed
qed

lemma table_ops:
  assumes "bm_inv H w" "req_synced w r"
  shows "append_slot (w, r) = (res, w', r') \<Longrightarrow> op_ok H w r w' r'"
    and "rollback_last_block (w, r) = (res, w', r') \<Longrightarrow> op_ok H w r w' r'"
    and "fork parent (w, r) = (res, w', r') \<Longrightarrow> op_ok H w r w' r'"
    and "release_request_blocks (w, r) = (res, w', r') \<Longrightarrow> op_ok H w r w' r'"
    and "bm_free H (w, r) = (res, w', r') \<Longrightarrow> op_ok H w r w' r'"
  using append_slot_ok [OF assms] rollback_ok [OF assms] fork_ok [OF assms, of parent]
    release_request_ok [OF assms] free_op [OF assms] op_ok_refl [OF assms] by auto

lemma ask_op:
  assumes "bm_inv H w" "0 \<le> prefill_len r"
  shows "bm_inv H (snd (bm_can_allocate H r w))" "bm_table (snd (bm_can_allocate H r w)) = bm_table w"
    "shape (snd (bm_can_allocate H r w)) = shape w"
proof -
  obtain pl w1 where plan: "plan_reuse H r w = (pl, w1)" by (metis surj_pair)
  note pf = plan_reuse_facts [OF plan assms(1) [unfolded bm_inv_def] assms(2)]
  then show "bm_inv H (snd (bm_can_allocate H r w))" "bm_table (snd (bm_can_allocate H r w)) = bm_table w"
    "shape (snd (bm_can_allocate H r w)) = shape w"
    by (simp_all add: bm_can_allocate_def plan bm_inv_def bm_refs_def)
qed

lemma sys_invD:
  assumes "sys_inv H w0 (w, rs)"
  shows "bm_inv H w" "req_synced w (rs i)" "0 \<le> prefill_len (rs i)"
  using assms by (simp_all add: sys_inv_def)

lemma sys_inv_req:
  assumes "sys_inv H w0 (w, rs)"
    and "bm_inv H w \<Longrightarrow> req_synced w (rs i) \<Longrightarrow> 0 \<le> prefill_len (rs i) \<Longrightarrow> op_ok H w (rs i) w' r'"
  shows "sys_inv H w0 (w', rs(i := r'))"
  using sys_inv_op [OF assms(1) assms(2) [OF sys_invD [OF assms(1)]]] .

lemma sys_inv_step:
  assumes "bm_step H s s'" "sys_inv H w0 s"
  shows "sys_inv H w0 s'"
  using assms
proof (induction rule: bm_step.induct)
  case (ask w rs i)
  then show ?case using sys_inv_same [of H w0 w rs] ask_op [of H w "rs i"] sys_invD [of H w0 w rs] by simp
next
  case (request r' rs i w)
  then show ?case by (auto simp: sys_inv_def req_synced_def)
next
  case (reserve n w res w' rs)
  then show ?case using reserve_ok [of H w n] by (auto simp: sys_inv_def req_synced_def)
next
  case (release_reserved k w res w' rs)
  then show ?case using release_reserved_op [of H w k res w'] by (auto simp: sys_inv_def req_synced_def)
qed (unfold swap_out_def swap_in_def, (erule sys_inv_req,
  blast intro: allocate_op swap_op commit_input_ok(1) commit_finished_ok(1) table_ops)+)

lemma new_block_manager_ok:
  assumes "0 < sz" "0 \<le> gpu" "0 \<le> cpu" "0 \<le> watermark"
  shows "bm_inv H (new_block_manager sz gpu cpu model watermark)"
proof -
  define w where "w = new_block_manager sz gpu cpu model watermark"
  have pool: "w_pool w d = new_pool d sz (if d = GPU then gpu else cpu)" for d
    by (cases d) (simp_all add: w_def new_block_manager_def new_allocator_def)
  have "0 \<le> (if d = GPU then gpu else cpu)" for d :: device using assms by simp
  then have "pool_inv (w_mem w) (w_pool w d)" for d unfolding pool by (rule new_pool_inv)
  moreover have "pool_blocks (w_pool w d) = {}" for d by (simp add: pool pool_blocks_def new_pool_def)
  moreover have "al_num_blocks (w_al w d) = bp_num_blocks (w_pool w d)" for d
    by (cases d) (simp_all add: w_def new_block_manager_def new_allocator_def new_pool_def)
  ultimately have "al_inv {#} w" by (simp add: al_inv_def pool new_pool_def)
  moreover have "kv_ok w" by (simp add: kv_ok_def w_def new_block_manager_def new_kvm_def)
  moreover have "al_has_kv (w_al w GPU)" "\<not> al_has_kv (w_al w CPU)"
    by (simp_all add: w_def new_block_manager_def new_allocator_def)
  ultimately have "winv {#} w" by (simp add: winv_def)
  moreover have "bm_refs w = {#}" "bm_table w = []" "bm_reserved w = []"
    by (simp_all add: bm_refs_def w_def new_block_manager_def)
  moreover have nn: "0 \<le> watermark * real_of_int gpu" using assms by simp
  then have "0 \<le> bm_watermark_blocks w" by (simp add: w_def new_block_manager_def not_less)
  moreover have "kv_chains (w_kv w) = new_chain_cache" "kv_block_size (w_kv w) = sz"
    by (simp_all add: w_def new_block_manager_def new_kvm_def)
  ultimately show ?thesis using assms(1) by (simp add: bm_inv_def bm_ok_def cc_ok_new w_def [symmetric])
qed

lemma reachable_inv:
  assumes "bm_reachable H w0 s" "bm_inv H w0" "bm_table w0 = []"
  shows "sys_inv H w0 s"
  using assms
  by (induction rule: bm_reachable.induct) (auto simp: sys_inv_def [of H w0 "(w0, _)"] req_synced_def intro: sys_inv_step)

definition sample_req :: req where
  "sample_req = post_init ((default_request 3 9 2 4)\<lparr>hash_ids := Some [HInt 10, HInt 11]\<rparr>)"

definition sample_manager :: bman where
  "sample_manager = new_block_manager 4 8 8 ''m'' (1 / 4)"

definition sample_reqs :: "int \<Rightarrow> req" where
  "sample_reqs i = sample_req\<lparr>rq_id := i\<rparr>"

lemma sample_start: "bm_reachable H sample_manager (sample_manager, sample_reqs)"
  by (rule start) (simp add: sample_reqs_def sample_req_def default_request_def post_init_def append_tokens_def Let_def)

section \<open>Properties\<close>

text \<open>
  C1. No block is leaked or counted twice: after any sequence of calls on a new manager, failing ones
  included, the reference count of every block of either device is the number of times the block table
  and the reserve list hold it, the free queue holds exactly the blocks that nobody holds, and the
  number of allocated blocks the allocator reports is the number of blocks with a reference; the
  capacities stay those the manager was made with.
\<close>

theorem block_accounting:
  assumes "0 < sz" "0 \<le> gpu" "0 \<le> cpu" "0 \<le> watermark"
    and "bm_reachable H (new_block_manager sz gpu cpu model watermark) (w, rs)"
  shows "(\<forall>a. a \<in> pool_blocks (w_pool w d) \<longrightarrow>
      ref_count (blk w a) = count (table_refs (bm_table w)) a + count_list (bm_reserved w) a \<and>
      (a \<in> set (fq_list (bp_free (w_pool w d))) \<longleftrightarrow> ref_count (blk w a) = 0)) \<and>
    al_get_num_allocated_blocks d w = int (card {a \<in> pool_blocks (w_pool w d). ref_count (blk w a) \<noteq> 0}) \<and>
    0 \<le> al_get_num_free_blocks d w \<and>
    al_get_num_free_blocks d w + al_get_num_allocated_blocks d w = (if d = GPU then gpu else cpu)"
proof -
  have "bm_table (new_block_manager sz gpu cpu model watermark) = []" by (simp add: new_block_manager_def)
  from reachable_inv [OF assms(5) new_block_manager_ok [OF assms(1-4)] this] have "bm_inv H w" and shape: "shape w = (sz, gpu, cpu)"
    by (simp_all add: sys_inv_def) (simp add: shape_def new_block_manager_def new_allocator_def new_kvm_def)
  then have al: "al_inv (bm_refs w) w" by (simp add: bm_inv_def bm_ok_def winv_def)
  have refs: "ref_count (blk w a) = count (bm_refs w) a" if "a \<in> pool_blocks (w_pool w d)" for a
    by (rule al_invD(5) [OF al that])
  have "held (bm_refs w) w d = {a \<in> pool_blocks (w_pool w d). ref_count (blk w a) \<noteq> 0}"
    using refs by (auto simp: held_def count_eq_zero_iff)
  then show ?thesis
    using shape free_count [OF al, of d] al_free_nonneg [OF al, of d] refs al_invD(6) [OF al, of _ d]
    by (cases d) (auto simp: shape_def al_get_num_allocated_blocks_def bm_refs_def count_mset count_eq_zero_iff count_list_0_iff)
qed

theorem block_accounting_witness:
  "al_get_num_allocated_blocks GPU (fst (snd (bm_allocate (\<lambda>s. s) (sample_manager, sample_reqs 3)))) = 3 \<and>
   card {a \<in> pool_blocks (w_pool (fst (snd (bm_allocate (\<lambda>s. s) (sample_manager, sample_reqs 3)))) GPU).
     ref_count (blk (fst (snd (bm_allocate (\<lambda>s. s) (sample_manager, sample_reqs 3)))) a) \<noteq> 0} = 3"
proof -
  obtain res w' r' where a: "bm_allocate (\<lambda>s. s) (sample_manager, sample_reqs 3) = (res, w', r')" by (metis surj_pair)
  have "al_get_num_allocated_blocks GPU (fst (snd (bm_allocate (\<lambda>s. s) (sample_manager, sample_reqs 3)))) = 3"
    by code_simp
  moreover have "bm_reachable (\<lambda>s. s) sample_manager (w', sample_reqs(3 := r'))"
    by (rule step [OF sample_start allocate [where rs = sample_reqs and i = 3, OF a]])
  from block_accounting [OF _ _ _ _ this [unfolded sample_manager_def], of GPU]
  have "al_get_num_allocated_blocks GPU w' = int (card {a \<in> pool_blocks (w_pool w' GPU). ref_count (blk w' a) \<noteq> 0})"
    by simp
  ultimately show ?thesis by (simp add: a)
qed

text \<open>
  C8. Admission control is sound: when \<^verbatim>\<open>can_allocate\<close> says yes for a request without blocks
  whose prompt fits its logical blocks, the following \<^verbatim>\<open>allocate\<close> succeeds, with no other request
  disturbed. The request gets one block per logical block; the first ones are the cached blocks the plan
  found, the others are blocks nobody held; and every block of the prompt carries the key of its position.
\<close>

theorem can_allocate_admits:
  assumes "bm_inv H w" and "0 \<le> prefill_len r" and "get_blocks (bm_table w) (rq_id r) = []"
    and "prefill_len r div kv_block_size (w_kv w) \<le> num_logical_token_blocks r"
    and "bm_can_allocate H r w = (True, w1)" and "bm_allocate H (w1, r) = (res, w', r')"
  shows "res = Ok () \<and> bm_inv H w' \<and> physical_token_blocks r' = get_blocks (bm_table w') (rq_id r) \<and>
    int (length (get_blocks (bm_table w') (rq_id r))) = num_logical_token_blocks r \<and>
    (\<exists>bs. get_blocks (bm_table w') (rq_id r) = pl_hit_blocks (fst (plan_reuse H r w)) @ bs \<and> distinct bs \<and>
       set bs \<inter> set_mset (bm_refs w) = {}) \<and>
    (\<forall>j. j \<noteq> rq_id r \<longrightarrow> get_blocks (bm_table w') j = get_blocks (bm_table w) j) \<and>
    (\<forall>i. i < length (input_cache_keys r') \<longrightarrow> i < length (get_blocks (bm_table w') (rq_id r)) \<longrightarrow>
       block_hash (blk w' (get_blocks (bm_table w') (rq_id r) ! i)) = Some (input_cache_keys r' ! i))"
proof -
  obtain pl where plan: "plan_reuse H r w = (pl, w1)"
    using assms(5) by (auto simp: bm_can_allocate_def Let_def split: prod.splits)
  note pf = plan_reuse_facts [OF plan assms(1) [unfolded bm_inv_def] assms(2)]
  have refs: "bm_refs w1 = bm_refs w" by (simp add: bm_refs_def pf)
  then have inv1: "bm_inv H w1" using pf(1) by (simp add: bm_inv_def)
  obtain w2 where plan1: "plan_reuse H r w1 = (pl, w2)"
    using plan_reuse_again [OF plan assms(1) [unfolded bm_inv_def] assms(2)] by (metis prod.collapse)
  note pf1 = plan_reuse_facts [OF plan1 inv1 [unfolded bm_inv_def] assms(2)]
  have size: "kv_block_size (w_kv w1) = kv_block_size (w_kv w)"
  proof -
    obtain keys where b: "kv_build_input_keys H r (prefill_len r div kv_block_size (w_kv w)) w = (keys, w1)"
      using plan by (auto simp: plan_reuse_def Let_def split: prod.splits)
    show ?thesis
      using build_input_keys_facts(3) [OF b] assms(1,2) by (auto simp: bm_inv_def bm_ok_def pos_imp_zdiv_nonneg_iff)
  qed
  have "zero_ref_hit_blocks w2 pl = zero_ref_hit_blocks w1 pl" by (simp add: zero_ref_hit_blocks_def pf1)
  then have can: "fst (bm_can_allocate H r w1)"
    using assms(5) by (simp add: bm_can_allocate_def plan plan1 Let_def al_get_num_free_blocks_def pf pf1)
  have miss: "0 \<le> miss_block_count pl" "hit_block_count pl + miss_block_count pl = num_logical_token_blocks r"
    using pf(8-10) assms(4) by (simp_all add: miss_block_count_def hit_block_count_def)
  have "admitted H pl w1 r w' r'" "res = Ok ()"
    using can_allocate_grant [OF inv1 assms(2) _ _ plan1 can] assms(3,4,6) pf(2) size by auto
  then show ?thesis
    using miss same_progress_ident(1) [of r r'] by (auto simp: admitted_def req_synced_def refs pf(2) plan hit_block_count_def)
qed

theorem can_allocate_admits_witness:
  "fst (bm_allocate (\<lambda>s. s) (snd (bm_can_allocate (\<lambda>s. s) (sample_reqs 3) sample_manager), sample_reqs 3)) = Ok ()"
proof -
  define w1 where "w1 = snd (bm_can_allocate (\<lambda>s. s) (sample_reqs 3) sample_manager)"
  obtain res w' r' where a: "bm_allocate (\<lambda>s. s) (w1, sample_reqs 3) = (res, w', r')" by (metis surj_pair)
  have "fst (bm_can_allocate (\<lambda>s. s) (sample_reqs 3) sample_manager)" by code_simp
  then have can: "bm_can_allocate (\<lambda>s. s) (sample_reqs 3) sample_manager = (True, w1)" by (simp add: w1_def prod_eq_iff)
  have inv: "bm_inv (\<lambda>s. s) sample_manager" unfolding sample_manager_def by (rule new_block_manager_ok) simp_all
  have "0 \<le> prefill_len (sample_reqs 3)" "get_blocks (bm_table sample_manager) (rq_id (sample_reqs 3)) = []"
    "prefill_len (sample_reqs 3) div kv_block_size (w_kv sample_manager) \<le> num_logical_token_blocks (sample_reqs 3)"
    by code_simp+
  from can_allocate_admits [OF inv this can a] show ?thesis by (simp add: w1_def [symmetric] a)
qed

text \<open>
  C9. A failed admission leaves no trace: \<^verbatim>\<open>allocate\<close> raises exactly one of two errors, a state
  error when the request already holds blocks and the out-of-blocks error otherwise, and then the request,
  the block table, the reserve list and the reference count of every block are as before the call.
\<close>

theorem allocate_failure_atomic:
  assumes "bm_inv H w" and "0 \<le> prefill_len r" and "bm_allocate H (w, r) = (Raise e, w', r')"
  shows "e = (if get_blocks (bm_table w) (rq_id r) \<noteq> [] then SimulationStateError else OutOfBlocksError) \<and>
    r' = r \<and> bm_table w' = bm_table w \<and> bm_reserved w' = bm_reserved w \<and> bm_inv H w' \<and>
    (\<forall>d a. a \<in> pool_blocks (w_pool w d) \<longrightarrow> a \<in> pool_blocks (w_pool w' d) \<longrightarrow>
       ref_count (blk w' a) = ref_count (blk w a))"
proof -
  have same: "ref_count (blk w' a) = ref_count (blk w a)"
    if "bm_inv H w'" "bm_refs w' = bm_refs w" "a \<in> pool_blocks (w_pool w d)" "a \<in> pool_blocks (w_pool w' d)" for a d
    using al_invD(5) [of "bm_refs w" w a d] al_invD(5) [of "bm_refs w" w' a d] that assms(1)
    by (simp add: bm_inv_def bm_ok_def winv_def)
  show ?thesis
  proof (cases "get_blocks (bm_table w) (rq_id r) = []")
    case False
    then show ?thesis using assms by (auto simp: bm_allocate_def get_num_blocks_def)
  next
    case True
    obtain pl w1 where "plan_reuse H r w = (pl, w1)" by (metis surj_pair)
    from allocate_cases [OF assms(1,2) True this] assms(3) True same show ?thesis
      by (auto simp: bm_refs_def)
  qed
qed

theorem allocate_failure_atomic_witness:
  "fst (bm_allocate (\<lambda>s. s) (new_block_manager 4 2 2 ''m'' 0, sample_reqs 3)) = Raise OutOfBlocksError \<and>
   bm_table (fst (snd (bm_allocate (\<lambda>s. s) (new_block_manager 4 2 2 ''m'' 0, sample_reqs 3)))) = []"
proof -
  define w where "w = new_block_manager 4 2 2 ''m'' 0"
  have r: "fst (bm_allocate (\<lambda>s. s) (new_block_manager 4 2 2 ''m'' 0, sample_reqs 3)) = Raise OutOfBlocksError"
    by code_simp
  then obtain w' r' where a: "bm_allocate (\<lambda>s. s) (w, sample_reqs 3) = (Raise OutOfBlocksError, w', r')"
    by (metis prod.collapse w_def)
  have inv: "bm_inv (\<lambda>s. s) w" unfolding w_def by (rule new_block_manager_ok) simp_all
  have "0 \<le> prefill_len (sample_reqs 3)" by code_simp
  from allocate_failure_atomic [OF inv this a] r a show ?thesis
    by (simp add: w_def [symmetric]) (simp add: w_def new_block_manager_def)
qed

text \<open>
  C15. A request that is swapped out and back in loses nothing: when both capacity checks say yes, both
  swaps succeed, the request ends with as many blocks as it had, all on the GPU, each with the block hash
  and the full mark of the block it replaces, in the same order; no other request's blocks change.
\<close>

theorem swap_round_trip:
  assumes inv: "bm_inv H w" and "req_synced w r" and bs0: "bs0 = get_blocks (bm_table w) (rq_id r)"
    and gpu: "\<forall>b \<in> set bs0. device_of (blk w b) = GPU" and "bm_can_swap_out w r"
    and out: "swap_out (w, r) = (res1, w1, r1)" and "bm_can_swap_in w1 r1" and in2: "swap_in (w1, r1) = (res2, w2, r2)"
  shows "res1 = Ok () \<and> res2 = Ok () \<and> bm_inv H w2 \<and> req_synced w2 r2 \<and>
    length (get_blocks (bm_table w2) (rq_id r)) = length bs0 \<and>
    (\<forall>i < length bs0. device_of (blk w1 (get_blocks (bm_table w1) (rq_id r) ! i)) = CPU \<and>
       (let b = blk w2 (get_blocks (bm_table w2) (rq_id r) ! i)
        in device_of b = GPU \<and> block_hash b = block_hash (blk w (bs0 ! i)) \<and> is_full b = is_full (blk w (bs0 ! i)))) \<and>
    (\<forall>j. j \<noteq> rq_id r \<longrightarrow> get_blocks (bm_table w2) j = get_blocks (bm_table w) j)"
proof -
  have "int (length bs0) \<le> al_get_num_free_blocks CPU w" using assms(5) by (simp add: bm_can_swap_out_def Let_def bs0)
  from swap_ok [OF inv assms(2) bs0 gpu this] out obtain bs where
    o: "res1 = Ok ()" "op_ok H w r w1 r1" "get_blocks (bm_table w1) (rq_id r) = bs" "length bs = length bs0"
      "\<forall>b \<in> set bs. device_of (blk w1 b) = CPU"
      "\<forall>i < length bs0. block_hash (blk w1 (bs ! i)) = block_hash (blk w (bs0 ! i)) \<and>
         is_full (blk w1 (bs ! i)) = is_full (blk w (bs0 ! i))" by (auto simp: swap_out_def)
  have inv1: "bm_inv H w1" "req_synced w1 r1" "bs = get_blocks (bm_table w1) (rq_id r1)" and id: "rq_id r1 = rq_id r"
    using o(2,3) by (simp_all add: op_ok_def)
  have "int (length bs) \<le> al_get_num_free_blocks GPU w1" using assms(7) by (simp add: bm_can_swap_in_def Let_def inv1)
  from swap_ok [OF inv1 o(5) this] in2 id obtain bs2 where
    b: "res2 = Ok ()" "op_ok H w1 r1 w2 r2" "get_blocks (bm_table w2) (rq_id r) = bs2" "length bs2 = length bs"
      "\<forall>b \<in> set bs2. device_of (blk w2 b) = GPU"
      "\<forall>i < length bs. block_hash (blk w2 (bs2 ! i)) = block_hash (blk w1 (bs ! i)) \<and>
         is_full (blk w2 (bs2 ! i)) = is_full (blk w1 (bs ! i))" by (auto simp: swap_in_def)
  show ?thesis using o b id by (auto simp: op_ok_def Let_def)
qed

lemma sample_swap_facts:
  defines "w \<equiv> fst (snd (append_slot (sample_manager, sample_reqs 3)))"
    and "r \<equiv> snd (snd (append_slot (sample_manager, sample_reqs 3)))"
  shows "bm_inv (\<lambda>s. s) w \<and> req_synced w r"
    and "list_all (\<lambda>b. device_of (blk w b) = GPU) (get_blocks (bm_table w) (rq_id r))" and "bm_can_swap_out w r"
    and "bm_can_swap_in (fst (snd (swap_out (w, r)))) (snd (snd (swap_out (w, r))))"
    and "length (get_blocks (bm_table w) (rq_id r)) = 1" and "rq_id r = 3"
proof -
  have inv: "bm_inv (\<lambda>s. s) sample_manager" unfolding sample_manager_def by (rule new_block_manager_ok) simp_all
  have "req_synced sample_manager (sample_reqs 3)" unfolding req_synced_def by code_simp
  from table_ops(1) [OF inv this, of _ w r] show "bm_inv (\<lambda>s. s) w \<and> req_synced w r"
    by (simp add: w_def r_def op_ok_def prod_eq_iff)
  show "list_all (\<lambda>b. device_of (blk w b) = GPU) (get_blocks (bm_table w) (rq_id r))" "bm_can_swap_out w r"
    "bm_can_swap_in (fst (snd (swap_out (w, r)))) (snd (snd (swap_out (w, r))))"
    "length (get_blocks (bm_table w) (rq_id r)) = 1" "rq_id r = 3"
    unfolding w_def r_def by code_simp+
qed

theorem swap_round_trip_witness:
  "let wr = snd (append_slot (sample_manager, sample_reqs 3)); (res1, w1, r1) = swap_out wr; (res2, w2, r2) = swap_in (w1, r1)
   in res1 = Ok () \<and> res2 = Ok () \<and> length (get_blocks (bm_table w2) 3) = 1"
proof -
  define w where "w = fst (snd (append_slot (sample_manager, sample_reqs 3)))"
  define r where "r = snd (snd (append_slot (sample_manager, sample_reqs 3)))"
  note f = sample_swap_facts [folded w_def r_def]
  obtain res1 w1 r1 where o: "swap_out (w, r) = (res1, w1, r1)" by (metis surj_pair)
  obtain res2 w2 r2 where i: "swap_in (w1, r1) = (res2, w2, r2)" by (metis surj_pair)
  have gpu: "\<forall>b \<in> set (get_blocks (bm_table w) (rq_id r)). device_of (blk w b) = GPU" using f(2) by (simp add: list_all_iff)
  have c: "bm_can_swap_in w1 r1" using f(4) by (simp add: o)
  from swap_round_trip [OF conjunct1 [OF f(1)] conjunct2 [OF f(1)] refl gpu f(3) o c i] f(5,6) o i show ?thesis
    by (simp add: w_def r_def Let_def split_beta)
qed

text \<open>
  C28. Freeing a request always succeeds and gives back exactly what it held: its table entry and its
  block list are empty, no other entry changes, the count of every block drops by the number of times the
  request held it, and the blocks that nobody else holds are free again.
\<close>

theorem free_returns_blocks:
  assumes "bm_inv H w" and "req_synced w r" and "bm_free H (w, r) = (res, w', r')"
  shows "res = Ok () \<and> bm_inv H w' \<and> get_blocks (bm_table w') (rq_id r) = [] \<and> physical_token_blocks r' = [] \<and>
    (\<forall>j. j \<noteq> rq_id r \<longrightarrow> get_blocks (bm_table w') j = get_blocks (bm_table w) j) \<and>
    (\<forall>d a. a \<in> pool_blocks (w_pool w d) \<longrightarrow> a \<in> pool_blocks (w_pool w' d) \<longrightarrow>
       ref_count (blk w' a) + count_list (get_blocks (bm_table w) (rq_id r)) a = ref_count (blk w a) \<and>
       (a \<in> set (fq_list (bp_free (w_pool w' d))) \<longleftrightarrow>
          count_list (get_blocks (bm_table w) (rq_id r)) a = ref_count (blk w a)))"
proof -
  from free_op [OF assms(1,2)] assms(3) have
    f: "res = Ok ()" "op_ok H w r w' r'" "get_blocks (bm_table w') (rq_id r) = []"
      "bm_refs w' + mset (get_blocks (bm_table w) (rq_id r)) = bm_refs w" by auto
  have al: "al_inv (bm_refs w) w" "al_inv (bm_refs w') w'"
    using assms(1) f(2) by (simp_all add: op_ok_def bm_inv_def bm_ok_def winv_def)
  have "count (bm_refs w') a + count_list (get_blocks (bm_table w) (rq_id r)) a = count (bm_refs w) a" for a
    by (simp add: f(4) [symmetric] count_mset)
  then have "ref_count (blk w' a) + count_list (get_blocks (bm_table w) (rq_id r)) a = ref_count (blk w a) \<and>
      (a \<in> set (fq_list (bp_free (w_pool w' d))) \<longleftrightarrow>
         count_list (get_blocks (bm_table w) (rq_id r)) a = ref_count (blk w a))"
    if "a \<in> pool_blocks (w_pool w d)" "a \<in> pool_blocks (w_pool w' d)" for a d
    using al_invD(5) [OF al(1) that(1)] al_invD(5,6) [OF al(2) that(2)] by (simp add: not_in_iff) (metis add_cancel_right_left)
  then show ?thesis using f(1-3) by (auto simp: op_ok_def req_synced_def)
qed

theorem free_returns_blocks_witness:
  "fst (bm_free (\<lambda>s. s) (snd (append_slot (sample_manager, sample_reqs 3)))) = Ok () \<and>
   get_blocks (bm_table (fst (snd (bm_free (\<lambda>s. s) (snd (append_slot (sample_manager, sample_reqs 3))))))) 3 = []"
proof -
  define w where "w = fst (snd (append_slot (sample_manager, sample_reqs 3)))"
  define r where "r = snd (snd (append_slot (sample_manager, sample_reqs 3)))"
  note f = sample_swap_facts [folded w_def r_def]
  obtain res w' r' where b: "bm_free (\<lambda>s. s) (w, r) = (res, w', r')" by (metis surj_pair)
  from free_returns_blocks [OF conjunct1 [OF f(1)] conjunct2 [OF f(1)] b] b f(6) show ?thesis by (simp add: w_def r_def)
qed

end
