(* ===== verification/Speculation.thy ===== *)
theory Speculation
  imports Complex_Main Prefix_Keys "HOL-Library.Word"
begin

text \<open>
  Multi-token prediction: the acceptance configuration with its validation
  (\<^verbatim>\<open>src/TokenSim/config/speculative_execution.py\<close>) and the stateless acceptance draws
  (\<^verbatim>\<open>src/TokenSim/llm/speculative_acceptance.py\<close>). The digest \<^verbatim>\<open>blake2b\<close> with its personalisation,
  read as a big-endian integer of eight bytes, is a parameter \<open>B\<close>.
\<close>

section \<open>Configuration\<close>

record mtp_acceptance =
  mtp_kind :: string
  mtp_rates :: "real list"
  mtp_distribution :: "real list"

text \<open>\<^verbatim>\<open>number\<close> of \<^verbatim>\<open>config/validation.py\<close>; every value of the model is a finite real.\<close>

definition number_check :: "real \<Rightarrow> real \<Rightarrow> real option \<Rightarrow> bool \<Rightarrow> real result" where
  "number_check value minimum maximum positive =
     (if value < minimum \<or> positive \<and> value = 0 \<or> (case maximum of None \<Rightarrow> False | Some m \<Rightarrow> m < value)
      then Raise ConfigurationError else Ok value)"

definition mtp_post_init :: "mtp_acceptance \<Rightarrow> unit result" where
  "mtp_post_init c =
     (if mtp_kind c \<notin> {''mean'', ''conditional'', ''empirical'', ''legacy''} then Raise ConfigurationError
      else if \<exists>v \<in> set (mtp_rates c @ mtp_distribution c). number_check v 0 (Some 1) False = Raise ConfigurationError
      then Raise ConfigurationError
      else if mtp_kind c \<noteq> ''conditional'' \<and> mtp_rates c \<noteq> [] then Raise ConfigurationError
      else if mtp_kind c \<noteq> ''empirical'' \<and> mtp_distribution c \<noteq> [] then Raise ConfigurationError
      else Ok ())"

definition mtp_validate :: "mtp_acceptance \<Rightarrow> int \<Rightarrow> real \<Rightarrow> unit result" where
  "mtp_validate c drafts mean =
     (case number_check mean 1 (Some (1 + real_of_int drafts)) False of
        Raise e \<Rightarrow> Raise e
      | Ok _ \<Rightarrow>
          if mtp_kind c \<in> {''conditional'', ''empirical''} \<and> mean \<noteq> 1 then Raise ConfigurationError
          else if mtp_kind c = ''conditional'' \<and> (drafts < 1 \<or> int (length (mtp_rates c)) \<noteq> drafts) then
            Raise ConfigurationError
          else if mtp_kind c = ''empirical'' \<and>
              (drafts < 1 \<or> int (length (mtp_distribution c)) \<noteq> drafts + 1 \<or>
               \<not> \<bar>sum_list (mtp_distribution c) - 1\<bar> \<le> 1 / 10 ^ 12) then Raise ConfigurationError
          else Ok ())"

text \<open>The expected number of accepted tokens that \<^verbatim>\<open>describe\<close> reports.\<close>

definition mtp_expected :: "mtp_acceptance \<Rightarrow> real \<Rightarrow> real" where
  "mtp_expected c mean =
     (if mtp_kind c = ''conditional'' then
        snd (fold (\<lambda>rate (p, e). (p * rate, e + p * rate)) (mtp_rates c) (1, 1))
      else if mtp_kind c = ''empirical'' then
        (\<Sum>(i, p) \<leftarrow> List.enumerate 0 (mtp_distribution c). (real i + 1) * p)
      else mean)"

definition validate_mtp_token_budget :: "int option \<Rightarrow> int \<Rightarrow> unit result" where
  "validate_mtp_token_budget max_num_batched_tokens num_speculative_tokens =
     (let width = 1 + num_speculative_tokens
      in case max_num_batched_tokens of
           None \<Rightarrow> Ok ()
         | Some m \<Rightarrow> if m < width then Raise ConfigurationError else Ok ())"

text \<open>The model enters \<^verbatim>\<open>resolve_mtp_tokens\<close> through the number of its MTP layers, if it has components.\<close>

definition resolve_mtp_tokens :: "int option \<Rightarrow> real \<Rightarrow> int option \<Rightarrow> int result" where
  "resolve_mtp_tokens nextn_layers acceptance_length num_speculative_tokens =
     (let k = (case num_speculative_tokens of None \<Rightarrow> 0 | Some k \<Rightarrow> k)
      in if acceptance_length < 1 then Raise ConfigurationError
         else if k < 0 then Raise ConfigurationError
         else if k \<noteq> 0 \<and> (case nextn_layers of None \<Rightarrow> True | Some l \<Rightarrow> l = 0) then Raise ConfigurationError
         else if 1 + real_of_int k < acceptance_length then Raise ConfigurationError
         else Ok k)"

section \<open>Draws\<close>

definition draw_key :: "int \<Rightarrow> int \<Rightarrow> int \<Rightarrow> nat \<Rightarrow> string" where
  "draw_key seed request_id round_index position =
     str_of (HInt seed) @ '':'' @ str_of (HInt request_id) @ '':'' @ str_of (HInt round_index) @ '':''
       @ str_of (HInt (int position))"

definition uniform :: "(string \<Rightarrow> 64 word) \<Rightarrow> int \<Rightarrow> int \<Rightarrow> int \<Rightarrow> nat \<Rightarrow> real" where
  "uniform B seed request_id round_index position =
     real_of_int (uint (drop_bit 11 (B (draw_key seed request_id round_index position)))) / 2 ^ 53"

fun conditional_loop :: "(nat \<Rightarrow> real) \<Rightarrow> nat \<Rightarrow> real list \<Rightarrow> int \<Rightarrow> int" where
  "conditional_loop u position [] accepted = accepted"
| "conditional_loop u position (rate # rates) accepted =
     (if rate \<le> u position then accepted else conditional_loop u (Suc position) rates (accepted + 1))"

fun empirical_loop :: "real \<Rightarrow> real \<Rightarrow> int \<Rightarrow> real list \<Rightarrow> int option" where
  "empirical_loop draw cumulative accepted [] = None"
| "empirical_loop draw cumulative accepted (p # ps) =
     (if draw < cumulative + p then Some accepted else empirical_loop draw (cumulative + p) (accepted + 1) ps)"

definition sample_acceptance ::
  "(string \<Rightarrow> 64 word) \<Rightarrow> mtp_acceptance \<Rightarrow> real \<Rightarrow> int \<Rightarrow> int \<Rightarrow> int \<Rightarrow> int" where
  "sample_acceptance B c mean seed request_id round_index =
     (let u = uniform B seed request_id round_index
      in if mtp_kind c = ''conditional'' then conditional_loop u 0 (mtp_rates c) 1
         else if mtp_kind c = ''empirical'' then
           (case empirical_loop (u 0) 0 1 (mtp_distribution c) of
              Some accepted \<Rightarrow> accepted
            | None \<Rightarrow> int (length (mtp_distribution c)))
         else \<lfloor>mean\<rfloor> + (if u 0 < mean - real_of_int \<lfloor>mean\<rfloor> then 1 else 0))"

text \<open>The masked sum is a 32-bit word.\<close>

definition legacy_acceptance :: "real \<Rightarrow> int \<Rightarrow> int \<Rightarrow> int \<Rightarrow> int" where
  "legacy_acceptance mean seed request_id generation_index =
     (let state = (word_of_int (request_id * 1103515245 + generation_index * 12345 + seed * 0x9E3779B9) :: 32 word)
      in \<lfloor>mean\<rfloor> + (if real_of_int (uint state) / 4294967296 < frac mean then 1 else 0))"

section \<open>Draws stay within the verification width\<close>

lemma real_uint_nonneg: "0 \<le> real_of_int (uint w)"
  by (simp only: of_int_0_le_iff uint_ge_0)

lemma uniform_range: "0 \<le> uniform B s i r p \<and> uniform B s i r p < 1"
proof -
  have "uint (drop_bit 11 w) < 2 ^ 53" for w :: "64 word"
  proof -
    have "take_bit 64 (uint w) = uint w" by (rule take_bit_int_eq_self) (use uint_bounded [of w] in simp_all)
    then have "uint (drop_bit 11 w) = drop_bit 11 (uint w)" by (simp add: unsigned_drop_bit_eq)
    then have "uint (drop_bit 11 w) = uint w div 2 ^ 11" by (simp only: drop_bit_eq_div)
    moreover have "uint w < 2 ^ 64" using uint_bounded [of w] by simp
    ultimately show ?thesis by simp
  qed
  then have "real_of_int (uint (drop_bit 11 (B k))) < 2 ^ 53" for k
    by (metis of_int_less_iff of_int_numeral of_int_power)
  then show ?thesis
    unfolding uniform_def using real_uint_nonneg by (simp only: zero_le_divide_iff divide_less_eq_1) simp
qed

lemma conditional_loop_eq:
  "conditional_loop u n rates a = a + int (length (takeWhile (\<lambda>(i, r). u i < r) (List.enumerate n rates)))"
  by (induction u n rates a rule: conditional_loop.induct) auto

lemma empirical_loop_bounds:
  "empirical_loop draw c a ps = Some b \<Longrightarrow> a \<le> b \<and> b < a + int (length ps)"
  by (induction draw c a ps rule: empirical_loop.induct) (auto split: if_splits)

lemma floor_step_bounds:
  fixes mean :: real
  assumes "1 \<le> mean" "mean \<le> 1 + real_of_int k" "0 \<le> u"
  shows "1 \<le> \<lfloor>mean\<rfloor> + (if u < mean - real_of_int \<lfloor>mean\<rfloor> then 1 else 0) \<and>
    \<lfloor>mean\<rfloor> + (if u < mean - real_of_int \<lfloor>mean\<rfloor> then 1 else 0) \<le> 1 + k"
proof -
  have "1 \<le> \<lfloor>mean\<rfloor>" using assms(1) by (simp add: le_floor_iff)
  moreover have "\<lfloor>mean\<rfloor> + 1 \<le> 1 + k" if "u < mean - real_of_int \<lfloor>mean\<rfloor>"
  proof -
    have "real_of_int \<lfloor>mean\<rfloor> < mean" using that assms(3) by simp
    then have "real_of_int \<lfloor>mean\<rfloor> < real_of_int (1 + k)" using assms(2) by simp
    then show ?thesis by simp
  qed
  moreover have "\<lfloor>mean\<rfloor> \<le> 1 + k" using assms(2) by (simp add: floor_le_iff)
  ultimately show ?thesis by auto
qed

lemma validate_mean:
  "mtp_validate c k mean = Ok () \<Longrightarrow> 1 \<le> mean \<and> mean \<le> 1 + real_of_int k"
  by (auto simp: mtp_validate_def number_check_def split: if_splits)

text \<open>
  C29. No draw leaves the verification width: for every acceptance configuration that validates against
  \<open>K\<close> draft tokens, whatever the digest, a verification round accepts at least one token and at most
  \<open>1 + K\<close>, for the sampled kinds and for the legacy generator with its 32-bit wrap-around.
\<close>

theorem acceptance_within_width:
  assumes "mtp_validate c k mean = Ok ()"
  shows "1 \<le> sample_acceptance B c mean seed rid rnd \<and> sample_acceptance B c mean seed rid rnd \<le> 1 + k \<and>
    1 \<le> legacy_acceptance mean seed rid gen \<and> legacy_acceptance mean seed rid gen \<le> 1 + k"
proof -
  note m = validate_mean [OF assms]
  have "0 \<le> real_of_int (uint (w :: 32 word)) / 4294967296" for w
    using real_uint_nonneg [of w] by (simp only: zero_le_divide_iff) simp
  from floor_step_bounds [OF conjunct1 [OF m] conjunct2 [OF m] this]
  have legacy: "1 \<le> legacy_acceptance mean seed rid gen \<and> legacy_acceptance mean seed rid gen \<le> 1 + k"
    unfolding legacy_acceptance_def Let_def frac_def .
  define u where "u = uniform B seed rid rnd"
  have u: "0 \<le> u p" for p using uniform_range by (simp add: u_def)
  have cond: "length (takeWhile P (List.enumerate 0 (mtp_rates c))) \<le> length (mtp_rates c)" for P
    using length_takeWhile_le [of P "List.enumerate 0 (mtp_rates c)"] by simp
  have "1 \<le> sample_acceptance B c mean seed rid rnd \<and> sample_acceptance B c mean seed rid rnd \<le> 1 + k"
  proof (cases "mtp_kind c = ''conditional''")
    case True
    then have "int (length (mtp_rates c)) = k" using assms by (auto simp: mtp_validate_def split: result.splits if_splits)
    then show ?thesis using True cond by (auto simp: sample_acceptance_def Let_def conditional_loop_eq of_nat_mono)
  next
    case False
    show ?thesis
    proof (cases "mtp_kind c = ''empirical''")
      case True
      then have "int (length (mtp_distribution c)) = k + 1" "1 \<le> k"
        using assms by (auto simp: mtp_validate_def split: result.splits if_splits)
      then show ?thesis
        using True empirical_loop_bounds [of "u 0" 0 1 "mtp_distribution c"]
        by (auto simp: sample_acceptance_def Let_def u_def split: option.splits)
    next
      case emp: False
      show ?thesis
        using floor_step_bounds [OF conjunct1 [OF m] conjunct2 [OF m] u [of 0]] False emp
        by (simp add: sample_acceptance_def Let_def u_def)
    qed
  qed
  with legacy show ?thesis by simp
qed

theorem acceptance_within_width_witness:
  "sample_acceptance (\<lambda>_. 0) \<lparr>mtp_kind = ''conditional'', mtp_rates = [1 / 2, 1 / 4], mtp_distribution = []\<rparr> 1 7 3 0 \<le> 3"
proof -
  have "mtp_validate \<lparr>mtp_kind = ''conditional'', mtp_rates = [1 / 2, 1 / 4], mtp_distribution = []\<rparr> 2 1 = Ok ()"
    by (simp add: mtp_validate_def number_check_def)
  from acceptance_within_width [OF this, of "\<lambda>_. 0" 7 3 0] show ?thesis by simp
qed

end
