(* ===== verification/Scheduler.thy ===== *)
theory Scheduler
  imports Block_Manager Speculation
begin

text \<open>
  The paged-attention scheduler: \<^verbatim>\<open>src/TokenSim/llm/llm_scheduler.py\<close> with its mixins
  \<^verbatim>\<open>paged_scheduling.py\<close> (one scheduling step) and \<^verbatim>\<open>paged_tokens.py\<close> (token budgets and slot
  reservations). Requests are objects shared by the queues: the state holds them by id and the queues
  hold ids. The scheduler runs on a uniform or a grouped block manager and on a connector with or
  without asynchronous loading; the record \<open>kv_ops\<close> is that interface, with the operations only a
  grouped manager or an asynchronous connector has in optional parts.
\<close>

section \<open>Interfaces\<close>

text \<open>What a probe of an external cache found: the boundary in tokens, and per group the pages by index.\<close>

type_synonym external = "int \<times> (int \<times> (int \<times> int) list) list"

record 's grouped_ops =
  go_can_allocate :: "req \<Rightarrow> bool \<Rightarrow> 's \<Rightarrow> bool \<times> 's"
  go_can_ensure_slots :: "req \<Rightarrow> int \<Rightarrow> int \<Rightarrow> 's \<Rightarrow> bool"
  go_ensure_slots :: "int \<Rightarrow> int \<Rightarrow> 's \<times> req \<Rightarrow> unit result \<times> 's \<times> req"
  go_remaining_admission_slots :: "req \<Rightarrow> 's \<Rightarrow> int"
  go_get_num_free_blocks :: "'s \<Rightarrow> int"
  go_watermark_blocks :: "'s \<Rightarrow> int"
  go_can_allocate_external :: "req \<Rightarrow> external \<Rightarrow> int \<Rightarrow> bool \<Rightarrow> 's \<Rightarrow> bool \<times> 's"
  go_cache_computed :: "'s \<times> req \<Rightarrow> unit result \<times> 's \<times> req"
  go_discard_load :: "'s \<times> req \<Rightarrow> 's \<times> req"

record 's async_ops =
  ao_probe :: "req \<Rightarrow> 's \<Rightarrow> external \<times> 's"
  ao_begin_load :: "external \<Rightarrow> 's \<times> req \<Rightarrow> unit result \<times> 's \<times> req"

record 's kv_ops =
  ko_plan_reuse :: "req \<Rightarrow> 's \<Rightarrow> (int \<times> prefix_key list) \<times> 's"
  ko_can_allocate :: "req \<Rightarrow> 's \<Rightarrow> bool \<times> 's"
  ko_allocate :: "'s \<times> req \<Rightarrow> unit result \<times> 's \<times> req"
  ko_can_append_slot :: "'s \<Rightarrow> req \<Rightarrow> bool"
  ko_append_slot :: "'s \<times> req \<Rightarrow> unit result \<times> 's \<times> req"
  ko_release_request_blocks :: "'s \<times> req \<Rightarrow> unit result \<times> 's \<times> req"
  ko_free :: "'s \<times> req \<Rightarrow> unit result \<times> 's \<times> req"
  ko_commit_input_cache :: "'s \<times> req \<Rightarrow> 's \<times> req"
  ko_block_ids :: "'s \<Rightarrow> int \<Rightarrow> int list"
  ko_gpu_status :: "'s \<Rightarrow> int \<times> int \<times> int"
  ko_block_size :: int
  ko_on_new_request :: "'s \<times> req \<Rightarrow> 's \<times> req"
  ko_matched_tokens :: "int \<Rightarrow> 's \<times> req \<Rightarrow> int \<times> 's \<times> req"
  ko_after_alloc :: "int \<Rightarrow> 's \<times> req \<Rightarrow> 's \<times> req"
  ko_request_finished :: "int list \<Rightarrow> 's \<times> req \<Rightarrow> bool \<times> 's \<times> req"
  ko_request_released :: "'s \<times> req \<Rightarrow> 's \<times> req"
  ko_grouped :: "'s grouped_ops option"
  ko_async :: "'s async_ops option"

section \<open>Configuration and state\<close>

record sched_config =
  sc_max_num_seqs :: "int option"
  sc_max_num_batched_tokens :: "int option"
  sc_long_prefill_token_threshold :: int
  sc_adaptive_long_prefill_threshold :: bool
  sc_mtp_acceptance_length :: real
  sc_mtp_seed :: int
  sc_speculative_tokens :: int
  sc_mtp_acceptance :: mtp_acceptance
  sc_max_model_len :: "int option"
  sc_mtp_enabled :: bool
  sc_max_occupy_ratio :: real
  sc_digest :: "string \<Rightarrow> 64 word"

text \<open>
  The checks of the constructor. \<open>layout\<close> is the grouped layout of the cache, through its number of
  speculative tokens and its model length limit.
\<close>

definition make_sched_config ::
  "(string \<Rightarrow> 64 word) \<Rightarrow> (int \<times> int) option \<Rightarrow> int option \<Rightarrow> int option \<Rightarrow> real \<Rightarrow> int option \<Rightarrow> int \<Rightarrow> bool \<Rightarrow> real
   \<Rightarrow> bool option \<Rightarrow> int \<Rightarrow> mtp_acceptance \<Rightarrow> sched_config result" where
  "make_sched_config digest layout max_num_seqs max_parallem_sum max_occupy_ratio max_num_batched_tokens
       long_threshold adaptive acceptance_length mtp_enabled mtp_seed acceptance =
     (let k = (case layout of None \<Rightarrow> 0 | Some (k, _) \<Rightarrow> k);
          enabled = (case mtp_enabled of None \<Rightarrow> k \<noteq> 0 | Some b \<Rightarrow> b)
      in if (case max_num_batched_tokens of None \<Rightarrow> False | Some m \<Rightarrow> m < 1) then Raise ConfigurationError
         else if long_threshold < 0 then Raise ConfigurationError
         else if acceptance_length < 1 then Raise ConfigurationError
         else
           (case mtp_post_init acceptance of
              Raise e \<Rightarrow> Raise e
            | Ok _ \<Rightarrow>
                (case mtp_validate acceptance k acceptance_length of
                   Raise e \<Rightarrow> Raise e
                 | Ok _ \<Rightarrow>
                     if enabled \<and> k = 0 then Raise ConfigurationError
                     else
                       (case validate_mtp_token_budget max_num_batched_tokens (if enabled then k else 0) of
                          Raise e \<Rightarrow> Raise e
                        | Ok _ \<Rightarrow>
                            Ok \<lparr>sc_max_num_seqs = (case max_parallem_sum of None \<Rightarrow> max_num_seqs | Some m \<Rightarrow> Some m),
                                sc_max_num_batched_tokens = max_num_batched_tokens,
                                sc_long_prefill_token_threshold = long_threshold,
                                sc_adaptive_long_prefill_threshold = adaptive,
                                sc_mtp_acceptance_length = acceptance_length, sc_mtp_seed = mtp_seed,
                                sc_speculative_tokens = k, sc_mtp_acceptance = acceptance,
                                sc_max_model_len = map_option snd layout, sc_mtp_enabled = enabled,
                                sc_max_occupy_ratio = max_occupy_ratio, sc_digest = digest\<rparr>))))"

record 's sched =
  running :: "int list"
  waiting :: "int list"
  loaded_waiting :: "int list"
  loading :: "int list"
  inflight_prefills :: "int list"
  last_admitted :: "int list"
  reqs :: "int \<Rightarrow> req"
  mgr :: 's
  stats :: "string \<Rightarrow> int"
  prefill_capacity_bound :: bool
  defer_prefills :: bool
  effective_threshold :: int

definition new_sched :: "'s \<Rightarrow> (int \<Rightarrow> req) \<Rightarrow> 's sched" where
  "new_sched m rs =
     \<lparr>running = [], waiting = [], loaded_waiting = [], loading = [], inflight_prefills = [],
      last_admitted = [], reqs = rs, mgr = m, stats = (\<lambda>_. 0), prefill_capacity_bound = False,
      defer_prefills = False, effective_threshold = 0\<rparr>"

record step =
  st_budget :: "int option"
  st_scheduled :: "int list"
  st_preempted :: "int list"
  st_prefill_scheduled :: bool
  st_scheduled_running :: "int list"

text \<open>Writing one request, calling an operation on the manager and one request, counting.\<close>

definition upd_req :: "int \<Rightarrow> (req \<Rightarrow> req) \<Rightarrow> 's sched \<Rightarrow> 's sched" where
  "upd_req i f S = S\<lparr>reqs := (reqs S)(i := f (reqs S i))\<rparr>"

definition call :: "('s \<times> req \<Rightarrow> 'a \<times> 's \<times> req) \<Rightarrow> int \<Rightarrow> 's sched \<Rightarrow> 'a \<times> 's sched" where
  "call f i S = (let (x, m, r) = f (mgr S, reqs S i) in (x, S\<lparr>mgr := m, reqs := (reqs S)(i := r)\<rparr>))"

definition ask :: "(req \<Rightarrow> 's \<Rightarrow> 'a \<times> 's) \<Rightarrow> int \<Rightarrow> 's sched \<Rightarrow> 'a \<times> 's sched" where
  "ask f i S = (let (x, m) = f (reqs S i) (mgr S) in (x, S\<lparr>mgr := m\<rparr>))"

definition run :: "('s \<times> req \<Rightarrow> 's \<times> req) \<Rightarrow> int \<Rightarrow> 's sched \<Rightarrow> 's sched" where
  "run f i S = snd (call (\<lambda>x. ((), f x)) i S)"

definition bump :: "string \<Rightarrow> int \<Rightarrow> 's sched \<Rightarrow> 's sched" where
  "bump k n S = S\<lparr>stats := (stats S)(k := stats S k + n)\<rparr>"

definition dict_add :: "int \<Rightarrow> int list \<Rightarrow> int list" where
  "dict_add i ks = (if i \<in> set ks then ks else ks @ [i])"

section \<open>Token budgets\<close>

text \<open>\<^verbatim>\<open>float("inf")\<close> is no limit.\<close>

definition query_room :: "sched_config \<Rightarrow> req \<Rightarrow> int option" where
  "query_room C r = map_option (\<lambda>limit. max 0 (limit - num_computed_tokens r - 1)) (sc_max_model_len C)"

definition min_room :: "int \<Rightarrow> int option \<Rightarrow> int" where
  "min_room x room = (case room of None \<Rightarrow> x | Some y \<Rightarrow> min x y)"

definition sched_query_tokens :: "sched_config \<Rightarrow> req \<Rightarrow> int \<Rightarrow> int" where
  "sched_query_tokens C r accepted =
     (if is_context_build r \<or> \<not> sc_mtp_enabled C then min_room accepted (query_room C r)
      else min_room (1 + sc_speculative_tokens C) (query_room C r))"

definition decode_output_tokens :: "sched_config \<Rightarrow> req \<Rightarrow> int \<Rightarrow> int \<times> req" where
  "decode_output_tokens C r remaining =
     (if \<not> sc_mtp_enabled C then (min 1 remaining, r)
      else
        (let accepted =
           (if mtp_kind (sc_mtp_acceptance C) = ''legacy'' then
              legacy_acceptance (sc_mtp_acceptance_length C) (sc_mtp_seed C) (rq_id r) (generation_idx r)
            else
              sample_acceptance (sc_digest C) (sc_mtp_acceptance C) (sc_mtp_acceptance_length C) (sc_mtp_seed C)
                (rq_id r) (decode_round r))
         in (min accepted remaining, r\<lparr>scheduled_accepted_tokens := accepted\<rparr>)))"

definition fits :: "int option \<Rightarrow> int \<Rightarrow> bool" where
  "fits budget n = (case budget of None \<Rightarrow> True | Some b \<Rightarrow> n \<le> b)"

definition sched_step_tokens :: "sched_config \<Rightarrow> int \<Rightarrow> int option \<Rightarrow> req \<Rightarrow> int \<times> req" where
  "sched_step_tokens C threshold budget r =
     (if \<not> is_context_build r then
        (let remaining0 = max 1 (decode_len r - generation_idx r);
             remaining = (case sc_max_model_len C of
                 None \<Rightarrow> remaining0 | Some limit \<Rightarrow> min remaining0 (max 0 (limit - context_len r)))
         in if remaining = 0 then (0, r)
            else
              (let (out, r1) = decode_output_tokens C r remaining;
                   accepted = min_room out (query_room C r1);
                   cost = sched_query_tokens C r1 accepted
               in (if fits budget cost then accepted else 0, r1)))
      else
        (let remaining0 = max 1 (remaining_context_tokens r);
             remaining1 = (if threshold \<noteq> 0 then min remaining0 threshold else remaining0);
             remaining = min_room remaining1 (query_room C r)
         in (min_room remaining budget, r)))"

definition waiting_query_tokens ::
  "sched_config \<Rightarrow> req \<Rightarrow> int \<Rightarrow> int \<Rightarrow> int option \<Rightarrow> int list \<Rightarrow> int option \<Rightarrow> bool \<Rightarrow> int" where
  "waiting_query_tokens C r real_tokens queries budget scheduled computed prefill_scheduled =
     (if \<not> sc_mtp_enabled C \<or> \<not> is_context_build r \<or> real_tokens \<noteq> 1 then queries
      else
        (let prefix = (case computed of None \<Rightarrow> num_computed_tokens r | Some c \<Rightarrow> c);
             width = 1 + sc_speculative_tokens C
         in if context_len r - prefix \<noteq> 1 \<or> prefill_scheduled \<or> \<not> (scheduled \<noteq> [] \<or> 0 < prefix) then queries
            else if (case sc_max_model_len C of None \<Rightarrow> False | Some limit \<Rightarrow> limit < prefix + width + 1) then queries
            else if fits budget width then width else 0))"

definition budget_cost :: "sched_config \<Rightarrow> req \<Rightarrow> int \<Rightarrow> int" where
  "budget_cost C r accepted = (if \<not> is_context_build r then sched_query_tokens C r accepted else accepted)"

definition decode_lookahead :: "sched_config \<Rightarrow> int" where
  "decode_lookahead C = (if sc_mtp_enabled C then sc_speculative_tokens C else 0)"

definition record_mtp_execution :: "req \<Rightarrow> 's sched \<Rightarrow> 's sched" where
  "record_mtp_execution r S =
     bump ''mtp_emitted_tokens'' (scheduled_tokens r)
       (bump ''mtp_accepted_tokens'' (min (scheduled_accepted_tokens r) (query_tokens r))
         (bump ''mtp_verified_tokens'' (query_tokens r) (bump ''mtp_verification_rounds'' 1 S)))"

section \<open>Preemption and slot reservation\<close>

definition preempt :: "'s kv_ops \<Rightarrow> int \<Rightarrow> 's sched \<Rightarrow> unit result \<times> 's sched" where
  "preempt K i S =
     and_then (call (ko_release_request_blocks K) i (S\<lparr>inflight_prefills := remove1 i (inflight_prefills S)\<rparr>))
       (\<lambda>_ S1. (Ok (), (upd_req i (\<lambda>r. (prepare_recompute r)\<lparr>status := WAITING\<rparr>) S1)
          \<lparr>waiting := i # waiting S1\<rparr>))"

text \<open>
  The three loops that make room for a request: while its slots do not fit, preempt the youngest request
  that is not scheduled yet, and the request itself when none is left. The lists are the queue and the
  preempted requests at the end.
\<close>

function make_room ::
  "('s sched \<Rightarrow> bool) \<Rightarrow> ('s sched \<Rightarrow> unit result \<times> 's sched) \<Rightarrow> 's kv_ops \<Rightarrow> int \<Rightarrow> int list \<Rightarrow> int list
   \<Rightarrow> 's sched \<Rightarrow> bool result \<times> int list \<times> int list \<times> 's sched" where
  "make_room can grab K i queue preempted S =
     (if can S then
        (case grab S of
           (Raise e, S1) \<Rightarrow> (Raise e, queue, preempted, S1)
         | (Ok _, S1) \<Rightarrow> (Ok True, queue, preempted, S1))
      else if queue \<noteq> [] then
        (case preempt K (last queue) S of
           (Raise e, S1) \<Rightarrow> (Raise e, butlast queue, preempted, S1)
         | (Ok _, S1) \<Rightarrow> make_room can grab K i (butlast queue) (preempted @ [last queue]) S1)
      else
        (case preempt K i S of
           (Raise e, S1) \<Rightarrow> (Raise e, queue, preempted, S1)
         | (Ok _, S1) \<Rightarrow> (Ok False, queue, preempted @ [i], S1)))"
  by pat_completeness auto
termination by (relation "measure (\<lambda>(can, grab, K, i, queue, preempted, S). length queue)") auto

declare make_room.simps [simp del]

definition reserve_context_slots ::
  "sched_config \<Rightarrow> 's grouped_ops \<Rightarrow> 's kv_ops \<Rightarrow> int \<Rightarrow> int \<Rightarrow> int list \<Rightarrow> int list \<Rightarrow> 's sched
   \<Rightarrow> bool result \<times> int list \<times> int list \<times> 's sched" where
  "reserve_context_slots C G K i tokens queue preempted S =
     make_room (\<lambda>S. go_can_ensure_slots G (reqs S i) tokens (decode_lookahead C) (mgr S))
       (call (go_ensure_slots G tokens (decode_lookahead C)) i) K i queue preempted S"

definition reserve_decode_slot ::
  "sched_config \<Rightarrow> 's kv_ops \<Rightarrow> int \<Rightarrow> int \<Rightarrow> int list \<Rightarrow> int list \<Rightarrow> 's sched
   \<Rightarrow> bool result \<times> int list \<times> int list \<times> 's sched" where
  "reserve_decode_slot C K i queries queue preempted S =
     (case ko_grouped K of
        Some G \<Rightarrow>
          make_room (\<lambda>S. go_can_ensure_slots G (reqs S i) queries (decode_lookahead C) (mgr S))
            (call (go_ensure_slots G queries (decode_lookahead C)) i) K i queue preempted S
      | None \<Rightarrow>
          make_room (\<lambda>S. ko_can_append_slot K (mgr S) (reqs S i)) (call (ko_append_slot K) i) K i queue preempted S)"

lemma make_room_queue: "make_room can grab K i queue preempted S = (res, q, p, S') \<Longrightarrow> length q \<le> length queue"
proof (induction can grab K i queue preempted S arbitrary: res q p S' rule: make_room.induct)
  case (1 can grab K i queue preempted S)
  show ?case
  proof (cases "can S \<or> queue = []")
    case True
    then show ?thesis
      using "1.prems" by (subst (asm) make_room.simps) (auto split: prod.splits result.splits if_splits)
  next
    case False
    obtain r S1 where p: "preempt K (last queue) S = (r, S1)" by (metis surj_pair)
    show ?thesis
    proof (cases r)
      case (Ok u)
      then have "make_room can grab K i (butlast queue) (preempted @ [last queue]) S1 = (res, q, p, S')"
        using "1.prems" False p by (subst (asm) make_room.simps) simp
      from "1.IH" [OF _ _ p [symmetric] Ok this] False have "length q \<le> length (butlast queue)" by simp
      then show ?thesis by simp
    next
      case (Raise e)
      then show ?thesis using "1.prems" False p by (subst (asm) make_room.simps) auto
    qed
  qed
qed

section \<open>One scheduling step\<close>

definition begin_step :: "sched_config \<Rightarrow> bool \<Rightarrow> int option \<Rightarrow> 's sched \<Rightarrow> 's sched" where
  "begin_step C throttle_prefills budget S =
     (let defer = (throttle_prefills \<and> \<not> prefill_capacity_bound S \<and>
            list_ex (\<lambda>i. \<not> prefill_chunk_pending (reqs S i)) (running S));
          eligible = int (length (running S) + length (waiting S) + length (loading S));
          threshold = (if 1 < eligible then sc_long_prefill_token_threshold C else 0);
          adapted = (case budget of
              None \<Rightarrow> threshold
            | Some b \<Rightarrow>
                if threshold \<noteq> 0 \<and> sc_adaptive_long_prefill_threshold C \<and> b \<noteq> 0 then max threshold (b div eligible)
                else threshold)
      in S\<lparr>defer_prefills := defer, effective_threshold := adapted\<rparr>)"

text \<open>\<^verbatim>\<open>sorted\<close> by arrival time is stable; comparing a request that never arrived raises.\<close>

definition sort_by_arrival :: "(int \<Rightarrow> req) \<Rightarrow> int list \<Rightarrow> int list result" where
  "sort_by_arrival rs ids =
     (if 2 \<le> length ids \<and> list_ex (\<lambda>i. arrival_at (rs i) = None) ids then Raise PyTypeError
      else Ok (sort_key (\<lambda>i. case arrival_at (rs i) of None \<Rightarrow> 0 | Some t \<Rightarrow> t) ids))"

text \<open>What a running request gets once its slots are there.\<close>

definition assign_running :: "sched_config \<Rightarrow> int \<Rightarrow> int \<Rightarrow> int \<Rightarrow> step \<times> 's sched \<Rightarrow> step \<times> 's sched" where
  "assign_running C i tokens queries sS =
     (let (st, S) = sS;
          S1 = upd_req i (\<lambda>r. r\<lparr>scheduled_tokens := tokens, scheduled_query_tokens := queries\<rparr>) S;
          pending = (st_prefill_scheduled st \<or> prefill_chunk_pending (reqs S1 i));
          S2 = upd_req i (\<lambda>r. r\<lparr>prefill_chunk_pending := num_computed_tokens r + queries < context_len r\<rparr>) S1
      in (st\<lparr>st_budget := map_option (\<lambda>b. b - budget_cost C (reqs S2 i) tokens) (st_budget st),
             st_scheduled := st_scheduled st @ [i], st_prefill_scheduled := pending\<rparr>,
          S2\<lparr>running := running S2 @ [i]\<rparr>))"

text \<open>The slots of the request at the head of the queue: decode slots, or context slots of a grouped cache.\<close>

definition reserve_slots ::
  "sched_config \<Rightarrow> 's kv_ops \<Rightarrow> int \<Rightarrow> int \<Rightarrow> int \<Rightarrow> int list \<Rightarrow> int list \<Rightarrow> 's sched
   \<Rightarrow> bool result \<times> int list \<times> int list \<times> 's sched" where
  "reserve_slots C K i tokens queries queue preempted S =
     (if \<not> is_context_build (reqs S i) then reserve_decode_slot C K i queries queue preempted S
      else
        (case ko_grouped K of
           None \<Rightarrow> (Ok True, queue, preempted, S)
         | Some G \<Rightarrow> reserve_context_slots C G K i tokens queue preempted S))"

lemma reserve_slots_queue:
  "reserve_slots C K i t q queue preempted S = (res, queue', p, S') \<Longrightarrow> length queue' \<le> length queue"
  by (auto simp: reserve_slots_def reserve_decode_slot_def reserve_context_slots_def dest: make_room_queue
      split: if_splits option.splits)

function schedule_running_loop ::
  "sched_config \<Rightarrow> 's kv_ops \<Rightarrow> int list \<Rightarrow> step \<Rightarrow> 's sched \<Rightarrow> unit result \<times> step \<times> 's sched" where
  "schedule_running_loop C K [] st S = (Ok (), st, S)"
| "schedule_running_loop C K (i # queue) st S =
     (if defer_prefills S \<and> prefill_chunk_pending (reqs S i) then
        schedule_running_loop C K queue st
          ((bump ''deferred_running_prefills'' 1 S)\<lparr>running := running S @ [i]\<rparr>)
      else
        (let (tokens, r1) = sched_step_tokens C (effective_threshold S) (st_budget st) (reqs S i);
             S1 = upd_req i (\<lambda>_. r1) S
         in if tokens = 0 then schedule_running_loop C K queue st (S1\<lparr>running := running S1 @ [i]\<rparr>)
            else
              (let queries = sched_query_tokens C (reqs S1 i) tokens
               in case reserve_slots C K i tokens queries queue (st_preempted st) S1 of
                    (Raise e, queue', p, S2) \<Rightarrow> (Raise e, st\<lparr>st_preempted := p\<rparr>, S2)
                  | (Ok False, queue', p, S2) \<Rightarrow> schedule_running_loop C K queue' (st\<lparr>st_preempted := p\<rparr>) S2
                  | (Ok True, queue', p, S2) \<Rightarrow>
                      (let (st', S3) = assign_running C i tokens queries (st\<lparr>st_preempted := p\<rparr>, S2)
                       in schedule_running_loop C K queue' st' S3))))"
  by pat_completeness auto
termination
proof (relation "measure (\<lambda>(C, K, queue, st, S). length queue)", goal_cases)
  case (4 C K i queue st S x tokens r1 S1 queries y res z queue' u p S2)
  then have "reserve_slots C K i tokens queries queue (st_preempted st) S1 = (y, queue', p, S2)" by metis
  from reserve_slots_queue [OF this] show ?case by simp
next
  case (5 C K i queue st S x tokens r1 S1 queries y res z queue' u p S2)
  then have "reserve_slots C K i tokens queries queue (st_preempted st) S1 = (y, queue', p, S2)" by metis
  from reserve_slots_queue [OF this] show ?case by simp
qed auto

definition schedule_running ::
  "sched_config \<Rightarrow> 's kv_ops \<Rightarrow> step \<Rightarrow> 's sched \<Rightarrow> unit result \<times> step \<times> 's sched" where
  "schedule_running C K st S =
     (case sort_by_arrival (reqs S) (running S) of
        Raise e \<Rightarrow> (Raise e, st, S)
      | Ok queue \<Rightarrow> schedule_running_loop C K queue st (S\<lparr>running := []\<rparr>))"

section \<open>Admission\<close>

text \<open>A waiting or loaded request starts to run with its tokens of this step.\<close>

definition assign_waiting :: "int \<Rightarrow> int \<Rightarrow> int \<Rightarrow> step \<times> 's sched \<Rightarrow> step \<times> 's sched" where
  "assign_waiting i tokens queries sS =
     (let (st, S) = sS;
          S1 = upd_req i (\<lambda>r. r\<lparr>scheduled_tokens := tokens, scheduled_query_tokens := queries,
                 scheduled_placeholder_tokens := (if is_context_build r then max 0 (queries - tokens) else 0),
                 prefill_chunk_pending := num_computed_tokens r + queries < context_len r\<rparr>) S
      in (st\<lparr>st_budget := map_option (\<lambda>b. b - queries) (st_budget st), st_scheduled := st_scheduled st @ [i]\<rparr>,
          S1\<lparr>running := running S1 @ [i]\<rparr>))"

definition spec_decode_step_blocks :: "sched_config \<Rightarrow> 's kv_ops \<Rightarrow> int" where
  "spec_decode_step_blocks C K =
     (if sc_speculative_tokens C = 0 then 0
      else (1 + 2 * sc_speculative_tokens C + ko_block_size K - 1) div ko_block_size K)"

definition inflight_prefill_reserved_blocks :: "sched_config \<Rightarrow> 's grouped_ops \<Rightarrow> 's kv_ops \<Rightarrow> 's sched \<Rightarrow> int" where
  "inflight_prefill_reserved_blocks C G K S =
     (\<Sum>i \<leftarrow> inflight_prefills S. go_remaining_admission_slots G (reqs S i) (mgr S) + spec_decode_step_blocks C K)"

definition can_admit_external ::
  "sched_config \<Rightarrow> 's grouped_ops \<Rightarrow> 's kv_ops \<Rightarrow> int \<Rightarrow> external \<Rightarrow> 's sched \<Rightarrow> bool \<times> 's sched" where
  "can_admit_external C G K i external S =
     (let reserved = inflight_prefill_reserved_blocks C G K S;
          key = ''max_inflight_prefill_reserved_slots'';
          S1 = S\<lparr>stats := (stats S)(key := max (stats S key) reserved)\<rparr>;
          busy = (running S1 \<noteq> []);
          (allowed, S2) = ask (\<lambda>r. go_can_allocate_external G r external (reserved + spec_decode_step_blocks C K) busy) i S1
      in if allowed then (True, S2)
         else
           (let (free, S3) = ask (\<lambda>r. go_can_allocate_external G r external 0 busy) i S2
            in (False, if free then bump ''async_load_reservation_gate'' 1 S3 else S3)))"

text \<open>\<^verbatim>\<open>external and external[1]\<close>: something is to be loaded.\<close>

definition loads_external :: "external option \<Rightarrow> bool" where
  "loads_external ext = (case ext of None \<Rightarrow> False | Some e \<Rightarrow> snd e \<noteq> [])"

definition record_admission :: "int \<Rightarrow> int \<Rightarrow> int \<Rightarrow> 's sched \<Rightarrow> unit result \<times> 's sched" where
  "record_admission i gpu cpu S =
     call (\<lambda>(m, r). let (res, r') = record_context_admission gpu cpu r in (res, m, r')) i S"

text \<open>Admission with an asynchronous connector; \<^verbatim>\<open>begin_load\<close> also enters the request in \<^verbatim>\<open>loading\<close>.\<close>

definition admit_async ::
  "'s async_ops \<Rightarrow> 's kv_ops \<Rightarrow> int \<Rightarrow> int \<Rightarrow> external option \<Rightarrow> 's sched \<Rightarrow> unit result \<times> 's sched" where
  "admit_async A K i hit_tokens ext S =
     and_then (call (ko_allocate K) i S)
       (\<lambda>_ S1.
          let S2 = upd_req i (\<lambda>r. r\<lparr>gpu_cached_context_tokens := hit_tokens,
                gpu_cached_prefill_tokens := min (prefill_len r) hit_tokens,
                external_cached_prefill_tokens := 0, external_cached_context_tokens := 0\<rparr>) S1
          in if loads_external ext then
               and_then (call (ao_begin_load A (the ext)) i S2)
                 (\<lambda>_ S3. and_then
                    (record_admission i hit_tokens (external_cached_context_tokens (reqs S3 i))
                       (S3\<lparr>loading := dict_add i (loading S3)\<rparr>))
                    (\<lambda>_ S4. (Ok (), S4\<lparr>inflight_prefills := dict_add i (inflight_prefills S4)\<rparr>)))
             else
               (let S3 = upd_req i (\<lambda>r. start_context_build hit_tokens
                       (if needs_recompute r then r\<lparr>recompute_tokens := max 0 (context_len r - hit_tokens)\<rparr> else r)) S2
                in and_then (record_admission i hit_tokens 0 S3)
                     (\<lambda>_ S4. (Ok (), upd_req i (\<lambda>r. r\<lparr>status := RUNNING\<rparr>) S4))))"

definition admit_sync :: "'s kv_ops \<Rightarrow> int \<Rightarrow> int \<Rightarrow> prefix_key list \<Rightarrow> 's sched \<Rightarrow> unit result \<times> 's sched" where
  "admit_sync K i hit_tokens input_keys S =
     (let S1 = upd_req i (\<lambda>r. r\<lparr>input_cache_keys := input_keys\<rparr>) S;
          (num_external_tokens, S2) = call (ko_matched_tokens K hit_tokens) i S1;
          S3 = upd_req i (\<lambda>r. if needs_recompute r then
                 r\<lparr>recompute_tokens := max 0 (context_len r - hit_tokens - num_external_tokens)\<rparr> else r) S2
      in and_then (call (ko_allocate K) i S3)
           (\<lambda>_ S4.
              let S5 = run (ko_after_alloc K num_external_tokens) i S4;
                  S6 = upd_req i (\<lambda>r.
                    let to_compute = (if needs_recompute r then recompute_tokens r
                          else if is_prefill r then prefill_compute_len r else 1)
                    in (start_context_build (context_len r - to_compute) r)\<lparr>status := RUNNING\<rparr>) S5
              in if ko_grouped K \<noteq> None then record_admission i hit_tokens num_external_tokens S6 else (Ok (), S6)))"

definition admit :: "'s kv_ops \<Rightarrow> int \<Rightarrow> external option \<Rightarrow> 's sched \<Rightarrow> unit result \<times> 's sched" where
  "admit K i ext S =
     (let ((hit_tokens, input_keys), S1) = ask (ko_plan_reuse K) i S
      in case ko_async K of
           Some A \<Rightarrow> admit_async A K i hit_tokens ext S1
         | None \<Rightarrow> admit_sync K i hit_tokens input_keys S1)"

text \<open>Whether the head of the waiting queue may be admitted; the probe of an asynchronous connector comes first.\<close>

definition probe_external :: "'s kv_ops \<Rightarrow> int \<Rightarrow> 's sched \<Rightarrow> (int \<times> external) option result \<times> 's sched" where
  "probe_external K i S =
     (case ko_async K of
        None \<Rightarrow> (Ok None, S)
      | Some A \<Rightarrow>
          if ko_grouped K = None then (Raise PyAttributeError, S)
          else
            (let ((local_hits, _), S1) = ask (ko_plan_reuse K) i S;
                 (ext, S2) = ask (ao_probe A) i S1
             in (Ok (Some (local_hits, ext)), S2)))"

definition deferred_gate :: "'s kv_ops \<Rightarrow> int \<Rightarrow> external option \<Rightarrow> 's sched \<Rightarrow> bool \<times> 's sched" where
  "deferred_gate K i ext S =
     (if \<not> defer_prefills S then (False, S)
      else
        (let ((plan_hits, _), S1) = ask (ko_plan_reuse K) i S;
             hit_tokens = (case ext of Some e \<Rightarrow> fst e | None \<Rightarrow> plan_hits)
         in if 1 < context_len (reqs S1 i) - hit_tokens then (True, bump ''deferred_waiting_prefills'' 1 S1)
            else (False, S1)))"

definition padded_gate ::
  "sched_config \<Rightarrow> 's kv_ops \<Rightarrow> int \<Rightarrow> (int \<times> external) option \<Rightarrow> step \<Rightarrow> 's sched \<Rightarrow> bool \<times> 's sched" where
  "padded_gate C K i probed st S =
     (if ko_grouped K = None \<or> loads_external (map_option snd probed) then (False, S)
      else
        (let (prefix, S1) = (case probed of
               Some (local_hits, _) \<Rightarrow> (local_hits, S)
             | None \<Rightarrow> (let ((hits, _), S1) = ask (ko_plan_reuse K) i S in (hits, S1)))
         in (context_len (reqs S1 i) - prefix = 1 \<and>
             waiting_query_tokens C (reqs S1 i) 1 1 (st_budget st) (st_scheduled_running st) (Some prefix)
               (st_prefill_scheduled st) = 0, S1)))"

definition capacity_gate ::
  "sched_config \<Rightarrow> 's kv_ops \<Rightarrow> int \<Rightarrow> external option \<Rightarrow> 's sched \<Rightarrow> bool result \<times> 's sched" where
  "capacity_gate C K i ext S =
     (if loads_external ext then
        (case ko_grouped K of
           None \<Rightarrow> (Raise PyAttributeError, S)
         | Some G \<Rightarrow> (let (ok, S1) = can_admit_external C G K i (the ext) S in (Ok ok, S1)))
      else
        (case ko_grouped K of
           Some G \<Rightarrow> (let (ok, S1) = ask (\<lambda>r. go_can_allocate G r (running S \<noteq> [])) i S in (Ok ok, S1))
         | None \<Rightarrow> (let (ok, S1) = ask (ko_can_allocate K) i S in (Ok ok, S1))))"

text \<open>The tokens and the query width a waiting request gets in this step; the request records its acceptance draw.\<close>

definition waiting_tokens ::
  "sched_config \<Rightarrow> int \<Rightarrow> step \<Rightarrow> 's sched \<Rightarrow> int \<times> int \<times> 's sched" where
  "waiting_tokens C i st S =
     (let (tokens, r1) = sched_step_tokens C (effective_threshold S) (st_budget st) (reqs S i);
          queries = waiting_query_tokens C r1 tokens (sched_query_tokens C r1 tokens) (st_budget st)
            (st_scheduled_running st) None (st_prefill_scheduled st)
      in (tokens, queries, upd_req i (\<lambda>_. r1) S))"

definition resume_loaded ::
  "sched_config \<Rightarrow> 's kv_ops \<Rightarrow> int \<Rightarrow> step \<Rightarrow> 's sched \<Rightarrow> bool result \<times> step \<times> 's sched" where
  "resume_loaded C K i st S =
     (if defer_prefills S \<and> 1 < remaining_context_tokens (reqs S i) then
        (Ok False, st, bump ''deferred_waiting_prefills'' 1 S)
      else
        (let (tokens, queries, S1) = waiting_tokens C i st S
         in if queries = 0 then (Ok False, st, S1)
            else
              (case ko_grouped K of
                 None \<Rightarrow> (Raise PyAttributeError, st, S1)
               | Some G \<Rightarrow>
                   (let watermark = (if running S1 \<noteq> [] then go_watermark_blocks G (mgr S1) else 0)
                    in if go_get_num_free_blocks G (mgr S1) < go_remaining_admission_slots G (reqs S1 i) (mgr S1) + watermark
                          \<or> \<not> go_can_ensure_slots G (reqs S1 i) queries (decode_lookahead C) (mgr S1)
                       then (Ok False, st, bump ''loaded_kv_capacity_gate'' 1 S1)
                       else
                         (case call (go_ensure_slots G queries (decode_lookahead C)) i S1 of
                            (Raise e, S2) \<Rightarrow> (Raise e, st, S2)
                          | (Ok _, S2) \<Rightarrow>
                              (let S3 = upd_req i (\<lambda>r. r\<lparr>status := RUNNING\<rparr>)
                                     (S2\<lparr>loaded_waiting := tl (loaded_waiting S2), loading := remove1 i (loading S2)\<rparr>);
                                   (st', S4) = assign_waiting i tokens queries (st, S3)
                               in (Ok True, st', bump ''loaded_kv_resumptions'' 1 S4)))))))"

text \<open>The admission is undone when the grouped slots of its first tokens do not fit.\<close>

definition undo_admission ::
  "'s grouped_ops \<Rightarrow> 's kv_ops \<Rightarrow> int \<Rightarrow> prefix_key admission_snapshot \<Rightarrow> 's sched \<Rightarrow> unit result \<times> 's sched" where
  "undo_admission G K i snapshot S =
     and_then (call (ko_release_request_blocks K) i S)
       (\<lambda>_ S1.
          let S2 = run (go_discard_load G) i S1;
              S3 = upd_req i (restore_admission_state snapshot)
                     (S2\<lparr>inflight_prefills := remove1 i (inflight_prefills S2)\<rparr>)
          in (Ok (), bump ''full_input_gate'' 1 (S3\<lparr>waiting := i # waiting S3\<rparr>)))"

text \<open>After \<^verbatim>\<open>_admit\<close>: wait for the load, or get tokens and slots.\<close>

definition start_admitted ::
  "sched_config \<Rightarrow> 's kv_ops \<Rightarrow> int \<Rightarrow> prefix_key admission_snapshot \<Rightarrow> step \<Rightarrow> 's sched \<Rightarrow> bool result \<times> step \<times> 's sched" where
  "start_admitted C K i snapshot st S =
     (if status (reqs S i) = WAITING_FOR_KV then (Ok True, st, bump ''async_load_admissions'' 1 S)
      else
        (let (tokens, queries, S1) = waiting_tokens C i st S
         in if queries = 0 then (Raise ConfigurationError, st, S1)
            else
              (case ko_grouped K of
                 None \<Rightarrow>
                   (let (st', S2) = assign_waiting i tokens queries (st, S1)
                    in (Ok True, st', S2\<lparr>last_admitted := last_admitted S2 @ [i]\<rparr>))
               | Some G \<Rightarrow>
                   if \<not> go_can_ensure_slots G (reqs S1 i) queries (decode_lookahead C) (mgr S1) then
                     (case undo_admission G K i snapshot S1 of
                        (Raise e, S2) \<Rightarrow> (Raise e, st, S2)
                      | (Ok _, S2) \<Rightarrow> (Ok False, st, S2))
                   else
                     (case call (go_ensure_slots G queries (decode_lookahead C)) i S1 of
                        (Raise e, S2) \<Rightarrow> (Raise e, st, S2)
                      | (Ok _, S2) \<Rightarrow>
                          (let S3 = (if num_computed_tokens (reqs S2 i) + tokens < context_len (reqs S2 i)
                                 then S2\<lparr>inflight_prefills := dict_add i (inflight_prefills S2)\<rparr> else S2);
                               (st', S4) = assign_waiting i tokens queries (st, S3)
                           in (Ok True, st', S4\<lparr>last_admitted := last_admitted S4 @ [i]\<rparr>))))))"

definition admit_waiting ::
  "sched_config \<Rightarrow> 's kv_ops \<Rightarrow> int \<Rightarrow> step \<Rightarrow> 's sched \<Rightarrow> bool result \<times> step \<times> 's sched" where
  "admit_waiting C K i st S =
     (case probe_external K i S of
        (Raise e, S1) \<Rightarrow> (Raise e, st, S1)
      | (Ok probed, S1) \<Rightarrow>
          (let ext = map_option snd probed;
               (deferred, S2) = deferred_gate K i ext S1
           in if deferred then (Ok False, st, S2)
              else
                (let (padded, S3) = padded_gate C K i probed st S2
                 in if padded then (Ok False, st, S3)
                    else
                      (case capacity_gate C K i ext S3 of
                         (Raise e, S4) \<Rightarrow> (Raise e, st, S4)
                       | (Ok False, S4) \<Rightarrow> (Ok False, st, bump ''full_input_gate'' 1 S4)
                       | (Ok True, S4) \<Rightarrow>
                           (let snapshot = admission_state (reqs S4 i)
                            in case admit K i ext (S4\<lparr>waiting := tl (waiting S4)\<rparr>) of
                                 (Raise e, S5) \<Rightarrow> (Raise e, st, S5)
                               | (Ok _, S5) \<Rightarrow> start_admitted C K i snapshot st S5)))))"

definition is_occupy_below_usage :: "sched_config \<Rightarrow> 's kv_ops \<Rightarrow> 's sched \<Rightarrow> bool result" where
  "is_occupy_below_usage C K S =
     (let (_, used_blks, all_blks) = ko_gpu_status K (mgr S)
      in if all_blks = 0 then Raise PyZeroDivisionError
         else Ok (real_of_int used_blks / real_of_int all_blks < sc_max_occupy_ratio C))"

text \<open>One round of the admission loop: \<open>Ok True\<close> goes on, \<open>Ok False\<close> is \<^verbatim>\<open>break\<close>.\<close>

definition waiting_round :: "sched_config \<Rightarrow> 's kv_ops \<Rightarrow> step \<Rightarrow> 's sched \<Rightarrow> bool result \<times> step \<times> 's sched" where
  "waiting_round C K st S =
     (let resuming = (loaded_waiting S \<noteq> []);
          usage = (if resuming then Ok True else is_occupy_below_usage C K S)
      in case usage of
           Raise e \<Rightarrow> (Raise e, st, S)
         | Ok below \<Rightarrow>
             if \<not> below then (Ok False, st, S)
             else if (case sc_max_num_seqs C of None \<Rightarrow> False | Some m \<Rightarrow> m \<le> int (length (running S))) then
               (Ok False, st, bump ''max_num_seqs_gate'' 1 S)
             else if resuming then resume_loaded C K (hd (loaded_waiting S)) st S
             else admit_waiting C K (hd (waiting S)) st S)"

section \<open>The queues during an admission\<close>

text \<open>Steps that change requests, the manager and counters, but none of the queues a request can be in.\<close>

definition same_queues :: "'s sched \<Rightarrow> 's sched \<Rightarrow> bool" where
  "same_queues S S' \<longleftrightarrow> running S' = running S \<and> waiting S' = waiting S \<and> loaded_waiting S' = loaded_waiting S \<and>
     last_admitted S' = last_admitted S \<and> defer_prefills S' = defer_prefills S \<and>
     effective_threshold S' = effective_threshold S"

lemma same_queues_refl [simp]: "same_queues S S"
  by (simp add: same_queues_def)

lemma same_queues_trans: "same_queues S S1 \<Longrightarrow> same_queues S1 S2 \<Longrightarrow> same_queues S S2"
  by (simp add: same_queues_def)

lemma same_queues_upd [simp]: "same_queues S (upd_req i f S)" "same_queues S (bump k n S)" "same_queues S (run g i S)"
  "same_queues S (S\<lparr>loading := l\<rparr>)" "same_queues S (S\<lparr>inflight_prefills := l\<rparr>)" "same_queues S (S\<lparr>stats := z\<rparr>)"
  by (simp_all add: same_queues_def upd_req_def bump_def run_def call_def split_beta Let_def)

lemma same_queues_call: "call f i S = (x, S') \<Longrightarrow> same_queues S S'"
  by (auto simp: call_def same_queues_def Let_def split: prod.splits)

lemma same_queues_ask: "ask f i S = (x, S') \<Longrightarrow> same_queues S S'"
  by (auto simp: ask_def same_queues_def Let_def split: prod.splits)

lemma same_queues_and_then:
  assumes "and_then (r, S1) f = (res, S')" "same_queues S S1" "\<And>x. r = Ok x \<Longrightarrow> f x S1 = (res, S') \<Longrightarrow> same_queues S1 S'"
  shows "same_queues S S'"
  using assms same_queues_trans by (cases r) auto

lemma same_queues_record: "record_admission i g c S = (res, S') \<Longrightarrow> same_queues S S'"
  unfolding record_admission_def by (rule same_queues_call)

lemma same_queues_admit_async:
  assumes "admit_async A K i hit ext S = (res, S')"
  shows "same_queues S S'"
proof -
  obtain r1 S1 where c1: "call (ko_allocate K) i S = (r1, S1)" by (metis surj_pair)
  define S2 where "S2 = upd_req i (\<lambda>r. r\<lparr>gpu_cached_context_tokens := hit,
      gpu_cached_prefill_tokens := min (prefill_len r) hit,
      external_cached_prefill_tokens := 0, external_cached_context_tokens := 0\<rparr>) S1"
  obtain r2 S3 where c2: "call (ao_begin_load A (the ext)) i S2 = (r2, S3)" by (metis surj_pair)
  define T where "T = upd_req i (\<lambda>r. start_context_build hit
      (if needs_recompute r then r\<lparr>recompute_tokens := max 0 (context_len r - hit)\<rparr> else r)) S2"
  obtain r3 S4 where c3: "record_admission i hit (external_cached_context_tokens (reqs S3 i))
      (S3\<lparr>loading := dict_add i (loading S3)\<rparr>) = (r3, S4)" by (metis surj_pair)
  obtain r4 S5 where c4: "record_admission i hit 0 T = (r4, S5)" by (metis surj_pair)
  note q = same_queues_call [OF c1] same_queues_call [OF c2] same_queues_record [OF c3] same_queues_record [OF c4]
  have q2: "same_queues S1 S2" "same_queues S2 T" by (simp_all add: S2_def T_def)
  have q3: "same_queues S3 S4" using same_queues_trans [OF _ q(3)] by simp
  have fin: "same_queues S4 (S4\<lparr>inflight_prefills := l\<rparr>)" "same_queues S5 (upd_req i f S5)" for l f by simp_all
  have S2': "same_queues S S2" by (rule same_queues_trans [OF q(1) q2(1)])
  then have b: "same_queues S S3" "same_queues S S4" "same_queues S S5"
    using q(2,4) q2(2) q3 by (blast intro: same_queues_trans)+
  show ?thesis
    using assms q(1) b same_queues_trans [OF b(2) fin(1)] same_queues_trans [OF b(3) fin(2)]
    by (auto simp: admit_async_def c1 S2_def [symmetric] c2 T_def [symmetric] c3 c4 Let_def and_then_def
        split: result.splits if_splits)
qed

lemma same_queues_admit_sync:
  assumes "admit_sync K i hit keys S = (res, S')"
  shows "same_queues S S'"
proof -
  define S1 where "S1 = upd_req i (\<lambda>r. r\<lparr>input_cache_keys := keys\<rparr>) S"
  obtain n S2 where c1: "call (ko_matched_tokens K hit) i S1 = (n, S2)" by (metis surj_pair)
  define S3 where "S3 = upd_req i (\<lambda>r. if needs_recompute r then
                 r\<lparr>recompute_tokens := max 0 (context_len r - hit - n)\<rparr> else r) S2"
  obtain r S4 where c2: "call (ko_allocate K) i S3 = (r, S4)" by (metis surj_pair)
  define S6 where "S6 = upd_req i (\<lambda>r.
                    let to_compute = (if needs_recompute r then recompute_tokens r
                          else if is_prefill r then prefill_compute_len r else 1)
                    in (start_context_build (context_len r - to_compute) r)\<lparr>status := RUNNING\<rparr>)
      (run (ko_after_alloc K n) i S4)"
  obtain r3 S7 where c3: "record_admission i hit n S6 = (r3, S7)" by (metis surj_pair)
  note q = same_queues_call [OF c1] same_queues_call [OF c2] same_queues_record [OF c3]
  have "same_queues S S1" "same_queues S2 S3" by (simp_all add: S1_def S3_def)
  then have S4: "same_queues S S4" using q(1,2) by (blast intro: same_queues_trans)
  have "same_queues S4 S6" unfolding S6_def by (rule same_queues_trans [OF same_queues_upd(3) same_queues_upd(1)])
  then have "same_queues S S6" "same_queues S S7" using S4 q(3) by (blast intro: same_queues_trans)+
  then show ?thesis
    using assms S4 unfolding admit_sync_def S1_def [symmetric] Let_def c1 prod.case S3_def [symmetric] c2
    by (cases r) (auto simp: S6_def [unfolded Let_def, symmetric] c3 split: if_splits)
qed

lemma same_queues_admit: "admit K i ext S = (res, S') \<Longrightarrow> same_queues S S'"
  by (auto simp: admit_def Let_def split: prod.splits option.splits
      dest!: same_queues_ask same_queues_admit_async same_queues_admit_sync intro: same_queues_trans)

lemma same_queues_gates:
  "probe_external K i S = (x1, S1) \<Longrightarrow> same_queues S S1"
  "deferred_gate K i ext S = (x2, S2) \<Longrightarrow> same_queues S S2"
  "padded_gate C K i probed st S = (x3, S3) \<Longrightarrow> same_queues S S3"
  "can_admit_external C G K i e S = (x4, S4) \<Longrightarrow> same_queues S S4"
proof -
  show "probe_external K i S = (x1, S1) \<Longrightarrow> same_queues S S1"
    by (auto simp: probe_external_def Let_def split: prod.splits option.splits if_splits
        dest!: same_queues_ask intro: same_queues_trans)
  show "deferred_gate K i ext S = (x2, S2) \<Longrightarrow> same_queues S S2"
    by (auto simp: deferred_gate_def Let_def split: prod.splits if_splits dest!: same_queues_ask
        intro: same_queues_trans [OF _ same_queues_upd(2)])
  show "padded_gate C K i probed st S = (x3, S3) \<Longrightarrow> same_queues S S3"
    by (auto simp: padded_gate_def Let_def split: prod.splits option.splits if_splits dest!: same_queues_ask)
  show "can_admit_external C G K i e S = (x4, S4) \<Longrightarrow> same_queues S S4"
    by (auto simp: can_admit_external_def Let_def split: prod.splits if_splits dest!: same_queues_ask
        intro: same_queues_trans same_queues_trans [OF _ same_queues_upd(2)] same_queues_trans [OF same_queues_upd(6)])
qed

lemma same_queues_capacity: "capacity_gate C K i ext S = (x, S') \<Longrightarrow> same_queues S S'"
  by (auto simp: capacity_gate_def Let_def split: prod.splits option.splits if_splits
      dest!: same_queues_ask same_queues_gates(4))

lemma waiting_tokens_queues: "waiting_tokens C i st S = (t, q, S') \<Longrightarrow> same_queues S S'"
  by (auto simp: waiting_tokens_def Let_def split: prod.splits)

lemma assign_waiting_queues:
  "assign_waiting i t q (st, S) = (st', S') \<Longrightarrow> running S' = running S @ [i] \<and> waiting S' = waiting S \<and>
   loaded_waiting S' = loaded_waiting S \<and> last_admitted S' = last_admitted S \<and>
   st_scheduled st' = st_scheduled st @ [i] \<and> st_preempted st' = st_preempted st \<and>
   st_scheduled_running st' = st_scheduled_running st \<and> st_prefill_scheduled st' = st_prefill_scheduled st \<and>
   st_budget st' = map_option (\<lambda>b. b - q) (st_budget st)"
  by (auto simp: assign_waiting_def Let_def upd_req_def)

text \<open>
  What one admission does to the queues. A resumed request moves from the loaded to the running ones; an
  admitted one leaves the waiting queue and runs, or waits for its load; otherwise nothing moves.
\<close>

definition resumes :: "int \<Rightarrow> step \<Rightarrow> 's sched \<Rightarrow> step \<Rightarrow> 's sched \<Rightarrow> bool" where
  "resumes i st S st' S' \<longleftrightarrow> running S' = running S @ [i] \<and> waiting S' = waiting S \<and>
     loaded_waiting S' = tl (loaded_waiting S) \<and> last_admitted S' = last_admitted S \<and>
     st_scheduled st' = st_scheduled st @ [i]"

definition admits :: "int \<Rightarrow> step \<Rightarrow> 's sched \<Rightarrow> step \<Rightarrow> 's sched \<Rightarrow> bool" where
  "admits i st S st' S' \<longleftrightarrow> running S' = running S @ [i] \<and> waiting S' = waiting S \<and>
     loaded_waiting S' = loaded_waiting S \<and> last_admitted S' = last_admitted S @ [i] \<and>
     st_scheduled st' = st_scheduled st @ [i]"

definition parks :: "int \<Rightarrow> step \<Rightarrow> 's sched \<Rightarrow> step \<Rightarrow> 's sched \<Rightarrow> bool" where
  "parks i st S st' S' \<longleftrightarrow> same_queues S S' \<and> st' = st \<and> status (reqs S' i) = WAITING_FOR_KV"

lemma same_queuesD:
  "same_queues S S' \<Longrightarrow> running S' = running S" "same_queues S S' \<Longrightarrow> waiting S' = waiting S"
  "same_queues S S' \<Longrightarrow> loaded_waiting S' = loaded_waiting S" "same_queues S S' \<Longrightarrow> last_admitted S' = last_admitted S"
  by (simp_all add: same_queues_def)

lemma resume_loaded_True:
  assumes "resume_loaded C K i st S = (Ok True, st', S')"
  shows "resumes i st S st' S'"
proof -
  obtain t q S1 where w: "waiting_tokens C i st S = (t, q, S1)" by (metis prod_cases3)
  obtain G where G: "ko_grouped K = Some G"
    using assms by (auto simp: resume_loaded_def w Let_def split: if_splits option.splits)
  obtain c S2 where c: "call (go_ensure_slots G q (decode_lookahead C)) i S1 = (c, S2)" by (metis surj_pair)
  define S3 where "S3 = upd_req i (\<lambda>r. r\<lparr>status := RUNNING\<rparr>)
    (S2\<lparr>loaded_waiting := tl (loaded_waiting S2), loading := remove1 i (loading S2)\<rparr>)"
  obtain st4 S4 where a: "assign_waiting i t q (st, S3) = (st4, S4)" by (metis surj_pair)
  have e: "st' = st4" "S' = bump ''loaded_kv_resumptions'' 1 S4"
    using assms by (auto simp: resume_loaded_def w G c S3_def [symmetric] a Let_def split: if_splits result.splits)
  from same_queues_trans [OF waiting_tokens_queues [OF w] same_queues_call [OF c]] assign_waiting_queues [OF a]
  show ?thesis by (simp add: resumes_def e S3_def bump_def upd_req_def same_queues_def)
qed

lemma start_admitted_True:
  assumes "start_admitted C K i snap st S = (Ok True, st', S')"
  shows "admits i st S st' S' \<or> parks i st S st' S'"
proof (cases "status (reqs S i) = WAITING_FOR_KV")
  case True
  then show ?thesis using assms by (auto simp: start_admitted_def parks_def) (simp add: bump_def)
next
  case False
  obtain t q S1 where w: "waiting_tokens C i st S = (t, q, S1)" by (metis prod_cases3)
  note q1 = waiting_tokens_queues [OF w]
  have fin: ?thesis if "same_queues S1 S3" "assign_waiting i t q (st, S3) = (st', S4)"
    "S' = S4\<lparr>last_admitted := last_admitted S4 @ [i]\<rparr>" for S3 S4
    using assign_waiting_queues [OF that(2)] same_queues_trans [OF q1 that(1)] that(3)
    by (simp add: admits_def same_queues_def)
  show ?thesis
  proof (cases "ko_grouped K")
    case None
    obtain st4 S4 where a: "assign_waiting i t q (st, S1) = (st4, S4)" by (metis surj_pair)
    then show ?thesis
      using assms False None fin [OF same_queues_refl] by (auto simp: start_admitted_def w Let_def split: if_splits)
  next
    case (Some G)
    obtain c S2 where c: "call (go_ensure_slots G q (decode_lookahead C)) i S1 = (c, S2)" by (metis surj_pair)
    define S3 where "S3 = (if num_computed_tokens (reqs S2 i) + t < context_len (reqs S2 i)
      then S2\<lparr>inflight_prefills := dict_add i (inflight_prefills S2)\<rparr> else S2)"
    obtain st4 S4 where a: "assign_waiting i t q (st, S3) = (st4, S4)" by (metis surj_pair)
    have "same_queues S2 S3" by (simp add: S3_def)
    then have q3: "same_queues S1 S3" using same_queues_call [OF c] same_queues_trans by blast
    have "st' = st4" "S' = S4\<lparr>last_admitted := last_admitted S4 @ [i]\<rparr>"
      using assms False a
      by (auto simp: start_admitted_def w Some c S3_def Let_def split: if_splits result.splits prod.splits)
    with fin [OF q3] a show ?thesis by simp
  qed
qed

lemma admit_waiting_True:
  assumes "admit_waiting C K i st S = (Ok True, st', S')"
  shows "admits i st (S\<lparr>waiting := tl (waiting S)\<rparr>) st' S' \<or> parks i st (S\<lparr>waiting := tl (waiting S)\<rparr>) st' S'"
proof -
  obtain r1 S1 where g1: "probe_external K i S = (r1, S1)" by (metis surj_pair)
  with assms obtain probed where p: "r1 = Ok probed" by (cases r1) (auto simp: admit_waiting_def)
  define ext where "ext = map_option snd probed"
  obtain d S2 where g2: "deferred_gate K i ext S1 = (d, S2)" by (metis surj_pair)
  obtain pad S3 where g3: "padded_gate C K i probed st S2 = (pad, S3)" by (metis surj_pair)
  obtain ok S4 where g4: "capacity_gate C K i ext S3 = (ok, S4)" by (metis surj_pair)
  obtain r5 S5 where a: "admit K i ext (S4\<lparr>waiting := tl (waiting S4)\<rparr>) = (r5, S5)" by (metis surj_pair)
  have s: "start_admitted C K i (admission_state (reqs S4 i)) st S5 = (Ok True, st', S')"
    using assms by (auto simp: admit_waiting_def g1 p ext_def [symmetric] g2 g3 g4 a Let_def
        split: if_splits result.splits bool.splits)
  have "same_queues S S4"
    using same_queues_gates(1) [OF g1] same_queues_gates(2) [OF g2] same_queues_gates(3) [OF g3] same_queues_capacity [OF g4]
    by (blast intro: same_queues_trans)
  then have "same_queues (S\<lparr>waiting := tl (waiting S)\<rparr>) (S4\<lparr>waiting := tl (waiting S4)\<rparr>)" by (simp add: same_queues_def)
  from same_queues_trans [OF this same_queues_admit [OF a]]
  have "same_queues (S\<lparr>waiting := tl (waiting S)\<rparr>) S5" .
  with start_admitted_True [OF s] show ?thesis
    by (auto simp: admits_def parks_def same_queues_def)
qed

lemma waiting_round_True:
  assumes "waiting_round C K st S = (Ok True, st', S')"
  shows "loaded_waiting S \<noteq> [] \<and> resumes (hd (loaded_waiting S)) st S st' S' \<or>
    loaded_waiting S = [] \<and> (admits (hd (waiting S)) st (S\<lparr>waiting := tl (waiting S)\<rparr>) st' S' \<or>
      parks (hd (waiting S)) st (S\<lparr>waiting := tl (waiting S)\<rparr>) st' S')"
  using assms by (auto simp: waiting_round_def Let_def split: result.splits if_splits option.splits
      dest: resume_loaded_True admit_waiting_True)

text \<open>Every round that goes on takes one request out of the queues of waiting requests.\<close>

lemma waiting_round_shrinks:
  assumes "waiting_round C K st S = (Ok True, st', S')" and "loaded_waiting S \<noteq> [] \<or> waiting S \<noteq> []"
  shows "length (loaded_waiting S') + length (waiting S') < length (loaded_waiting S) + length (waiting S)"
proof (cases "loaded_waiting S = []")
  case True
  then have "waiting S \<noteq> []" using assms(2) by simp
  then have "length (tl (waiting S)) < length (waiting S)" by (cases "waiting S") auto
  with waiting_round_True [OF assms(1)] True show ?thesis by (auto simp: admits_def parks_def same_queues_def)
next
  case False
  then have "length (tl (loaded_waiting S)) < length (loaded_waiting S)" by (cases "loaded_waiting S") auto
  with waiting_round_True [OF assms(1)] False show ?thesis by (auto simp: resumes_def)
qed

function schedule_waiting :: "sched_config \<Rightarrow> 's kv_ops \<Rightarrow> step \<Rightarrow> 's sched \<Rightarrow> unit result \<times> step \<times> 's sched" where
  "schedule_waiting C K st S =
     (if (loaded_waiting S \<noteq> [] \<or> waiting S \<noteq> []) \<and> (case st_budget st of None \<Rightarrow> True | Some b \<Rightarrow> 0 < b) then
        (case waiting_round C K st S of
           (Raise e, st', S') \<Rightarrow> (Raise e, st', S')
         | (Ok False, st', S') \<Rightarrow> (Ok (), st', S')
         | (Ok True, st', S') \<Rightarrow> schedule_waiting C K st' S')
      else (Ok (), st, S))"
  by pat_completeness auto
termination
proof (relation "measure (\<lambda>(C, K, st, S). length (loaded_waiting S) + length (waiting S))", goal_cases)
  case (2 C K st S r y b st' S')
  then have "waiting_round C K st S = (Ok True, st', S')" by metis
  from waiting_round_shrinks [OF this] 2(1) show ?case by simp
qed simp

declare schedule_waiting.simps [simp del]

section \<open>The step\<close>

definition record_one :: "int \<Rightarrow> 's sched \<Rightarrow> 's sched" where
  "record_one i S =
     (let r = reqs S i;
          S1 = (if is_context_build r then
                  bump ''scheduled_context_query_tokens'' (query_tokens r)
                    (bump ''scheduled_context_tokens'' (scheduled_tokens r) S)
                else
                  bump ''scheduled_decode_query_tokens'' (query_tokens r)
                    (bump ''scheduled_decode_tokens'' (scheduled_tokens r) S));
          S2 = bump ''scheduled_placeholder_queries'' (scheduled_placeholder_tokens r) S1;
          S3 = bump ''padded_context_admissions'' (if 0 < scheduled_placeholder_tokens r then 1 else 0) S2
      in bump ''scheduled_logits_rows'' (logits_tokens r) S3)"

definition record_scheduled :: "int list \<Rightarrow> 's sched \<Rightarrow> 's sched" where
  "record_scheduled ids S = fold record_one ids S"

text \<open>The scheduled and the preempted requests, in the step that is returned.\<close>

definition schedule :: "sched_config \<Rightarrow> 's kv_ops \<Rightarrow> bool \<Rightarrow> 's sched \<Rightarrow> unit result \<times> step \<times> 's sched" where
  "schedule C K throttle_prefills S =
     (let st = \<lparr>st_budget = sc_max_num_batched_tokens C, st_scheduled = [], st_preempted = [],
               st_prefill_scheduled = False, st_scheduled_running = []\<rparr>;
          S1 = begin_step C throttle_prefills (st_budget st) (bump ''steps'' 1 (S\<lparr>last_admitted := []\<rparr>))
      in case schedule_running C K st S1 of
           (Raise e, st2, S2) \<Rightarrow> (Raise e, st2, S2)
         | (Ok _, st2, S2) \<Rightarrow>
             (let st3 = st2\<lparr>st_scheduled_running := st_scheduled st2\<rparr>
              in case (if st_preempted st3 = [] then schedule_waiting C K st3 S2 else (Ok (), st3, S2)) of
                   (Raise e, st4, S4) \<Rightarrow> (Raise e, st4, S4)
                 | (Ok _, st4, S4) \<Rightarrow>
                     (let S5 = (if st_preempted st4 = [] \<and> \<not> defer_prefills S4
                            then S4\<lparr>prefill_capacity_bound := (waiting S4 \<noteq> [] \<or> loaded_waiting S4 \<noteq> [])\<rparr> else S4);
                          S6 = (if prefill_capacity_bound S5 then bump ''capacity_bound_steps'' 1 S5 else S5)
                      in (Ok (), st4, record_scheduled (st_scheduled st4) S6))))"

end
