(* ===== verification/Sched_Lifecycle.thy ===== *)
theory Sched_Lifecycle
  imports Scheduler
begin

text \<open>
  The other operations of the schedulers of \<^verbatim>\<open>src/TokenSim/llm/llm_scheduler.py\<close>: arrival, the output of a
  step, completion, cancellation, and the two schedulers without paging; and the interface record of the
  uniform block manager with the no-op connector (\<^verbatim>\<open>src/TokenSim/kv_transfer/connectors/base.py\<close>).
\<close>

section \<open>Phases\<close>

datatype schedule_phase = PhaseIdle | PhasePrefill | PhaseDecode | PhaseRecompute | PhaseMixed

definition request_kind :: "req \<Rightarrow> schedule_phase" where
  "request_kind r =
     (if needs_recompute r then PhaseRecompute else if is_prefill r then PhasePrefill else PhaseDecode)"

definition step_phase :: "req list \<Rightarrow> schedule_phase" where
  "step_phase rs =
     (let kinds = remdups (map request_kind rs)
      in case kinds of [] \<Rightarrow> PhaseIdle | [k] \<Rightarrow> k | _ \<Rightarrow> PhaseMixed)"

record schedule_output =
  so_running :: "int list"
  so_preempted :: "int list"
  so_scheduled :: "int list"
  so_preempted_request_ids :: "int list"
  so_phase :: schedule_phase

text \<open>The connector turns the output into metadata; \<open>meta\<close> gives the preempted ids it reports.\<close>

definition paged_schedule_output ::
  "(schedule_output \<Rightarrow> int list) \<Rightarrow> sched_config \<Rightarrow> 's kv_ops \<Rightarrow> bool \<Rightarrow> 's sched \<Rightarrow> schedule_output result \<times> 's sched" where
  "paged_schedule_output meta C K throttle_prefills S =
     (case schedule C K throttle_prefills S of
        (Raise e, st, S1) \<Rightarrow> (Raise e, S1)
      | (Ok _, st, S1) \<Rightarrow>
          (let output = \<lparr>so_running = st_scheduled st, so_preempted = st_preempted st,
                 so_scheduled = last_admitted S1,
                 so_preempted_request_ids = map (\<lambda>i. rq_id (reqs S1 i)) (st_preempted st),
                 so_phase = step_phase (map (reqs S1) (st_scheduled st))\<rparr>;
               ids = meta output
           in (Ok (output\<lparr>so_preempted_request_ids :=
                 (if st_preempted st \<noteq> [] \<and> ids = [] then map (\<lambda>i. rq_id (reqs S1 i)) (st_preempted st) else ids)\<rparr>), S1)))"

section \<open>Arrival\<close>

text \<open>\<^verbatim>\<open>LLMScheduler.add_requests\<close>.\<close>

definition base_add_requests :: "'s kv_ops \<Rightarrow> int list \<Rightarrow> 's sched \<Rightarrow> 's sched" where
  "base_add_requests K ids S =
     (let live = filter (\<lambda>i. \<not> cancel_requested (reqs S i)) ids;
          S1 = fold (run (ko_on_new_request K)) live S
      in S1\<lparr>waiting := waiting S1 @ live\<rparr>)"

fun apply_limit :: "int \<Rightarrow> int list \<Rightarrow> 's sched \<Rightarrow> unit result \<times> 's sched" where
  "apply_limit limit [] S = (Ok (), S)"
| "apply_limit limit (i # ids) S =
     (if limit \<le> prefill_len (reqs S i) then (Raise ConfigurationError, S)
      else apply_limit limit ids (upd_req i (\<lambda>r. r\<lparr>max_model_len := Some limit\<rparr>) S))"

definition add_requests :: "sched_config \<Rightarrow> 's kv_ops \<Rightarrow> int list \<Rightarrow> 's sched \<Rightarrow> unit result \<times> 's sched" where
  "add_requests C K ids S =
     and_then (case sc_max_model_len C of None \<Rightarrow> (Ok (), S) | Some limit \<Rightarrow> apply_limit limit ids S)
       (\<lambda>_ S1. (Ok (), base_add_requests K ids S1))"

section \<open>Completion\<close>

definition finished_status :: "req \<Rightarrow> request_status" where
  "finished_status r = (if length_capped r then FINISHED_LENGTH_CAPPED else FINISHED_STOPPED)"

definition base_free :: "int \<Rightarrow> 's sched \<Rightarrow> unit result \<times> 's sched" where
  "base_free i S = (Ok (), upd_req i (\<lambda>r. r\<lparr>status := finished_status r\<rparr>) S)"

definition paged_free :: "'s kv_ops \<Rightarrow> int \<Rightarrow> 's sched \<Rightarrow> unit result \<times> 's sched" where
  "paged_free K i S =
     (let S1 = S\<lparr>inflight_prefills := remove1 i (inflight_prefills S)\<rparr>;
          (delay_free, S2) = call (ko_request_finished K (ko_block_ids K (mgr S1) (rq_id (reqs S1 i)))) i S1
      in if delay_free then (Ok (), upd_req i (\<lambda>r. r\<lparr>status := WAITING_FOR_CONNECTOR_FREE\<rparr>) S2)
         else and_then (call (ko_free K) i S2)
                (\<lambda>_ S3. (Ok (), upd_req i (\<lambda>r. r\<lparr>status := finished_status r\<rparr>) S3)))"

text \<open>\<^verbatim>\<open>LLMScheduler.update\<close>, with the scheduler's \<^verbatim>\<open>free\<close>.\<close>

definition base_update ::
  "(int \<Rightarrow> 's sched \<Rightarrow> unit result \<times> 's sched) \<Rightarrow> int list \<Rightarrow> 's sched \<Rightarrow> unit result \<times> 's sched" where
  "base_update free ids S =
     and_then (for_each (\<lambda>i S. if is_done (reqs S i) then free i S else (Ok (), S)) ids S)
       (\<lambda>_ S1. (Ok (), S1\<lparr>running := filter (\<lambda>i. \<not> is_done (reqs S1 i)) (running S1)\<rparr>))"

definition commit_computed :: "'s kv_ops \<Rightarrow> int \<Rightarrow> 's sched \<Rightarrow> 's sched" where
  "commit_computed K i S =
     (let S1 = (if \<not> is_context_build (reqs S i) then S\<lparr>inflight_prefills := remove1 i (inflight_prefills S)\<rparr> else S)
      in if 0 < generation_idx (reqs S1 i) then run (ko_commit_input_cache K) i S1 else S1)"

definition paged_update :: "'s kv_ops \<Rightarrow> int list \<Rightarrow> 's sched \<Rightarrow> unit result \<times> 's sched" where
  "paged_update K ids S = base_update (paged_free K) ids (fold (commit_computed K) ids S)"

definition on_tokens_computed :: "'s kv_ops \<Rightarrow> int \<Rightarrow> 's sched \<Rightarrow> unit result \<times> 's sched" where
  "on_tokens_computed K i S =
     (case ko_grouped K of None \<Rightarrow> (Ok (), S) | Some G \<Rightarrow> call (go_cache_computed G) i S)"

text \<open>\<^verbatim>\<open>update_connector_output\<close>; \<open>note\<close> is the connector's own part.\<close>

definition update_connector_output :: "('s \<Rightarrow> 's) \<Rightarrow> int list \<Rightarrow> 's sched \<Rightarrow> 's sched" where
  "update_connector_output note finished_sending S =
     (let S1 = S\<lparr>mgr := note (mgr S)\<rparr>
      in if finished_sending = [] then S1
         else S1\<lparr>running := filter (\<lambda>i. \<not> (rq_id (reqs S1 i) \<in> set finished_sending \<and>
                (is_done (reqs S1 i) \<or> status (reqs S1 i) = WAITING_FOR_CONNECTOR_FREE))) (running S1)\<rparr>)"

definition release_delayed_blocks :: "'s kv_ops \<Rightarrow> int \<Rightarrow> 's sched \<Rightarrow> unit result \<times> 's sched" where
  "release_delayed_blocks K i S =
     and_then (call (ko_release_request_blocks K) i S)
       (\<lambda>_ S1. (Ok (), upd_req i (\<lambda>r. r\<lparr>status := FINISHED_STOPPED\<rparr>) S1))"

section \<open>Cancellation\<close>

definition base_cancel_request :: "'s kv_ops \<Rightarrow> int \<Rightarrow> 's sched \<Rightarrow> bool \<times> 's sched" where
  "base_cancel_request K i S =
     (let S1 = S\<lparr>running := filter (\<lambda>j. j \<noteq> i) (running S), waiting := filter (\<lambda>j. j \<noteq> i) (waiting S)\<rparr>;
          (delayed, S2) = call (ko_request_finished K []) i S1
      in (\<not> delayed, run (ko_request_released K) i S2))"

definition paged_cancel_request :: "'s kv_ops \<Rightarrow> int \<Rightarrow> 's sched \<Rightarrow> bool result \<times> 's sched" where
  "paged_cancel_request K i S =
     (let S1 = S\<lparr>running := filter (\<lambda>j. j \<noteq> i) (running S), waiting := filter (\<lambda>j. j \<noteq> i) (waiting S),
                loading := remove1 i (loading S), inflight_prefills := remove1 i (inflight_prefills S),
                loaded_waiting := filter (\<lambda>j. j \<noteq> i) (loaded_waiting S)\<rparr>;
          blocks = ko_block_ids K (mgr S1) i;
          (delayed, S2) = call (ko_request_finished K blocks) i S1
      in if delayed then (Ok (ko_block_ids K (mgr S2) i = []), S2)
         else
           and_then (if blocks \<noteq> [] \<or> ko_grouped K \<noteq> None then call (ko_release_request_blocks K) i S2 else (Ok (), S2))
             (\<lambda>_ S3. let S4 = run (ko_request_released K) i S3 in (Ok (ko_block_ids K (mgr S4) i = []), S4)))"

text \<open>GPU cache utilisation in percent.\<close>

definition workload :: "'s kv_ops \<Rightarrow> 's sched \<Rightarrow> real" where
  "workload K S =
     (let (_, used_blocks, total_blocks) = ko_gpu_status K (mgr S)
      in if 0 < total_blocks then real_of_int used_blocks / real_of_int total_blocks * 100 else 0)"

section \<open>The schedulers without paging\<close>

definition dynamic_schedule :: "int \<Rightarrow> 's sched \<Rightarrow> 's sched" where
  "dynamic_schedule max_seqs S =
     (let available = nat (max 0 (max_seqs - int (length (running S))))
      in S\<lparr>running := running S @ take available (waiting S), waiting := drop available (waiting S)\<rparr>)"

definition static_schedule :: "int \<Rightarrow> 's sched \<Rightarrow> 's sched" where
  "static_schedule max_seqs S =
     (if running S = [] then
        S\<lparr>running := running S @ take (nat max_seqs) (waiting S), waiting := drop (nat max_seqs) (waiting S)\<rparr>
      else S)"

section \<open>The uniform block manager with the no-op connector\<close>

definition uniform_ops :: "(string \<Rightarrow> string) \<Rightarrow> int \<Rightarrow> bman kv_ops" where
  "uniform_ops H sz =
     \<lparr>ko_plan_reuse = (\<lambda>r w. let (plan, w1) = plan_reuse H r w in ((pl_hit_tokens plan, pl_input_keys plan), w1)),
      ko_can_allocate = bm_can_allocate H,
      ko_allocate = bm_allocate H,
      ko_can_append_slot = (\<lambda>w r. bm_can_append_slot w r 0),
      ko_append_slot = append_slot,
      ko_release_request_blocks = release_request_blocks,
      ko_free = bm_free H,
      ko_commit_input_cache = commit_input_cache,
      ko_block_ids = (\<lambda>w i. map (\<lambda>a. block_number (blk w a)) (get_blocks (bm_table w) i)),
      ko_gpu_status = al_get_status GPU,
      ko_block_size = sz,
      ko_on_new_request = (\<lambda>x. x),
      ko_matched_tokens = (\<lambda>_ x. (0, x)),
      ko_after_alloc = (\<lambda>_ x. x),
      ko_request_finished = (\<lambda>_ x. (False, x)),
      ko_request_released = (\<lambda>x. x),
      ko_grouped = None,
      ko_async = None\<rparr>"

end
