(* ===== verification/Sched_Step.thy ===== *)
theory Sched_Step
  imports Sched_Lifecycle Block_Lifecycle
begin

text \<open>
  One step of the paged scheduler on an ungrouped manager with a synchronous connector. What the scheduler
  relies on is a locale; its laws are discharged for the uniform block manager with the no-op connector.
\<close>

section \<open>What the manager promises\<close>

text \<open>A write of the scheduler to a request that the manager does not notice.\<close>

definition harmless :: "req \<Rightarrow> req \<Rightarrow> bool" where
  "harmless r r' \<longleftrightarrow> req_ident.truncate r' = req_ident.truncate r \<and> logical_tokens r' = logical_tokens r \<and>
     physical_token_blocks r' = physical_token_blocks r \<and> arrival_at r' = arrival_at r"

locale kv_service =
  fixes K :: "'s kv_ops"
    and good :: "'s \<times> (int \<Rightarrow> req) \<Rightarrow> bool"
    and holds :: "'s \<Rightarrow> int \<Rightarrow> bool"
  assumes ungrouped: "ko_grouped K = None"
    and sync: "ko_async K = None"
    and good_request: "good (m, rs) \<Longrightarrow> harmless (rs i) r' \<Longrightarrow> good (m, rs(i := r'))"
    and can_request: "good (m, rs) \<Longrightarrow> harmless (rs i) r' \<Longrightarrow>
      fst (ko_can_allocate K r' m) = fst (ko_can_allocate K (rs i) m)"
    and plan_good: "good (m, rs) \<Longrightarrow> ko_plan_reuse K (rs i) m = (x, m') \<Longrightarrow> good (m', rs) \<and> holds m' = holds m \<and>
      fst (ko_can_allocate K (rs i) m') = fst (ko_can_allocate K (rs i) m)"
    and can_good: "good (m, rs) \<Longrightarrow> ko_can_allocate K (rs i) m = (b, m') \<Longrightarrow> good (m', rs) \<and> holds m' = holds m \<and>
      fst (ko_can_allocate K (rs i) m') = b"
    and matched_good: "good (m, rs) \<Longrightarrow> ko_matched_tokens K n (m, rs i) = (k, m', r') \<Longrightarrow>
      good (m', rs(i := r')) \<and> holds m' = holds m \<and> same_progress (rs i) r' \<and>
      fst (ko_can_allocate K r' m') = fst (ko_can_allocate K (rs i) m)"
    and after_good: "good (m, rs) \<Longrightarrow> ko_after_alloc K n (m, rs i) = (m', r') \<Longrightarrow>
      good (m', rs(i := r')) \<and> holds m' = holds m \<and> same_progress (rs i) r'"
    and allocate_ok: "good (m, rs) \<Longrightarrow> \<not> holds m i \<Longrightarrow> fst (ko_can_allocate K (rs i) m) \<Longrightarrow>
      \<exists>m' r'. ko_allocate K (m, rs i) = (Ok (), m', r') \<and> good (m', rs(i := r')) \<and> same_progress (rs i) r' \<and>
        (\<forall>j. j \<noteq> i \<longrightarrow> holds m' j = holds m j)"
    and append_ok: "good (m, rs) \<Longrightarrow> ko_can_append_slot K m (rs i) \<Longrightarrow>
      \<exists>m' r'. ko_append_slot K (m, rs i) = (Ok (), m', r') \<and> good (m', rs(i := r')) \<and> same_progress (rs i) r' \<and>
        (\<forall>j. j \<noteq> i \<longrightarrow> holds m' j = holds m j)"
    and release_ok: "good (m, rs) \<Longrightarrow>
      \<exists>m' r'. ko_release_request_blocks K (m, rs i) = (Ok (), m', r') \<and> good (m', rs(i := r')) \<and>
        same_progress (rs i) r' \<and> \<not> holds m' i \<and> (\<forall>j. j \<noteq> i \<longrightarrow> holds m' j = holds m j)"
    and status_ok: "good (m, rs) \<Longrightarrow> snd (snd (ko_gpu_status K m)) \<noteq> 0"

section \<open>Invariants of a step\<close>

lemma more_sched_sel:
  fixes r r' :: req
  assumes "req_cache.more r' = req_cache.more r"
  shows "generation_idx r' = generation_idx r" "needs_recompute r' = needs_recompute r"
    "num_computed_tokens r' = num_computed_tokens r" "arrival_at r' = arrival_at r"
    "prefill_chunk_pending r' = prefill_chunk_pending r" "status r' = status r"
    "scheduled_tokens r' = scheduled_tokens r" "scheduled_query_tokens r' = scheduled_query_tokens r"
  using assms by (cases r; cases r'; simp)+

lemma progress_sel:
  assumes "same_progress r r'"
  shows "is_context_build r' = is_context_build r" "num_computed_tokens r' = num_computed_tokens r"
    "context_len r' = context_len r" "arrival_at r' = arrival_at r" "prefill_chunk_pending r' = prefill_chunk_pending r"
    "scheduled_tokens r' = scheduled_tokens r" "scheduled_query_tokens r' = scheduled_query_tokens r"
proof -
  note s = more_sched_sel [of r' r] and p = same_progress_ident [OF assms]
  show "is_context_build r' = is_context_build r" "num_computed_tokens r' = num_computed_tokens r"
    "context_len r' = context_len r" "arrival_at r' = arrival_at r" "prefill_chunk_pending r' = prefill_chunk_pending r"
    "scheduled_tokens r' = scheduled_tokens r" "scheduled_query_tokens r' = scheduled_query_tokens r"
    using s p assms by (simp_all add: same_progress_def is_context_build_def is_prefill_def context_len_def)
qed

text \<open>Everything a slot reservation leaves alone: the requests outside \<open>A\<close>, the other queues and the mode of the step.\<close>

definition still :: "int set \<Rightarrow> 's sched \<Rightarrow> 's sched \<Rightarrow> bool" where
  "still A S S' \<longleftrightarrow> (\<forall>j. j \<notin> A \<longrightarrow> reqs S' j = reqs S j) \<and> (\<forall>j. arrival_at (reqs S' j) = arrival_at (reqs S j)) \<and>
     running S' = running S \<and> loaded_waiting S' = loaded_waiting S \<and> last_admitted S' = last_admitted S \<and>
     defer_prefills S' = defer_prefills S \<and> effective_threshold S' = effective_threshold S"

lemma still_trans: "still A S S1 \<Longrightarrow> still B S1 S2 \<Longrightarrow> A \<subseteq> C \<Longrightarrow> B \<subseteq> C \<Longrightarrow> still C S S2"
  by (simp add: still_def) (metis in_mono)

context kv_service
begin

lemma preempt_ok:
  assumes "good (mgr S, reqs S)"
  shows "\<exists>S'. preempt K i S = (Ok (), S') \<and> good (mgr S', reqs S') \<and> waiting S' = i # waiting S \<and> still {i} S S' \<and>
    \<not> holds (mgr S') i \<and> (\<forall>j. j \<noteq> i \<longrightarrow> holds (mgr S') j = holds (mgr S) j)"
proof -
  from release_ok [OF assms, of i] obtain m' r' where
    r: "ko_release_request_blocks K (mgr S, reqs S i) = (Ok (), m', r')" "good (m', (reqs S)(i := r'))"
      "same_progress (reqs S i) r'" "\<not> holds m' i" "\<forall>j. j \<noteq> i \<longrightarrow> holds m' j = holds (mgr S) j" by blast
  define r2 where "r2 = (prepare_recompute r')\<lparr>status := WAITING\<rparr>"
  have "harmless (((reqs S)(i := r')) i) r2"
    by (simp add: harmless_def r2_def prepare_recompute_def req_ident.truncate_def)
  from good_request [where rs = "(reqs S)(i := r')" and i = i, OF r(2) this] have g: "good (m', (reqs S)(i := r2))" by simp
  define S' where "S' = S\<lparr>inflight_prefills := remove1 i (inflight_prefills S), mgr := m',
      reqs := (reqs S)(i := r2), waiting := i # waiting S\<rparr>"
  have eq: "preempt K i S = (Ok (), S')"
    by (simp add: preempt_def call_def r(1) upd_req_def S'_def r2_def)
  have "arrival_at r2 = arrival_at (reqs S i)" using progress_sel(4) [OF r(3)] by (simp add: r2_def prepare_recompute_def)
  then show ?thesis using eq g r(4,5) by (simp add: still_def S'_def)
qed

text \<open>
  Making room ends: with the slot taken, or with the request itself preempted. The preempted requests are
  the youngest of the queue; they go to the front of the waiting queue, the last one first, and hold nothing.
\<close>

lemma make_room_ok:
  assumes "good (mgr S, reqs S)" and "distinct (i # queue)"
  shows "\<exists>b q ns S'. make_room (\<lambda>S. ko_can_append_slot K (mgr S) (reqs S i)) (call (ko_append_slot K) i) K i queue p S =
      (Ok b, q, p @ ns, S') \<and> good (mgr S', reqs S') \<and> waiting S' = rev ns @ waiting S \<and>
      mset ns + mset q + (if b then {#i#} else {#}) = add_mset i (mset queue) \<and> (\<exists>s. queue = q @ s) \<and>
      still (set ns \<union> {i}) S S' \<and> (b \<longrightarrow> same_progress (reqs S i) (reqs S' i) \<and> i \<notin> set ns) \<and>
      (\<forall>j \<in> set ns. \<not> holds (mgr S') j) \<and> (\<forall>j. j \<notin> insert i (set ns) \<longrightarrow> holds (mgr S') j = holds (mgr S) j)"
  using assms
proof (induction queue arbitrary: S p rule: rev_induct)
  case Nil
  show ?case
  proof (cases "ko_can_append_slot K (mgr S) (reqs S i)")
    case True
    from append_ok [OF Nil.prems(1) True] obtain m' r' where
      a: "ko_append_slot K (mgr S, reqs S i) = (Ok (), m', r')" "good (m', (reqs S)(i := r'))"
        "same_progress (reqs S i) r'" "\<forall>j. j \<noteq> i \<longrightarrow> holds m' j = holds (mgr S) j" by blast
    then show ?thesis
      using True progress_sel(4) [OF a(3)]
      by (subst make_room.simps) (simp add: call_def still_def, blast?)
  next
    case False
    with preempt_ok [OF Nil.prems(1), of i] obtain S' where
      "preempt K i S = (Ok (), S')" "good (mgr S', reqs S')" "waiting S' = i # waiting S" "still {i} S S'"
      "\<not> holds (mgr S') i" "\<forall>j. j \<noteq> i \<longrightarrow> holds (mgr S') j = holds (mgr S) j" by blast
    with False show ?thesis
      by (subst make_room.simps) (auto intro!: exI [of _ False] exI [of _ "[i]"])
  qed
next
  case (snoc x xs)
  show ?case
  proof (cases "ko_can_append_slot K (mgr S) (reqs S i)")
    case True
    from append_ok [OF snoc.prems(1) True] obtain m' r' where
      a: "ko_append_slot K (mgr S, reqs S i) = (Ok (), m', r')" "good (m', (reqs S)(i := r'))"
        "same_progress (reqs S i) r'" "\<forall>j. j \<noteq> i \<longrightarrow> holds m' j = holds (mgr S) j" by blast
    then show ?thesis
      using True progress_sel(4) [OF a(3)]
      by (subst make_room.simps) (simp add: call_def still_def, blast?)
  next
    case False
    from preempt_ok [OF snoc.prems(1), of x] obtain S1 where
      p: "preempt K x S = (Ok (), S1)" "good (mgr S1, reqs S1)" "waiting S1 = x # waiting S" "still {x} S S1"
      "\<not> holds (mgr S1) x" "\<forall>j. j \<noteq> x \<longrightarrow> holds (mgr S1) j = holds (mgr S) j" by blast
    have x: "x \<noteq> i" "x \<notin> set xs" "distinct (i # xs)" using snoc.prems(2) by auto
    from snoc.IH [OF p(2) x(3), of "p @ [x]"] obtain b q ns S' where
      IH: "make_room (\<lambda>S. ko_can_append_slot K (mgr S) (reqs S i)) (call (ko_append_slot K) i) K i xs (p @ [x]) S1 =
          (Ok b, q, (p @ [x]) @ ns, S')" "good (mgr S', reqs S')" "waiting S' = rev ns @ waiting S1"
        "mset ns + mset q + (if b then {#i#} else {#}) = add_mset i (mset xs)" "\<exists>s. xs = q @ s"
        "still (set ns \<union> {i}) S1 S'" "b \<longrightarrow> same_progress (reqs S1 i) (reqs S' i) \<and> i \<notin> set ns"
        "\<forall>j \<in> set ns. \<not> holds (mgr S') j" "\<forall>j. j \<notin> insert i (set ns) \<longrightarrow> holds (mgr S') j = holds (mgr S1) j" by blast
    have eq: "make_room (\<lambda>S. ko_can_append_slot K (mgr S) (reqs S i)) (call (ko_append_slot K) i) K i (xs @ [x]) p S =
        (Ok b, q, p @ x # ns, S')"
      using False IH(1) by (subst make_room.simps) (simp add: p(1))
    have same: "reqs S1 i = reqs S i" using p(4) x(1) by (simp add: still_def)
    have xns: "x \<notin> set ns"
    proof -
      have "set_mset (mset ns) \<subseteq> set_mset (add_mset i (mset xs))" unfolding IH(4) [symmetric] by auto
      then show ?thesis using x by auto
    qed
    have "waiting S' = rev (x # ns) @ waiting S" by (simp add: IH(3) p(3))
    moreover have "mset (x # ns) + mset q + (if b then {#i#} else {#}) = add_mset i (mset (xs @ [x]))"
      using IH(4) by (simp add: add_mset_commute)
    moreover have "\<exists>s. xs @ [x] = q @ s" using IH(5) by auto
    moreover have "still (set (x # ns) \<union> {i}) S S'" by (rule still_trans [OF p(4) IH(6)]) auto
    moreover have "b \<longrightarrow> same_progress (reqs S i) (reqs S' i) \<and> i \<notin> set (x # ns)" using IH(7) same x(1) by simp
    moreover have "\<forall>j \<in> set (x # ns). \<not> holds (mgr S') j" using IH(8,9) p(5) xns x(1) by simp
    moreover have "\<forall>j. j \<notin> insert i (set (x # ns)) \<longrightarrow> holds (mgr S') j = holds (mgr S) j" using IH(9) p(6) by simp
    ultimately show ?thesis using eq IH(2) by blast
  qed
qed

end

section \<open>Budgets without speculation\<close>

definition plain :: "sched_config \<Rightarrow> bool" where
  "plain C \<longleftrightarrow> \<not> sc_mtp_enabled C \<and> sc_max_model_len C = None \<and> 0 \<le> sc_long_prefill_token_threshold C \<and>
     (\<forall>m. sc_max_num_batched_tokens C = Some m \<longrightarrow> 1 \<le> m)"

lemma make_plain:
  assumes "make_sched_config digest None a b c d e f g h k l = Ok C"
  shows "plain C"
  using assms by (auto simp: make_sched_config_def plain_def Let_def split: if_splits result.splits option.splits)

lemma plain_query: "plain C \<Longrightarrow> sched_query_tokens C r t = t" "plain C \<Longrightarrow> budget_cost C r t = t"
  by (simp_all add: sched_query_tokens_def budget_cost_def query_room_def min_room_def plain_def)

lemma plain_waiting_query: "plain C \<Longrightarrow> waiting_query_tokens C r t q b s c p = q"
  by (simp add: waiting_query_tokens_def plain_def)

text \<open>Every request can use a token while the budget is positive, and never gets more than the budget.\<close>

lemma plain_tokens:
  assumes "plain C" "0 \<le> thr" and t: "sched_step_tokens C thr budget r = (t, r')"
  shows "r' = r" "fits budget t \<or> t = 0" "budget = None \<Longrightarrow> 1 \<le> t" "budget = Some b \<Longrightarrow> 1 \<le> b \<Longrightarrow> 1 \<le> t"
    "budget = Some b \<Longrightarrow> 0 \<le> b \<Longrightarrow> 0 \<le> t"
proof -
  have len: "sc_max_model_len C = None" "\<not> sc_mtp_enabled C" using assms(1) by (simp_all add: plain_def)
  have dec: "t = (if fits budget 1 then 1 else 0) \<and> r' = r" if "\<not> is_context_build r"
  proof -
    have "min 1 (max 1 x) = (1 :: int)" "max 1 x \<noteq> (0 :: int)" for x :: int by auto
    then show ?thesis
      using t that len by (auto simp: sched_step_tokens_def Let_def decode_output_tokens_def min_room_def query_room_def
          plain_query [OF assms(1)])
  qed
  have ctx: "t = min_room (if thr \<noteq> 0 then min (max 1 (remaining_context_tokens r)) thr
      else max 1 (remaining_context_tokens r)) budget \<and> r' = r" if "is_context_build r"
    using t that len by (auto simp: sched_step_tokens_def Let_def min_room_def query_room_def)
  show "r' = r" "fits budget t \<or> t = 0" "budget = None \<Longrightarrow> 1 \<le> t" "budget = Some b \<Longrightarrow> 1 \<le> b \<Longrightarrow> 1 \<le> t"
    "budget = Some b \<Longrightarrow> 0 \<le> b \<Longrightarrow> 0 \<le> t"
    using dec ctx assms(2)
    by (cases "is_context_build r"; auto simp: fits_def min_room_def split: option.splits if_splits)+
qed

section \<open>The running requests\<close>

definition used :: "step \<Rightarrow> 's sched \<Rightarrow> int" where
  "used st S = (\<Sum>j \<leftarrow> st_scheduled st. scheduled_query_tokens (reqs S j))"

definition budget_ok :: "int option \<Rightarrow> step \<Rightarrow> 's sched \<Rightarrow> bool" where
  "budget_ok m0 st S \<longleftrightarrow>
     (case m0 of None \<Rightarrow> st_budget st = None | Some m \<Rightarrow> \<exists>b. st_budget st = Some b \<and> 0 \<le> b \<and> b + used st S = m)"

definition scheduled_ok :: "step \<Rightarrow> 's sched \<Rightarrow> bool" where
  "scheduled_ok st S \<longleftrightarrow> set (st_scheduled st) \<subseteq> set (running S) \<and> distinct (st_scheduled st) \<and>
     (\<forall>j \<in> set (st_scheduled st). 1 \<le> scheduled_tokens (reqs S j) \<and>
        scheduled_query_tokens (reqs S j) = scheduled_tokens (reqs S j))"

text \<open>
  The invariant of both loops: \<open>queue\<close> are the running requests still to look at, \<open>A\<close> all requests the
  scheduler owns, \<open>W\<close> the waiting requests behind the preempted ones.
\<close>

definition step_inv ::
  "('s \<times> (int \<Rightarrow> req) \<Rightarrow> bool) \<Rightarrow> ('s \<Rightarrow> int \<Rightarrow> bool) \<Rightarrow> int option \<Rightarrow> int multiset \<Rightarrow> int list \<Rightarrow> int list \<Rightarrow> step
   \<Rightarrow> 's sched \<Rightarrow> bool" where
  "step_inv good holds m0 A W queue st S \<longleftrightarrow> good (mgr S, reqs S) \<and> loaded_waiting S = [] \<and> 0 \<le> effective_threshold S \<and>
     mset queue + mset (running S) + mset (waiting S) = A \<and> rev (st_preempted st) @ W = waiting S \<and>
     (\<forall>j \<in> set (waiting S). \<not> holds (mgr S) j) \<and> scheduled_ok st S \<and> budget_ok m0 st S"

text \<open>The requests of \<open>A\<close> are in one place only.\<close>

definition one_place :: "int multiset \<Rightarrow> bool" where
  "one_place A \<longleftrightarrow> (\<forall>i. count A i \<le> 1)"

lemma one_place_distinct:
  assumes "one_place A" "mset queue + mset xs + mset ys = A"
  shows "distinct (queue @ xs @ ys)"
proof -
  have "count (mset (queue @ xs @ ys)) i \<le> 1" for i using assms by (auto simp: one_place_def ac_simps)
  then show ?thesis
    by (metis (no_types, lifting) count_mset_0_iff distinct_count_atmost_1 le_Suc_eq le_zero_eq One_nat_def)
qed

lemma scheduled_frame:
  assumes "scheduled_ok st S" "\<And>j. j \<in> set (running S) \<Longrightarrow> reqs S' j = reqs S j" "set (running S) \<subseteq> set (running S')"
    "st_scheduled st' = st_scheduled st"
  shows "scheduled_ok st' S'" "used st' S' = used st S"
proof -
  have eq: "reqs S' j = reqs S j" if "j \<in> set (st_scheduled st)" for j
    using assms(1,2) that by (auto simp: scheduled_ok_def)
  then show "used st' S' = used st S" by (simp add: used_def assms(4) cong: map_cong)
  show "scheduled_ok st' S'" using assms eq by (auto simp: scheduled_ok_def)
qed

lemma upd_req_same [simp]: "upd_req i (\<lambda>_. reqs S i) S = S"
  by (simp add: upd_req_def)

text \<open>The mode of the step and the admissions, which the running requests do not touch.\<close>

definition same_mode :: "step \<times> 's sched \<Rightarrow> step \<times> 's sched \<Rightarrow> bool" where
  "same_mode sS sS' \<longleftrightarrow> st_scheduled_running (fst sS') = st_scheduled_running (fst sS) \<and>
     last_admitted (snd sS') = last_admitted (snd sS) \<and> defer_prefills (snd sS') = defer_prefills (snd sS) \<and>
     effective_threshold (snd sS') = effective_threshold (snd sS)"

lemma same_mode_trans: "same_mode a b \<Longrightarrow> same_mode b c \<Longrightarrow> same_mode a c"
  by (simp add: same_mode_def)

context kv_service
begin

lemma reserve_slots_ok:
  assumes "good (mgr S, reqs S)" and "distinct (i # queue)"
  shows "\<exists>b q ns S'. reserve_slots C K i t qs queue p S = (Ok b, q, p @ ns, S') \<and> good (mgr S', reqs S') \<and>
      waiting S' = rev ns @ waiting S \<and> mset ns + mset q + (if b then {#i#} else {#}) = add_mset i (mset queue) \<and>
      (\<exists>s. queue = q @ s) \<and> still (set ns \<union> {i}) S S' \<and> (b \<longrightarrow> same_progress (reqs S i) (reqs S' i) \<and> i \<notin> set ns) \<and>
      (\<forall>j \<in> set ns. \<not> holds (mgr S') j) \<and> (\<forall>j. j \<notin> insert i (set ns) \<longrightarrow> holds (mgr S') j = holds (mgr S) j)"
proof (cases "is_context_build (reqs S i)")
  case True
  then have "reserve_slots C K i t qs queue p S = (Ok True, queue, p @ [], S)" by (simp add: reserve_slots_def ungrouped)
  moreover have "still (set [] \<union> {i}) S S" by (simp add: still_def)
  ultimately show ?thesis using assms by (intro exI [of _ True] exI [of _ queue] exI [of _ "[]"] exI [of _ S]) simp
next
  case False
  then show ?thesis using make_room_ok [OF assms] by (simp add: reserve_slots_def reserve_decode_slot_def ungrouped)
qed

lemma reserve_inv:
  assumes "one_place A" and inv: "step_inv good holds m0 A W (i # queue) st S"
  shows "\<exists>b q p S'. reserve_slots C K i t qs queue (st_preempted st) S = (Ok b, q, p, S') \<and> length q \<le> length queue \<and>
    step_inv good holds m0 (if b then A - {#i#} else A) W q (st\<lparr>st_preempted := p\<rparr>) S' \<and> same_mode (st, S) (st, S')"
proof -
  have g: "good (mgr S, reqs S)" and A: "mset (i # queue) + mset (running S) + mset (waiting S) = A"
    using inv by (simp_all add: step_inv_def)
  note dist = one_place_distinct [OF assms(1) A]
  then have "distinct (i # queue)" by simp
  from reserve_slots_ok [OF g this, of C t qs "st_preempted st"] obtain b q ns S' where
    r: "reserve_slots C K i t qs queue (st_preempted st) S = (Ok b, q, st_preempted st @ ns, S')" "good (mgr S', reqs S')"
      "waiting S' = rev ns @ waiting S" "mset ns + mset q + (if b then {#i#} else {#}) = add_mset i (mset queue)"
      "\<exists>s. queue = q @ s" "still (set ns \<union> {i}) S S'" "b \<longrightarrow> same_progress (reqs S i) (reqs S' i) \<and> i \<notin> set ns"
      "\<forall>j \<in> set ns. \<not> holds (mgr S') j" "\<forall>j. j \<notin> insert i (set ns) \<longrightarrow> holds (mgr S') j = holds (mgr S) j" by blast
  have "set_mset (mset ns) \<subseteq> set_mset (add_mset i (mset queue))" unfolding r(4) [symmetric] by auto
  then have ns: "set ns \<subseteq> insert i (set queue)" by simp
  have run: "running S' = running S" and thr: "effective_threshold S' = effective_threshold S" "loaded_waiting S' = loaded_waiting S"
    using r(6) by (simp_all add: still_def)
  have keep: "reqs S' j = reqs S j" if "j \<in> set (running S)" for j
    using r(6) ns dist that by (auto simp: still_def)
  have free: "\<not> holds (mgr S') j" if "j \<in> set (waiting S')" for j
  proof (cases "j \<in> set ns")
    case False
    then have j: "j \<in> set (waiting S)" using that r(3) by simp
    then have "j \<noteq> i" using dist by auto
    then show ?thesis using False j r(9) inv by (auto simp: step_inv_def)
  qed (use r(8) in blast)
  define A' where "A' = mset q + mset (running S) + mset (waiting S')"
  have "A' + (if b then {#i#} else {#}) =
      (mset ns + mset q + (if b then {#i#} else {#})) + (mset (running S) + mset (waiting S))"
    by (simp add: A'_def r(3) ac_simps)
  also have "\<dots> = A" unfolding r(4) A [symmetric] by (simp add: ac_simps)
  finally have A'': "mset q + mset (running S') + mset (waiting S') = (if b then A - {#i#} else A)"
    by (auto simp: A'_def run split: if_splits)
  have frame: "scheduled_ok (st\<lparr>st_preempted := st_preempted st @ ns\<rparr>) S'"
    "used (st\<lparr>st_preempted := st_preempted st @ ns\<rparr>) S' = used st S"
    using scheduled_frame [of st S S' "st\<lparr>st_preempted := st_preempted st @ ns\<rparr>"] inv keep run by (auto simp: step_inv_def)
  have "length q \<le> length queue" using r(5) by auto
  moreover have "step_inv good holds m0 (if b then A - {#i#} else A) W q (st\<lparr>st_preempted := st_preempted st @ ns\<rparr>) S'"
    using inv r(2,3) A'' free frame thr by (auto simp: step_inv_def budget_ok_def split: option.splits)
  moreover have "same_mode (st, S) (st, S')" using r(6) by (simp add: same_mode_def still_def)
  ultimately show ?thesis using r(1) by blast
qed

text \<open>A request that gets \<open>t\<close> tokens joins the scheduled and the running ones.\<close>

lemma schedule_one_inv:
  assumes inv: "step_inv good holds m0 A W queue st S" and "i \<notin># A" and "1 \<le> t" and "fits (st_budget st) t"
    and r': "harmless (reqs S i) r'" "scheduled_tokens r' = t" "scheduled_query_tokens r' = t"
    and f: "reqs S' = (reqs S)(i := r')" "running S' = running S @ [i]" "mgr S' = mgr S" "waiting S' = waiting S"
      "loaded_waiting S' = loaded_waiting S" "effective_threshold S' = effective_threshold S"
      "st_scheduled st' = st_scheduled st @ [i]" "st_preempted st' = st_preempted st"
      "st_budget st' = map_option (\<lambda>b. b - t) (st_budget st)"
  shows "step_inv good holds m0 (add_mset i A) W queue st' S'"
proof -
  have good: "good (mgr S', reqs S')"
    using good_request [of "mgr S" "reqs S" i r'] r'(1) inv by (simp add: step_inv_def f)
  have i: "i \<notin> set (running S)" "i \<notin> set (st_scheduled st)"
    using inv assms(2) by (auto simp: step_inv_def scheduled_ok_def)
  have "(\<Sum>j \<leftarrow> st_scheduled st. scheduled_query_tokens (reqs S' j)) =
      (\<Sum>j \<leftarrow> st_scheduled st. scheduled_query_tokens (reqs S j))"
    using i(2) by (intro arg_cong [where f = sum_list] map_cong) (auto simp: f(1))
  moreover have "scheduled_query_tokens (reqs S' i) = t" by (simp add: f(1) r'(3))
  ultimately have used: "used st' S' = used st S + t" by (simp add: used_def f(7))
  have "scheduled_ok st' S'" using inv i assms(3) by (auto simp: step_inv_def scheduled_ok_def f r')
  moreover have "budget_ok m0 st' S'"
    using inv assms(4) used by (auto simp: step_inv_def budget_ok_def f fits_def split: option.splits)
  ultimately show ?thesis using inv good by (auto simp: step_inv_def f ac_simps)
qed

lemma assign_running_inv:
  assumes "plain C" and inv: "step_inv good holds m0 A W queue st S" "i \<notin># A" "1 \<le> t" "fits (st_budget st) t"
    and a: "assign_running C i t t (st, S) = (st', S')"
  shows "step_inv good holds m0 (add_mset i A) W queue st' S'" "same_mode (st, S) (st', S')"
proof -
  define r' where "r' = (reqs S i)\<lparr>scheduled_tokens := t, scheduled_query_tokens := t,
    prefill_chunk_pending := num_computed_tokens (reqs S i) + t < context_len (reqs S i)\<rparr>"
  show "step_inv good holds m0 (add_mset i A) W queue st' S'"
    by (rule schedule_one_inv [OF inv, of r'])
      (use a in \<open>auto simp: assign_running_def Let_def upd_req_def plain_query [OF assms(1)] r'_def context_len_def
        harmless_def req_ident.truncate_def\<close>)
  show "same_mode (st, S) (st', S')"
    using a by (auto simp: assign_running_def Let_def upd_req_def same_mode_def)
qed

lemma defer_inv:
  assumes inv: "step_inv good holds m0 A W (i # queue) st S"
    and eq: "reqs S' = reqs S" "mgr S' = mgr S" "waiting S' = waiting S" "loaded_waiting S' = loaded_waiting S"
      "effective_threshold S' = effective_threshold S" "running S' = running S @ [i]"
  shows "step_inv good holds m0 A W queue st S'"
proof -
  have "used st S' = used st S" by (simp add: used_def eq)
  moreover have "scheduled_ok st S'" using inv by (auto simp: step_inv_def scheduled_ok_def eq)
  ultimately show ?thesis using inv by (auto simp: step_inv_def budget_ok_def eq split: option.splits)
qed

lemma running_loop_ok:
  assumes "plain C" and "one_place A" and "step_inv good holds m0 A W queue st S"
  shows "\<exists>st' S'. schedule_running_loop C K queue st S = (Ok (), st', S') \<and> step_inv good holds m0 A W [] st' S' \<and>
    same_mode (st, S) (st', S')"
  using assms(3)
proof (induction "length queue" arbitrary: queue st S rule: less_induct)
  case less
  show ?case
  proof (cases queue)
    case Nil
    then show ?thesis using less.prems by (simp add: same_mode_def)
  next
    case (Cons i rest)
    note inv = less.prems [unfolded Cons]
    have later: "\<exists>st' S'. schedule_running_loop C K q st1 S1 = (Ok (), st', S') \<and> step_inv good holds m0 A W [] st' S' \<and>
        same_mode (st, S) (st', S')"
      if "length q \<le> length rest" "step_inv good holds m0 A W q st1 S1" "same_mode (st, S) (st1, S1)" for q st1 S1
      using less.hyps [of q st1 S1] that same_mode_trans [OF that(3)] by (auto simp: Cons)
    obtain t r1 where t: "sched_step_tokens C (effective_threshold S) (st_budget st) (reqs S i) = (t, r1)" by (metis surj_pair)
    have thr: "0 \<le> effective_threshold S" and b: "budget_ok m0 st S" using inv by (simp_all add: step_inv_def)
    note pt = plain_tokens [OF assms(1) thr t]
    show ?thesis
    proof (cases "defer_prefills S \<and> prefill_chunk_pending (reqs S i) \<or> t = 0")
      case True
      then show ?thesis
        using later [OF le_refl defer_inv [OF inv], of "S\<lparr>running := running S @ [i]\<rparr>"]
          later [OF le_refl defer_inv [OF inv], of "(bump ''deferred_running_prefills'' 1 S)\<lparr>running := running S @ [i]\<rparr>"]
        by (auto simp: Cons t pt(1) same_mode_def bump_def)
    next
      case False
      have pos: "1 \<le> t" using False pt(3-5) b by (cases m0) (force simp: budget_ok_def)+
      have fit: "fits (st_budget st) t" using False pt(2) by simp
      from reserve_inv [OF assms(2) inv, of C t t] obtain bb q p S2 where
        r: "reserve_slots C K i t t rest (st_preempted st) S = (Ok bb, q, p, S2)" "length q \<le> length rest"
          "step_inv good holds m0 (if bb then A - {#i#} else A) W q (st\<lparr>st_preempted := p\<rparr>) S2" "same_mode (st, S) (st, S2)"
        by blast
      show ?thesis
      proof (cases bb)
        case False
        then show ?thesis
          using later [OF r(2), of "st\<lparr>st_preempted := p\<rparr>" S2] r \<open>\<not> (_ \<or> t = 0)\<close>
          by (auto simp: Cons t pt(1) plain_query [OF assms(1)] same_mode_def)
      next
        case True
        obtain st3 S3 where a: "assign_running C i t t (st\<lparr>st_preempted := p\<rparr>, S2) = (st3, S3)" by (metis surj_pair)
        have A: "i \<in># A" using inv by (auto simp: step_inv_def)
        then have "i \<notin># A - {#i#}" using assms(2) unfolding one_place_def
          by (metis count_single diff_le_self in_diff_count less_one not_le)
        from assign_running_inv [OF assms(1) _ this pos _ a] r(3) True fit A
        have "step_inv good holds m0 A W q st3 S3" "same_mode (st\<lparr>st_preempted := p\<rparr>, S2) (st3, S3)" by simp_all
        then show ?thesis
          using later [OF r(2), of st3 S3] r(1,4) True False a
          by (auto simp: Cons t pt(1) plain_query [OF assms(1)] same_mode_def)
      qed
    qed
  qed
qed

end

section \<open>The waiting requests\<close>

text \<open>The state with the manager and one request replaced, and how the calls rewrite it.\<close>

definition with_req :: "'s sched \<Rightarrow> int \<Rightarrow> 's \<Rightarrow> req \<Rightarrow> 's sched" where
  "with_req S i m r = S\<lparr>mgr := m, reqs := (reqs S)(i := r)\<rparr>"

lemma with_req_calls:
  "upd_req i f (S\<lparr>mgr := m\<rparr>) = with_req S i m (f (reqs S i))"
  "upd_req i f (with_req S i m r) = with_req S i m (f r)"
  "g (m, r) = (x, m', r') \<Longrightarrow> call g i (with_req S i m r) = (x, with_req S i m' r')"
  "h (m, r) = (m', r') \<Longrightarrow> run h i (with_req S i m r) = with_req S i m' r'"
  by (simp_all add: with_req_def upd_req_def call_def run_def)

context kv_service
begin

lemma good_upd:
  assumes "good (m, rs(i := r))" "harmless r r'"
  shows "good (m, rs(i := r'))" "fst (ko_can_allocate K r' m) = fst (ko_can_allocate K r m)"
  using good_request [OF assms(1), of i r'] can_request [OF assms(1), of i r'] assms(2) by simp_all

lemma admit_ok:
  assumes g: "good (mgr S, reqs S)" and "\<not> holds (mgr S) i" and can: "fst (ko_can_allocate K (reqs S i) (mgr S))"
  shows "\<exists>S'. admit K i None S = (Ok (), S') \<and> good (mgr S', reqs S') \<and> status (reqs S' i) = RUNNING \<and>
    (\<forall>j. j \<noteq> i \<longrightarrow> reqs S' j = reqs S j \<and> holds (mgr S') j = holds (mgr S) j)"
proof -
  obtain hit keys m1 where p: "ko_plan_reuse K (reqs S i) (mgr S) = ((hit, keys), m1)" by (metis surj_pair)
  note pg = plan_good [OF g p]
  define r1 where "r1 = (reqs S i)\<lparr>input_cache_keys := keys\<rparr>"
  have h1: "harmless (reqs S i) r1" by (simp add: harmless_def r1_def req_ident.truncate_def)
  have g1: "good (m1, (reqs S)(i := r1))" "fst (ko_can_allocate K r1 m1)"
    using good_request [of m1 "reqs S" i r1] can_request [of m1 "reqs S" i r1] h1 pg can by auto
  obtain n m2 r2 where mt: "ko_matched_tokens K hit (m1, r1) = (n, m2, r2)" by (metis prod_cases3)
  have g2: "good (m2, (reqs S)(i := r2))" "holds m2 = holds m1" "fst (ko_can_allocate K r2 m2)"
    using matched_good [OF g1(1), of hit i n m2 r2] mt g1(2) by simp_all
  define r3 where "r3 = (if needs_recompute r2 then r2\<lparr>recompute_tokens := max 0 (context_len r2 - hit - n)\<rparr> else r2)"
  have h3: "harmless r2 r3" by (simp add: harmless_def r3_def req_ident.truncate_def)
  note g3 = good_upd [OF g2(1) h3]
  have "\<not> holds m2 i" using g2(2) pg assms(2) by simp
  with allocate_ok [OF g3(1), of i] g3(2) g2(3) obtain m4 r4 where
    al: "ko_allocate K (m2, r3) = (Ok (), m4, r4)" "good (m4, (reqs S)(i := r4))" "\<forall>j. j \<noteq> i \<longrightarrow> holds m4 j = holds m2 j" by auto
  obtain m5 r5 where af: "ko_after_alloc K n (m4, r4) = (m5, r5)" by (metis surj_pair)
  have g5: "good (m5, (reqs S)(i := r5))" "holds m5 = holds m4"
    using after_good [OF al(2), of n i m5 r5] af by simp_all
  define r6 where "r6 = (let to_compute = (if needs_recompute r5 then recompute_tokens r5
                          else if is_prefill r5 then prefill_compute_len r5 else 1)
                    in (start_context_build (context_len r5 - to_compute) r5)\<lparr>status := RUNNING\<rparr>)"
  have h6: "harmless r5 r6" by (simp add: harmless_def r6_def start_context_build_def req_ident.truncate_def Let_def)
  define S' where "S' = with_req S i m5 r6"
  have "admit_sync K i hit keys (S\<lparr>mgr := m1\<rparr>) = (Ok (), S')"
    unfolding admit_sync_def with_req_calls(1) r1_def [symmetric]
    by (simp add: with_req_calls(2-4) mt r3_def [symmetric] al(1) af ungrouped S'_def r6_def Let_def)
  then have "admit K i None S = (Ok (), S')" by (simp add: admit_def ask_def p sync)
  moreover have "status r6 = RUNNING" by (simp add: r6_def Let_def)
  ultimately show ?thesis using good_upd(1) [OF g5(1) h6] g5(2) al(3) g2(2) pg by (auto simp: S'_def with_req_def)
qed

lemma start_admitted_ok:
  assumes "plain C" and inv: "step_inv good holds m0 A W [] st S" and w: "w \<notin># A" and st: "status (reqs S w) = RUNNING"
    and pos: "case st_budget st of None \<Rightarrow> True | Some b \<Rightarrow> 0 < b"
  shows "\<exists>st' S'. start_admitted C K w snap st S = (Ok True, st', S') \<and> step_inv good holds m0 (add_mset w A) W [] st' S' \<and>
    running S' = running S @ [w] \<and> st_preempted st' = st_preempted st \<and> defer_prefills S' = defer_prefills S"
proof -
  obtain t r1 where t: "sched_step_tokens C (effective_threshold S) (st_budget st) (reqs S w) = (t, r1)" by (metis surj_pair)
  have thr: "0 \<le> effective_threshold S" using inv by (simp add: step_inv_def)
  note pt = plain_tokens [OF assms(1) thr t]
  have t1: "1 \<le> t" using pt(3,4) pos by (cases "st_budget st") auto
  have fit: "fits (st_budget st) t" using pt(2) t1 by auto
  have wt: "waiting_tokens C w st S = (t, t, S)"
    by (simp add: waiting_tokens_def t pt(1) plain_waiting_query [OF assms(1)] plain_query [OF assms(1)])
  obtain st2 S2 where a: "assign_waiting w t t (st, S) = (st2, S2)" by (metis surj_pair)
  define S' where "S' = S2\<lparr>last_admitted := last_admitted S2 @ [w]\<rparr>"
  have eq: "start_admitted C K w snap st S = (Ok True, st2, S')"
    using t1 st by (simp add: start_admitted_def wt ungrouped a S'_def)
  define r' where "r' = (reqs S w)\<lparr>scheduled_tokens := t, scheduled_query_tokens := t,
    scheduled_placeholder_tokens := (if is_context_build (reqs S w) then max 0 (t - t) else 0),
    prefill_chunk_pending := num_computed_tokens (reqs S w) + t < context_len (reqs S w)\<rparr>"
  have "step_inv good holds m0 (add_mset w A) W [] st2 S'"
    by (rule schedule_one_inv [OF inv w t1 fit, of r'])
      (use a in \<open>auto simp: assign_waiting_def Let_def upd_req_def S'_def r'_def harmless_def req_ident.truncate_def\<close>)
  moreover have "running S' = running S @ [w]" "st_preempted st2 = st_preempted st" "defer_prefills S' = defer_prefills S"
    using a by (auto simp: assign_waiting_def Let_def upd_req_def S'_def)
  ultimately show ?thesis using eq by blast
qed

lemma step_inv_mgr:
  assumes "step_inv good holds m0 A W queue st S" and "good (m', reqs S)" and "holds m' = holds (mgr S)"
  shows "step_inv good holds m0 A W queue st (S\<lparr>mgr := m'\<rparr>)" "step_inv good holds m0 A W queue st (bump k n S)"
    "step_inv good holds m0 A W queue st (bump k n (S\<lparr>mgr := m'\<rparr>))"
  using assms by (auto simp: step_inv_def scheduled_ok_def budget_ok_def used_def bump_def split: option.splits)

lemma deferred_gate_ok:
  assumes inv: "step_inv good holds m0 A W [] st S" and d: "deferred_gate K w None S = (b, S')"
  shows "step_inv good holds m0 A W [] st S'" "running S' = running S" "reqs S' = reqs S" "defer_prefills S' = defer_prefills S"
proof -
  have g: "good (mgr S, reqs S)" using inv by (simp add: step_inv_def)
  obtain h ks m' where p: "ko_plan_reuse K (reqs S w) (mgr S) = ((h, ks), m')" by (metis surj_pair)
  note pg = plan_good [OF g p]
  show "step_inv good holds m0 A W [] st S'" "running S' = running S" "reqs S' = reqs S" "defer_prefills S' = defer_prefills S"
    using d inv step_inv_mgr [OF inv, of m'] pg
    by (auto simp: deferred_gate_def ask_def p Let_def bump_def split: if_splits)
qed

lemma admit_waiting_ok:
  assumes C: "plain C" and A: "one_place A" and inv: "step_inv good holds m0 A (w # W) [] st S" and p: "st_preempted st = []"
    and pos: "case st_budget st of None \<Rightarrow> True | Some b \<Rightarrow> 0 < b"
  shows "\<exists>b st' S'. admit_waiting C K w st S = (Ok b, st', S') \<and> st_preempted st' = [] \<and> defer_prefills S' = defer_prefills S \<and>
    step_inv good holds m0 A (if b then W else w # W) [] st' S' \<and> running S' = running S @ (if b then [w] else [])"
proof -
  obtain d S2 where d: "deferred_gate K w None S = (d, S2)" by (metis surj_pair)
  note inv2 = deferred_gate_ok [OF inv d]
  have wl: "waiting S2 = w # W" using inv2(1) p by (simp add: step_inv_def)
  have g2: "good (mgr S2, reqs S2)" and wait: "waiting S2 = w # W" "\<not> holds (mgr S2) w"
    and A2: "A = mset (running S2) + mset (w # W)"
    using inv2(1) p by (simp_all add: step_inv_def wl)
  obtain ok m' where c: "ko_can_allocate K (reqs S2 w) (mgr S2) = (ok, m')" by (metis surj_pair)
  note cg = can_good [OF g2 c]
  have gates: "probe_external K w S = (Ok None, S)" "padded_gate C K w None st S2 = (False, S2)"
    "capacity_gate C K w None S2 = (Ok ok, S2\<lparr>mgr := m'\<rparr>)"
    by (simp_all add: probe_external_def sync padded_gate_def ungrouped capacity_gate_def loads_external_def ask_def c)
  show ?thesis
  proof (cases "d \<or> \<not> ok")
    case True
    then show ?thesis
      using step_inv_mgr(3) [OF inv2(1), of m'] cg inv2 p
      by (auto simp: admit_waiting_def gates d bump_def split: if_splits)
  next
    case False
    define S3 where "S3 = S2\<lparr>mgr := m', waiting := W\<rparr>"
    have w: "w \<notin> set (running S2)" "w \<notin> set W" using one_place_distinct [OF A, of "[]" "running S2" "w # W"] A2 by auto
    have "good (mgr S3, reqs S3)" "\<not> holds (mgr S3) w" "fst (ko_can_allocate K (reqs S3 w) (mgr S3))"
      using cg wait(2) False by (simp_all add: S3_def)
    from admit_ok [OF this] obtain S4 where
      a: "admit K w None S3 = (Ok (), S4)" "good (mgr S4, reqs S4)" "status (reqs S4 w) = RUNNING"
        "\<forall>j. j \<noteq> w \<longrightarrow> reqs S4 j = reqs S3 j \<and> holds (mgr S4) j = holds (mgr S3) j" by blast
    note q = same_queues_admit [OF a(1)]
    have sub: "scheduled_ok st S2" "budget_ok m0 st S2" using inv2(1) by (simp_all add: step_inv_def)
    have other: "reqs S4 j = reqs S2 j" if "j \<in> set (running S2)" for j using a(4) w(1) that by (auto simp: S3_def)
    have same: "running S4 = running S2" "waiting S4 = W" "loaded_waiting S4 = loaded_waiting S2"
      "effective_threshold S4 = effective_threshold S2" "defer_prefills S4 = defer_prefills S2"
      using q by (simp_all add: S3_def same_queues_def)
    have frame: "scheduled_ok st S4" "used st S4 = used st S2"
      by (rule scheduled_frame [OF sub(1) other]; simp add: same)+
    have inv4: "step_inv good holds m0 (A - {#w#}) W [] st S4"
    proof -
      have "\<forall>j \<in> set W. \<not> holds (mgr S4) j" using inv2(1) a(4) w(2) cg by (auto simp: step_inv_def wl S3_def)
      moreover have "budget_ok m0 st S4" using sub(2) frame(2) by (simp add: budget_ok_def split: option.splits)
      ultimately show ?thesis using inv2(1) a(2) frame(1) A2 p by (simp add: step_inv_def same)
    qed
    have "w \<notin># A - {#w#}" "w \<in># A" using w A2 by auto
    with start_admitted_ok [OF C inv4 _ a(3) pos, of "admission_state (reqs S2 w)"] obtain st' S' where
      s: "start_admitted C K w (admission_state (reqs S2 w)) st S4 = (Ok True, st', S')" "step_inv good holds m0 A W [] st' S'"
        "running S' = running S4 @ [w]" "st_preempted st' = []" "defer_prefills S' = defer_prefills S4"
      using p by auto
    have "admit_waiting C K w st S = (Ok True, st', S')"
      using False s(1) a(1) wait by (simp add: admit_waiting_def gates d S3_def)
    then show ?thesis using s(2-5) inv2(2,4) same by auto
  qed
qed

lemma schedule_waiting_ok:
  assumes C: "plain C" and A: "one_place A" and "step_inv good holds m0 A W [] st S" and "st_preempted st = []"
  shows "\<exists>k st' S'. schedule_waiting C K st S = (Ok (), st', S') \<and> step_inv good holds m0 A (drop k W) [] st' S' \<and>
    st_preempted st' = [] \<and> running S' = running S @ take k W \<and> defer_prefills S' = defer_prefills S \<and>
    (\<forall>m. sc_max_num_seqs C = Some m \<longrightarrow> int (length (running S')) \<le> max m (int (length (running S))))"
  using assms(3,4)
proof (induction W arbitrary: st S)
  case Nil
  then have "waiting S = []" "loaded_waiting S = []" by (simp_all add: step_inv_def)
  then show ?case using Nil by (subst schedule_waiting.simps) auto
next
  case (Cons w W)
  have wait: "waiting S = w # W" "loaded_waiting S = []" and g: "good (mgr S, reqs S)"
    using Cons.prems by (simp_all add: step_inv_def)
  obtain f u tot where st: "ko_gpu_status K (mgr S) = (f, u, tot)" by (metis prod_cases3)
  with status_ok [OF g] have "tot \<noteq> 0" by simp
  then obtain below where o: "is_occupy_below_usage C K S = Ok below" by (simp add: is_occupy_below_usage_def st)
  define full where "full = (case sc_max_num_seqs C of None \<Rightarrow> False | Some m \<Rightarrow> m \<le> int (length (running S)))"
  define pos where "pos = (case st_budget st of None \<Rightarrow> True | Some b \<Rightarrow> 0 < b)"
  have stay: "step_inv good holds m0 A (w # W) [] st (bump ''max_num_seqs_gate'' 1 S)"
    using step_inv_mgr(2) [OF Cons.prems(1) g] by simp
  show ?case
  proof (cases "pos \<and> below \<and> \<not> full")
    case False
    then show ?thesis
      using wait stay Cons.prems o
      by (subst schedule_waiting.simps) (auto simp: waiting_round_def full_def pos_def bump_def intro!: exI [of _ 0])
  next
    case True
    from admit_waiting_ok [OF C A Cons.prems] True obtain b st1 S1 where
      r: "admit_waiting C K w st S = (Ok b, st1, S1)" "st_preempted st1 = []" "defer_prefills S1 = defer_prefills S"
        "step_inv good holds m0 A (if b then W else w # W) [] st1 S1" "running S1 = running S @ (if b then [w] else [])"
      unfolding pos_def by blast
    have round: "waiting_round C K st S = (Ok b, st1, S1)"
      using True r(1) wait o by (simp add: waiting_round_def full_def)
    have eq: "schedule_waiting C K st S = (if b then schedule_waiting C K st1 S1 else (Ok (), st1, S1))"
      using True wait by (subst schedule_waiting.simps) (simp add: round pos_def)
    show ?thesis
    proof (cases b)
      case False
      then show ?thesis using eq r by (auto intro!: exI [of _ 0])
    next
      case b: True
      from Cons.IH [of st1 S1] r b obtain k st' S' where
        IH: "schedule_waiting C K st1 S1 = (Ok (), st', S')" "step_inv good holds m0 A (drop k W) [] st' S'"
          "st_preempted st' = []" "running S' = running S1 @ take k W" "defer_prefills S' = defer_prefills S1"
          "\<forall>m. sc_max_num_seqs C = Some m \<longrightarrow> int (length (running S')) \<le> max m (int (length (running S1)))" by auto
      have "int (length (running S')) \<le> max m (int (length (running S)))" if "sc_max_num_seqs C = Some m" for m
        using IH(6) that True b r(5) by (auto simp: full_def)
      then show ?thesis using eq IH r b by (intro exI [of _ "Suc k"] exI [of _ st'] exI [of _ S']) auto
    qed
  qed
qed

end

section \<open>The whole step\<close>

lemma record_scheduled_stats: "\<exists>z. record_scheduled ids S = S\<lparr>stats := z\<rparr>"
proof (induction ids arbitrary: S)
  case Nil
  show ?case by (intro exI [of _ "stats S"]) (simp add: record_scheduled_def)
next
  case (Cons i ids)
  obtain z where z: "record_one i S = S\<lparr>stats := z\<rparr>"
    by (rule that [of "stats (record_one i S)"]) (simp add: record_one_def Let_def bump_def)
  have "record_scheduled (i # ids) S = record_scheduled ids (S\<lparr>stats := z\<rparr>)" by (simp add: record_scheduled_def z)
  with Cons.IH [of "S\<lparr>stats := z\<rparr>"] show ?case by auto
qed

lemma begin_step_sel:
  assumes "S' = begin_step C thr b S"
  shows "reqs S' = reqs S" "mgr S' = mgr S" "running S' = running S" "waiting S' = waiting S"
    "loaded_waiting S' = loaded_waiting S" "plain C \<Longrightarrow> 0 \<le> effective_threshold S'"
  unfolding assms by (auto simp: begin_step_def Let_def plain_def split: option.splits)

lemma sort_by_arrival_ok:
  assumes "\<forall>i \<in> set ids. arrival_at (rs i) \<noteq> None"
  shows "\<exists>q. sort_by_arrival rs ids = Ok q \<and> mset q = mset ids"
  using assms by (auto simp: sort_by_arrival_def list_ex_iff)

context kv_service
begin

theorem schedule_ok:
  assumes C: "plain C" and g: "good (mgr S, reqs S)" and l: "loaded_waiting S = []"
    and A: "one_place (mset (running S) + mset (waiting S))"
    and free: "\<forall>j \<in> set (waiting S). \<not> holds (mgr S) j" and arr: "\<forall>j \<in> set (running S). arrival_at (reqs S j) \<noteq> None"
  shows "\<exists>k st S'. schedule C K throttle S = (Ok (), st, S') \<and> good (mgr S', reqs S') \<and> loaded_waiting S' = [] \<and>
    mset (running S') + mset (waiting S') = mset (running S) + mset (waiting S) \<and>
    waiting S' = rev (st_preempted st) @ drop k (waiting S) \<and> (st_preempted st \<noteq> [] \<longrightarrow> k = 0) \<and>
    (\<forall>j \<in> set (waiting S'). \<not> holds (mgr S') j) \<and> scheduled_ok st S' \<and>
    budget_ok (sc_max_num_batched_tokens C) st S' \<and>
    (\<forall>m. sc_max_num_seqs C = Some m \<longrightarrow> int (length (running S')) \<le> max m (int (length (running S))))"
proof -
  define st where "st = \<lparr>st_budget = sc_max_num_batched_tokens C, st_scheduled = [], st_preempted = [],
               st_prefill_scheduled = False, st_scheduled_running = []\<rparr>"
  define S1 where "S1 = begin_step C throttle (st_budget st) (bump ''steps'' 1 (S\<lparr>last_admitted := []\<rparr>))"
  note b = begin_step_sel [OF S1_def, simplified]
  have S1: "reqs S1 = reqs S" "mgr S1 = mgr S" "running S1 = running S" "waiting S1 = waiting S" "loaded_waiting S1 = []"
    "0 \<le> effective_threshold S1" using b C l by (simp_all add: bump_def)
  from sort_by_arrival_ok [of "running S" "reqs S"] arr obtain q where
    q: "sort_by_arrival (reqs S1) (running S1) = Ok q" "mset q = mset (running S)" by (auto simp: S1)
  define A where "A = mset (running S) + mset (waiting S)"
  have "step_inv good holds (sc_max_num_batched_tokens C) A (waiting S) q st (S1\<lparr>running := []\<rparr>)"
    using g free C q(2)
    by (auto simp: step_inv_def S1 st_def A_def scheduled_ok_def budget_ok_def used_def plain_def split: option.splits)
  from running_loop_ok [OF C A [folded A_def] this] obtain st2 S2 where
    r: "schedule_running_loop C K q st (S1\<lparr>running := []\<rparr>) = (Ok (), st2, S2)"
      "step_inv good holds (sc_max_num_batched_tokens C) A (waiting S) [] st2 S2" by blast
  define st3 where "st3 = st2\<lparr>st_scheduled_running := st_scheduled st2\<rparr>"
  have inv3: "step_inv good holds (sc_max_num_batched_tokens C) A (waiting S) [] st3 S2"
    using r(2) by (auto simp: st3_def step_inv_def scheduled_ok_def budget_ok_def used_def split: option.splits)
  have len2: "length (running S2) \<le> length (running S)"
  proof -
    have "size (mset (running S2) + mset (waiting S2)) = size A" and "rev (st_preempted st2) @ waiting S = waiting S2"
      using r(2) by (simp_all add: step_inv_def)
    from this(1) this(2) [symmetric] show ?thesis by (simp add: A_def)
  qed
  obtain k st4 S4 where
    w: "(if st_preempted st3 = [] then schedule_waiting C K st3 S2 else (Ok (), st3, S2)) = (Ok (), st4, S4)"
      "step_inv good holds (sc_max_num_batched_tokens C) A (drop k (waiting S)) [] st4 S4" "st_preempted st4 \<noteq> [] \<longrightarrow> k = 0"
      "\<forall>m. sc_max_num_seqs C = Some m \<longrightarrow> int (length (running S4)) \<le> max m (int (length (running S)))"
  proof (cases "st_preempted st3 = []")
    case True
    from schedule_waiting_ok [OF C A [folded A_def] inv3 True] len2 True that show ?thesis
      by (smt (verit, best) int_ops(1) max.coboundedI2 max.mono of_nat_mono)
  next
    case False
    moreover have "\<forall>m. sc_max_num_seqs C = Some m \<longrightarrow> int (length (running S2)) \<le> max m (int (length (running S)))"
      using len2 by (simp add: le_max_iff_disj)
    ultimately show ?thesis using that [of st3 S2 0] inv3 by simp
  qed
  define S5 where "S5 = (if st_preempted st4 = [] \<and> \<not> defer_prefills S4
                            then S4\<lparr>prefill_capacity_bound := (waiting S4 \<noteq> [] \<or> loaded_waiting S4 \<noteq> [])\<rparr> else S4)"
  define S6 where "S6 = (if prefill_capacity_bound S5 then bump ''capacity_bound_steps'' 1 S5 else S5)"
  obtain z where z: "record_scheduled (st_scheduled st4) S6 = S6\<lparr>stats := z\<rparr>" using record_scheduled_stats by blast
  have eq: "schedule C K throttle S = (Ok (), st4, S6\<lparr>stats := z\<rparr>)"
    unfolding schedule_def Let_def st_def [symmetric] S1_def [symmetric]
    by (simp only: schedule_running_def q(1) r(1) st3_def [symmetric] w(1) S5_def [symmetric] S6_def [symmetric] z
        prod.case result.case)
  have S6: "reqs S6 = reqs S4" "mgr S6 = mgr S4" "running S6 = running S4" "waiting S6 = waiting S4" "loaded_waiting S6 = loaded_waiting S4"
    by (simp_all add: S6_def S5_def bump_def)
  show ?thesis
    using eq w(2-4) by (intro exI [of _ k] exI [of _ st4] exI [of _ "S6\<lparr>stats := z\<rparr>"])
      (auto simp: step_inv_def S6 A_def scheduled_ok_def budget_ok_def used_def split: option.splits)
qed

end

end
