(* ===== verification/Sched_Uniform.thy ===== *)
theory Sched_Uniform
  imports Sched_Step
begin

text \<open>
  The paged scheduler on the uniform block manager with the no-op connector: the manager keeps what the
  scheduler relies on, so a whole scheduling step can be stated without assumptions on its parts.
\<close>

section \<open>The manager keeps its promises\<close>

lemma plan_reuse_harmless: "harmless r r' \<Longrightarrow> plan_reuse H r' w = plan_reuse H r w"
  by (simp add: harmless_def req_ident.truncate_def plan_reuse_def kv_build_input_keys_def num_logical_token_blocks_def
      cong: if_cong option.case_cong)

lemma can_allocate_again:
  assumes plan: "plan_reuse H r w = (pl, w1)" and inv: "bm_inv H w" and len: "0 \<le> prefill_len r"
  shows "fst (bm_can_allocate H r w1) = fst (bm_can_allocate H r w)"
proof -
  note pf = plan_reuse_facts [OF plan inv [unfolded bm_inv_def] len]
  obtain w2 where plan1: "plan_reuse H r w1 = (pl, w2)"
    using plan_reuse_again [OF plan inv [unfolded bm_inv_def] len] by (metis prod.collapse)
  have "bm_ok H (bm_refs w) w1" using pf(1) .
  note pf1 = plan_reuse_facts [OF plan1 this len]
  have "zero_ref_hit_blocks w2 pl = zero_ref_hit_blocks w1 pl" by (simp add: zero_ref_hit_blocks_def pf1)
  then show ?thesis by (simp add: bm_can_allocate_def plan plan1 Let_def al_get_num_free_blocks_def pf pf1)
qed

definition uniform_good :: "(string \<Rightarrow> string) \<Rightarrow> int set \<Rightarrow> bman \<times> (int \<Rightarrow> req) \<Rightarrow> bool" where
  "uniform_good H A s \<longleftrightarrow> bm_inv H (fst s) \<and> al_num_blocks (w_al (fst s) GPU) \<noteq> 0 \<and>
     (\<forall>i \<in> A. arrival_at (snd s i) \<noteq> None) \<and> (\<forall>i. rq_id (snd s i) = i \<and> req_synced (fst s) (snd s i) \<and> 0 \<le> prefill_len (snd s i) \<and>
        prefill_len (snd s i) div kv_block_size (w_kv (fst s)) \<le> num_logical_token_blocks (snd s i))"

definition uniform_holds :: "bman \<Rightarrow> int \<Rightarrow> bool" where
  "uniform_holds m i \<longleftrightarrow> get_blocks (bm_table m) i \<noteq> []"

lemma uniform_goodD:
  assumes "uniform_good H A (m, rs)"
  shows "bm_inv H m" "al_num_blocks (w_al m GPU) \<noteq> 0" "rq_id (rs i) = i" "req_synced m (rs i)" "0 \<le> prefill_len (rs i)"
    "prefill_len (rs i) div kv_block_size (w_kv m) \<le> num_logical_token_blocks (rs i)"
  using assms by (simp_all add: uniform_good_def)

lemma uniform_good_op:
  assumes "uniform_good H A (m, rs)" "op_ok H m (rs i) m' r'"
  shows "uniform_good H A (m', rs(i := r'))" "\<And>j. j \<noteq> i \<Longrightarrow> uniform_holds m' j = uniform_holds m j" "same_progress (rs i) r'"
proof -
  note g = uniform_goodD [OF assms(1)]
  have p: "same_progress (rs i) r'" using assms(2) by (simp add: op_ok_def)
  then show "same_progress (rs i) r'" .
  have "num_logical_token_blocks r' = num_logical_token_blocks (rs i)"
    using p by (simp add: same_progress_def req_ident.truncate_def num_logical_token_blocks_def)
  moreover have "arrival_at r' = arrival_at (rs i)" by (rule progress_sel(4) [OF p])
  ultimately show "uniform_good H A (m', rs(i := r'))"
    using assms g by (auto simp: uniform_good_def op_ok_def shape_def req_synced_def)
  show "uniform_holds m' j = uniform_holds m j" if "j \<noteq> i" for j
    using assms(2) that g(3) by (auto simp: uniform_holds_def op_ok_def)
qed

lemma uniform_good_plan:
  assumes "uniform_good H A (m, rs)" "plan_reuse H (rs i) m = (pl, m')"
  shows "uniform_good H A (m', rs)" "uniform_holds m' = uniform_holds m"
    "fst (bm_can_allocate H (rs i) m') = fst (bm_can_allocate H (rs i) m)"
proof -
  note g = uniform_goodD [OF assms(1)]
  note pf = plan_reuse_facts [OF assms(2) g(1) [unfolded bm_inv_def] g(5)]
  have "bm_refs m' = bm_refs m" by (simp add: bm_refs_def pf)
  then have "bm_inv H m'" using pf(1) by (simp add: bm_inv_def)
  then show "uniform_good H A (m', rs)"
    using assms(1) \<open>bm_inv H m'\<close> pf(2,12) by (simp add: uniform_good_def shape_def req_synced_def)
  show "uniform_holds m' = uniform_holds m" by (simp add: uniform_holds_def fun_eq_iff pf)
  show "fst (bm_can_allocate H (rs i) m') = fst (bm_can_allocate H (rs i) m)"
    by (rule can_allocate_again [OF assms(2) g(1,5)])
qed

lemma uniform_allocate:
  assumes "uniform_good H A (m, rs)" "\<not> uniform_holds m i" "fst (bm_can_allocate H (rs i) m)"
  shows "\<exists>m' r'. bm_allocate H (m, rs i) = (Ok (), m', r') \<and> op_ok H m (rs i) m' r'"
proof -
  note g = uniform_goodD [OF assms(1)]
  obtain pl m1 where plan: "plan_reuse H (rs i) m = (pl, m1)" by (metis surj_pair)
  have "get_blocks (bm_table m) (rq_id (rs i)) = []" using assms(2) g(3) by (simp add: uniform_holds_def)
  from can_allocate_grant [OF g(1,5) this g(6) plan assms(3)] show ?thesis
    by (auto simp: op_ok_def admitted_def dest: same_progress_ident)
qed

lemma uniform_append:
  assumes "uniform_good H A (m, rs)" "bm_can_append_slot m (rs i) 0"
  shows "\<exists>m' r'. append_slot (m, rs i) = (Ok (), m', r') \<and> op_ok H m (rs i) m' r'"
  using append_slot_ok [OF uniform_goodD(1,4) [OF assms(1)], of i] assms(2)
  by (auto simp: bm_can_append_slot_def split: if_splits)

lemma uniform_good_harmless:
  assumes "uniform_good H A (m, rs)" "harmless (rs i) r'"
  shows "uniform_good H A (m, rs(i := r'))"
  using assms
  by (auto simp: uniform_good_def harmless_def req_ident.truncate_def req_synced_def num_logical_token_blocks_def)

interpretation uq: kv_service "uniform_ops H sz" "uniform_good H A" uniform_holds
proof (unfold_locales, goal_cases)
  case (3 m rs i r')
  then show ?case by (rule uniform_good_harmless)
next
  case (4 m rs i r')
  then show ?case by (simp add: uniform_ops_def bm_can_allocate_def plan_reuse_harmless)
next
  case (5 m rs i x m')
  then obtain pl where "plan_reuse H (rs i) m = (pl, m')" by (auto simp: uniform_ops_def Let_def split: prod.splits)
  from uniform_good_plan [OF 5(1) this] show ?case by (simp add: uniform_ops_def)
next
  case (6 m rs i b m')
  then obtain pl where "plan_reuse H (rs i) m = (pl, m')"
    by (auto simp: uniform_ops_def bm_can_allocate_def Let_def split: prod.splits)
  from uniform_good_plan [OF 6(1) this] 6(2) show ?case by (simp add: uniform_ops_def)
next
  case (9 m rs i)
  then obtain m' r' where a: "bm_allocate H (m, rs i) = (Ok (), m', r')" "op_ok H m (rs i) m' r'"
    using uniform_allocate [of H A m rs i] by (auto simp: uniform_ops_def)
  from uniform_good_op [OF 9(1) a(2)] a(1) show ?case by (auto simp: uniform_ops_def)
next
  case (10 m rs i)
  then obtain m' r' where a: "append_slot (m, rs i) = (Ok (), m', r')" "op_ok H m (rs i) m' r'"
    using uniform_append [of H A m rs i] by (auto simp: uniform_ops_def)
  from uniform_good_op [OF 10(1) a(2)] a(1) show ?case by (auto simp: uniform_ops_def)
next
  case (11 m rs i)
  from release_request_ok [OF uniform_goodD(1,4) [OF 11], of i] obtain m' r' where
    a: "release_request_blocks (m, rs i) = (Ok (), m', r')" "op_ok H m (rs i) m' r'" "get_blocks (bm_table m') (rq_id (rs i)) = []"
    by blast
  have "\<not> uniform_holds m' i" using a(3) uniform_goodD(3) [OF 11, of i] by (simp add: uniform_holds_def)
  with uniform_good_op [OF 11 a(2)] a(1) show ?case by (auto simp: uniform_ops_def)
next
  case (12 m rs)
  then show ?case by (simp add: uniform_ops_def al_get_status_def uniform_goodD(2))
qed (auto simp: uniform_ops_def)

section \<open>A step of the scheduler\<close>

text \<open>
  The state between two steps: every request is in one queue, the requests in the queues have arrived, the
  waiting ones hold no blocks, and the manager and the block lists of the requests are consistent.
\<close>

definition sched_ready :: "(string \<Rightarrow> string) \<Rightarrow> bman sched \<Rightarrow> bool" where
  "sched_ready H S \<longleftrightarrow> uniform_good H (set (running S @ waiting S)) (mgr S, reqs S) \<and> loaded_waiting S = [] \<and>
     distinct (running S @ waiting S) \<and> (\<forall>j \<in> set (waiting S). \<not> uniform_holds (mgr S) j)"

lemma distinct_one_place: "distinct (xs @ ys) \<Longrightarrow> one_place (mset xs + mset ys)"
  by (simp add: one_place_def distinct_count_atmost_1 flip: mset_append)

lemma uniform_schedule:
  assumes "plain C" "sched_ready H S"
  shows "\<exists>k st S'. schedule C (uniform_ops H sz) throttle S = (Ok (), st, S') \<and> sched_ready H S' \<and>
    mset (running S' @ waiting S') = mset (running S @ waiting S) \<and>
    waiting S' = rev (st_preempted st) @ drop k (waiting S) \<and> (st_preempted st \<noteq> [] \<longrightarrow> k = 0) \<and> scheduled_ok st S' \<and>
    budget_ok (sc_max_num_batched_tokens C) st S' \<and>
    (\<forall>m. sc_max_num_seqs C = Some m \<longrightarrow> int (length (running S')) \<le> max m (int (length (running S))))"
proof -
  define A where "A = set (running S @ waiting S)"
  have r: "uniform_good H A (mgr S, reqs S)" "loaded_waiting S = []" "distinct (running S @ waiting S)"
    "\<forall>j \<in> set (waiting S). \<not> uniform_holds (mgr S) j"
    using assms(2) by (simp_all add: sched_ready_def A_def)
  have arr: "\<forall>j \<in> set (running S). arrival_at (reqs S j) \<noteq> None" using r(1) by (simp add: uniform_good_def A_def)
  from uq.schedule_ok [OF assms(1) r(1,2) distinct_one_place [OF r(3)] r(4) arr, of sz throttle] obtain k st S' where
    s: "schedule C (uniform_ops H sz) throttle S = (Ok (), st, S')" "uniform_good H A (mgr S', reqs S')" "loaded_waiting S' = []"
      "mset (running S') + mset (waiting S') = mset (running S) + mset (waiting S)"
      "waiting S' = rev (st_preempted st) @ drop k (waiting S)" "st_preempted st \<noteq> [] \<longrightarrow> k = 0"
      "\<forall>j \<in> set (waiting S'). \<not> uniform_holds (mgr S') j" "scheduled_ok st S'"
      "budget_ok (sc_max_num_batched_tokens C) st S'"
      "\<forall>m. sc_max_num_seqs C = Some m \<longrightarrow> int (length (running S')) \<le> max m (int (length (running S)))" by blast
  have m: "mset (running S' @ waiting S') = mset (running S @ waiting S)" using s(4) by simp
  then have "A = set (running S' @ waiting S')" unfolding A_def by (metis mset_eq_setD)
  moreover have "distinct (running S' @ waiting S')" using m r(3) mset_eq_imp_distinct_iff by blast
  ultimately have "sched_ready H S'" using s by (simp add: sched_ready_def)
  with s m show ?thesis by blast
qed

text \<open>A small system for the examples: a budget of ten tokens per step and two requests of nine prompt tokens.\<close>

definition sample_config :: sched_config where
  "sample_config = \<lparr>sc_max_num_seqs = Some 4, sc_max_num_batched_tokens = Some 10, sc_long_prefill_token_threshold = 0,
     sc_adaptive_long_prefill_threshold = False, sc_mtp_acceptance_length = 1, sc_mtp_seed = 0, sc_speculative_tokens = 0,
     sc_mtp_acceptance = \<lparr>mtp_kind = ''mean'', mtp_rates = [], mtp_distribution = []\<rparr>, sc_max_model_len = None,
     sc_mtp_enabled = False, sc_max_occupy_ratio = 1, sc_digest = (\<lambda>_. 0)\<rparr>"

definition sample_sched :: "bman sched" where
  "sample_sched = (new_sched sample_manager (\<lambda>i. (sample_reqs i)\<lparr>arrival_at := Some 0\<rparr>))\<lparr>waiting := [3, 4]\<rparr>"

lemma sample_config_made:
  "make_sched_config (\<lambda>_. 0) None (Some 4) None 1 (Some 10) 0 False 1 None 0
     \<lparr>mtp_kind = ''mean'', mtp_rates = [], mtp_distribution = []\<rparr> = Ok sample_config"
  by (simp add: make_sched_config_def mtp_post_init_def mtp_validate_def number_check_def validate_mtp_token_budget_def
      sample_config_def)

lemma sample_sched_ready: "sched_ready H sample_sched"
proof -
  have "bm_inv H sample_manager" unfolding sample_manager_def by (rule new_block_manager_ok) simp_all
  then show ?thesis
    by (simp add: sched_ready_def uniform_good_def sample_sched_def new_sched_def uniform_holds_def sample_reqs_def
        sample_req_def default_request_def post_init_def append_tokens_def Let_def sample_manager_def new_block_manager_def
        req_synced_def num_logical_token_blocks_def new_allocator_def new_kvm_def)
qed

section \<open>Properties\<close>

text \<open>
  C2. A scheduling step of a scheduler without speculation ends without an error, whatever the demand for
  blocks, and loses no request: every request is in exactly one of the two queues afterwards, the waiting
  ones hold no blocks, and the block manager is consistent again, so that the next step can start.
\<close>

theorem schedule_conserves_requests:
  assumes "make_sched_config digest None a b c d e f g h k l = Ok C" and "sched_ready H S"
  shows "\<exists>st S'. schedule C (uniform_ops H sz) throttle S = (Ok (), st, S') \<and> sched_ready H S' \<and>
    mset (running S' @ waiting S') = mset (running S @ waiting S)"
  using uniform_schedule [OF make_plain [OF assms(1)] assms(2)] by metis

theorem schedule_conserves_requests_witness:
  "\<exists>st S'. schedule sample_config (uniform_ops (\<lambda>s. s) 4) False sample_sched = (Ok (), st, S') \<and>
     mset (running S' @ waiting S') = {#3, 4#}"
  using schedule_conserves_requests [OF sample_config_made sample_sched_ready, of "\<lambda>s. s" 4 False]
  by (auto simp: sample_sched_def new_sched_def)

text \<open>
  C5. The limits of the configuration hold in every step: the tokens of the scheduled requests add up to at
  most the token budget, every scheduled request runs and gets at least one token, no request is scheduled
  twice, and admission never takes the running queue above the sequence limit.
\<close>

theorem schedule_within_limits:
  assumes "make_sched_config digest None a b c d e f g h k l = Ok C" and "sched_ready H S"
    and "schedule C (uniform_ops H sz) throttle S = (res, st, S')"
  shows "(\<forall>m. sc_max_num_batched_tokens C = Some m \<longrightarrow>
      (\<Sum>j \<leftarrow> st_scheduled st. scheduled_query_tokens (reqs S' j)) \<le> m) \<and>
    set (st_scheduled st) \<subseteq> set (running S') \<and> distinct (st_scheduled st) \<and>
    (\<forall>j \<in> set (st_scheduled st). 1 \<le> scheduled_tokens (reqs S' j)) \<and>
    (\<forall>m. sc_max_num_seqs C = Some m \<longrightarrow> int (length (running S')) \<le> max m (int (length (running S))))"
  using uniform_schedule [OF make_plain [OF assms(1)] assms(2), of sz throttle] assms(3)
  by (auto simp: scheduled_ok_def budget_ok_def used_def split: option.splits)

theorem schedule_within_limits_witness:
  "\<exists>res st S'. schedule sample_config (uniform_ops (\<lambda>s. s) 4) False sample_sched = (res, st, S') \<and>
     (\<Sum>j \<leftarrow> st_scheduled st. scheduled_query_tokens (reqs S' j)) \<le> 10 \<and> int (length (running S')) \<le> 4"
proof -
  obtain res st S' where s: "schedule sample_config (uniform_ops (\<lambda>s. s) 4) False sample_sched = (res, st, S')"
    by (metis surj_pair)
  from schedule_within_limits [OF sample_config_made sample_sched_ready s] s show ?thesis
    by (simp add: sample_config_def sample_sched_def new_sched_def)
qed

text \<open>
  C16. Requests are served in order: a step takes requests from the front of the waiting queue only and keeps
  the order of the others; the requests it preempts go to the front, the last one first; and a step that
  preempts admits nobody.
\<close>

theorem schedule_in_order:
  assumes "make_sched_config digest None a b c d e f g h k l = Ok C" and "sched_ready H S"
    and "schedule C (uniform_ops H sz) throttle S = (res, st, S')"
  shows "\<exists>n. waiting S' = rev (st_preempted st) @ drop n (waiting S) \<and> (st_preempted st \<noteq> [] \<longrightarrow> n = 0)"
  using uniform_schedule [OF make_plain [OF assms(1)] assms(2), of sz throttle] assms(3) by (metis prod.inject)

theorem schedule_in_order_witness:
  "\<exists>res st S' n. schedule sample_config (uniform_ops (\<lambda>s. s) 4) False sample_sched = (res, st, S') \<and>
     waiting S' = rev (st_preempted st) @ drop n [3, 4]"
proof -
  obtain res st S' where s: "schedule sample_config (uniform_ops (\<lambda>s. s) 4) False sample_sched = (res, st, S')"
    by (metis surj_pair)
  from schedule_in_order [OF sample_config_made sample_sched_ready s] s show ?thesis
    by (auto simp: sample_sched_def new_sched_def)
qed

section \<open>The budget with speculative decoding\<close>

text \<open>
  The bounds above are for configurations without speculation. With it, a waiting request that builds no context is given no tokens
  when the budget is below the verification width, but the whole width as queries, and \<^verbatim>\<open>_admit_waiting\<close> only stops
  when there are no queries: the budget of the step then goes below zero.
\<close>

lemma mtp_admission_overruns:
  assumes "sc_mtp_enabled C" "sc_max_model_len C = None" "\<not> is_context_build (reqs S i)"
    and "st_budget st = Some b" "b < 1 + sc_speculative_tokens C"
  shows "\<exists>S'. waiting_tokens C i st S = (0, 1 + sc_speculative_tokens C, S') \<and>
    (\<exists>b'. st_budget (fst (assign_waiting i 0 (1 + sc_speculative_tokens C) (st, S'))) = Some b' \<and> b' < 0)"
proof -
  obtain out r1 where o: "decode_output_tokens C (reqs S i) (max 1 (decode_len (reqs S i) - generation_idx (reqs S i))) = (out, r1)"
    by (metis surj_pair)
  have "is_context_build r1 = is_context_build (reqs S i)"
    using o assms(1) by (auto simp: decode_output_tokens_def Let_def is_context_build_def is_prefill_def)
  then have "waiting_tokens C i st S = (0, 1 + sc_speculative_tokens C, upd_req i (\<lambda>_. r1) S)"
    using assms o by (simp add: waiting_tokens_def sched_step_tokens_def waiting_query_tokens_def sched_query_tokens_def fits_def
        query_room_def min_room_def Let_def)
  then show ?thesis using assms(4,5) by (simp add: assign_waiting_def Let_def)
qed

end
