(* ===== verification/Sched_Rollback.thy ===== *)
theory Sched_Rollback
  imports Sched_Uniform
begin

text \<open>
  Refused admissions. \<^verbatim>\<open>_admit_waiting\<close> of \<^verbatim>\<open>paged_scheduling.py\<close> takes a request off the waiting queue,
  admits it, and puts it back when the grouped manager has no slots for its first tokens. What
  \<^verbatim>\<open>_admit\<close> and the code it calls write into the request is compared here with the list of fields that
  the snapshot of the admission holds.
\<close>

section \<open>Writes of an admission\<close>

lemma restore_record_prefill_admission [simp]:
  "restore_admission_state s (snd (record_prefill_admission g c r)) = restore_admission_state s r"
  by (simp add: record_prefill_admission_def Let_def restore_admission_state_def split: option.splits)

lemma restore_record_context_admission [simp]:
  "restore_admission_state s (snd (record_context_admission g c r)) = restore_admission_state s r"
  by (simp add: record_context_admission_def Let_def) (simp add: restore_admission_state_def)

lemma restore_start_context_build [simp]:
  "restore_admission_state s (start_context_build c r) = restore_admission_state s r"
  by (simp add: start_context_build_def restore_admission_state_def)

text \<open>Two requests that differ in fields of the admission snapshot only.\<close>

definition booked :: "req \<Rightarrow> req \<Rightarrow> bool" where
  "booked r r' \<longleftrightarrow> (\<forall>s. restore_admission_state s r' = restore_admission_state s r)"

lemma booked_refl [simp]: "booked r r"
  by (simp add: booked_def)






text \<open>Steps of the scheduler that book one request, and may enter it among the unfinished prefills.\<close>

definition books :: "int \<Rightarrow> 's sched \<Rightarrow> 's sched \<Rightarrow> bool" where
  "books i S S' \<longleftrightarrow> booked (reqs S i) (reqs S' i) \<and> (\<forall>j. j \<noteq> i \<longrightarrow> reqs S' j = reqs S j) \<and>
     remove1 i (inflight_prefills S') = remove1 i (inflight_prefills S)"

lemma books_refl [simp]: "books i S S"
  by (simp add: books_def)









section \<open>An admission only books\<close>




section \<open>A refused admission\<close>





lemma admission_state_draw [simp]: "admission_state (r\<lparr>scheduled_accepted_tokens := a\<rparr>) = admission_state r"
  by (simp add: admission_state_def)





section \<open>An example\<close>









section \<open>Properties\<close>



end
