(* ===== verification/Decimal.thy ===== *)
theory Decimal
  imports Prefix_Keys
begin

text \<open>
  The decimal text of integers inside larger texts: it can be read back, so equal texts name equal numbers.
\<close>

definition dec_value :: "string \<Rightarrow> nat" where
  "dec_value s = foldl (\<lambda>v c. 10 * v + (of_char c - 48)) 0 s"

lemma of_char_digit: "d < 10 \<Longrightarrow> of_char (char_of (48 + d) :: char) = (48 + d :: nat)"
  by (simp add: of_char_of)

lemma dec_value_digits: "dec_value (dec_digits n) = n"
proof (induction n rule: dec_digits.induct)
  case (1 n)
  show ?case
  proof (cases "n < 10")
    case True
    then show ?thesis by (subst dec_digits.simps) (simp add: dec_value_def of_char_digit)
  next
    case False
    have "of_char (char_of (48 + n mod 10) :: char) - 48 = n mod 10" by (subst of_char_digit) simp_all
    with 1 False show ?thesis by (subst dec_digits.simps) (simp add: dec_value_def)
  qed
qed

lemma dec_digits_inject [simp]: "dec_digits m = dec_digits n \<longleftrightarrow> m = n"
  by (metis dec_value_digits)

lemma dec_digits_range: "c \<in> set (dec_digits n) \<Longrightarrow> 48 \<le> (of_char c :: nat) \<and> (of_char c :: nat) \<le> 57"
proof (induction n rule: dec_digits.induct)
  case (1 n)
  show ?case
  proof (cases "n < 10")
    case True
    with 1(2) show ?thesis by (subst (asm) dec_digits.simps) (auto simp: of_char_digit)
  next
    case False
    have "of_char (char_of (48 + n mod 10) :: char) = 48 + n mod 10" by (rule of_char_digit) simp
    with 1 False show ?thesis by (subst (asm) (2) dec_digits.simps) auto
  qed
qed

text \<open>The characters of a decimal text: digits and the sign.\<close>

definition dec_char :: "char \<Rightarrow> bool" where
  "dec_char c \<longleftrightarrow> c = CHR ''-'' \<or> 48 \<le> (of_char c :: nat) \<and> (of_char c :: nat) \<le> 57"

lemma str_of_int_chars: "c \<in> set (str_of (HInt i)) \<Longrightarrow> dec_char c"
  by (auto simp: dec_char_def dest: dec_digits_range split: if_splits)

lemma str_of_int_inject [simp]: "str_of (HInt i) = str_of (HInt j) \<longleftrightarrow> i = j"
proof -
  have minus: "CHR ''-'' \<notin> set (dec_digits n)" for n using dec_digits_range [of "CHR ''-''" n] by auto
  have "dec_digits n \<noteq> CHR ''-'' # s" for n s using minus [of n] by auto
  then show ?thesis by (auto dest: sym)
qed

text \<open>A text ends where the first character outside its alphabet stands.\<close>

lemma split_at_separator:
  assumes "xs @ c # r = ys @ d # s" "\<forall>x \<in> set xs. P x" "\<forall>y \<in> set ys. P y" "\<not> P c" "\<not> P d"
  shows "xs = ys \<and> c = d \<and> r = s"
  using assms
proof (induction xs arbitrary: ys)
  case Nil
  then show ?case by (cases ys) auto
next
  case (Cons x xs)
  then show ?case by (cases ys) auto
qed

end
