(* ===== verification/Parallel_Config.thy ===== *)
theory Parallel_Config
  imports Complex_Main Decimal
begin

text \<open>
  The parallel layout of a deployment (\<^verbatim>\<open>src/TokenSim/config/parallel_config.py\<close>): the configuration with
  its checks, the rank counts derived from it, the coordinates of a rank, and its place in an expert-parallel
  group. Fields have the type their annotation names.
\<close>

section \<open>The configuration\<close>

record parallel_config =
  tensor_parallel_size :: int
  pipeline_parallel_size :: int
  data_parallel_size :: int
  data_parallel_rank :: int
  data_parallel_size_local :: int
  tensor_parallel_collective_latency_scale :: real
  pipeline_parallel_activation_latency_scale :: real
  enable_expert_parallel :: bool
  expert_parallel_scope :: string
  expert_parallel_size :: "int option"
  expert_placement_strategy :: string
  all2all_backend :: string

definition default_parallel :: parallel_config where
  "default_parallel =
     \<lparr>tensor_parallel_size = 1, pipeline_parallel_size = 1, data_parallel_size = 1, data_parallel_rank = 0,
      data_parallel_size_local = 1, tensor_parallel_collective_latency_scale = 1,
      pipeline_parallel_activation_latency_scale = 1, enable_expert_parallel = False,
      expert_parallel_scope = ''global'', expert_parallel_size = None, expert_placement_strategy = ''linear'',
      all2all_backend = ''allgather_reducescatter''\<rparr>"

definition sequence_parallel_moe :: "parallel_config \<Rightarrow> bool \<Rightarrow> bool" where
  "sequence_parallel_moe c fused_moe \<longleftrightarrow>
     enable_expert_parallel c \<and> 1 < tensor_parallel_size c \<and> (fused_moe \<or> 1 < data_parallel_size c)"

definition ranks_per_dp_group :: "parallel_config \<Rightarrow> int" where
  "ranks_per_dp_group c = tensor_parallel_size c * pipeline_parallel_size c"

definition world_size :: "parallel_config \<Rightarrow> int" where
  "world_size c = ranks_per_dp_group c * data_parallel_size c"

definition expert_parallel_scope_ranks :: "parallel_config \<Rightarrow> int" where
  "expert_parallel_scope_ranks c =
     (if expert_parallel_scope c = ''per_dp'' then tensor_parallel_size c
      else tensor_parallel_size c * data_parallel_size c)"

definition expert_parallel_group_size :: "parallel_config \<Rightarrow> int" where
  "expert_parallel_group_size c =
     (if \<not> enable_expert_parallel c then 1
      else case expert_parallel_size c of Some n \<Rightarrow> n | None \<Rightarrow> expert_parallel_scope_ranks c)"

definition expert_parallel_group_count :: "parallel_config \<Rightarrow> int" where
  "expert_parallel_group_count c =
     (tensor_parallel_size c * data_parallel_size c) div expert_parallel_group_size c"

definition expert_parallel_replicas_per_group :: "parallel_config \<Rightarrow> int" where
  "expert_parallel_replicas_per_group c = expert_parallel_group_size c div tensor_parallel_size c"

definition expert_parallel_group :: "parallel_config \<Rightarrow> int \<Rightarrow> int \<Rightarrow> int" where
  "expert_parallel_group c dp_rank tp_rank =
     (dp_rank * tensor_parallel_size c + tp_rank) div expert_parallel_group_size c"

definition expert_parallel_rank :: "parallel_config \<Rightarrow> int \<Rightarrow> int \<Rightarrow> int" where
  "expert_parallel_rank c dp_rank tp_rank =
     (dp_rank * tensor_parallel_size c + tp_rank) mod expert_parallel_group_size c"

definition validate_expert_parallel_size :: "parallel_config \<Rightarrow> unit result" where
  "validate_expert_parallel_size c =
     (case expert_parallel_size c of
        None \<Rightarrow> Ok ()
      | Some n \<Rightarrow>
          if n < 1 then Raise ConfigurationError
          else if \<not> enable_expert_parallel c then Raise ConfigurationError
          else if expert_parallel_scope c = ''per_dp'' \<and> n \<noteq> tensor_parallel_size c then Raise ConfigurationError
          else if n mod tensor_parallel_size c \<noteq> 0 \<or> expert_parallel_scope_ranks c mod n \<noteq> 0
          then Raise ConfigurationError
          else Ok ())"

text \<open>The constructor's checks; the result is the checked configuration.\<close>

definition make_parallel_config :: "parallel_config \<Rightarrow> parallel_config result" where
  "make_parallel_config c =
     (if \<exists>n \<in> set [tensor_parallel_size c, pipeline_parallel_size c, data_parallel_size c, data_parallel_size_local c].
           n < 1 then Raise ConfigurationError
      else if data_parallel_rank c < 0 then Raise ConfigurationError
      else if data_parallel_size c \<le> data_parallel_rank c then Raise ConfigurationError
      else if data_parallel_size c < data_parallel_size_local c then Raise ConfigurationError
      else if expert_parallel_scope c \<notin> {''global'', ''per_dp''} then Raise ConfigurationError
      else if expert_placement_strategy c \<notin> {''linear'', ''round_robin''} then Raise ConfigurationError
      else if all2all_backend c \<notin> {''allgather_reducescatter'', ''naive'', ''deepep_high_throughput'',
           ''deepep_low_latency''} then Raise ConfigurationError
      else case validate_expert_parallel_size c of Raise e \<Rightarrow> Raise e | Ok _ \<Rightarrow> Ok c)"

text \<open>A copy with every given argument replaced; \<^verbatim>\<open>replace\<close> runs the constructor's checks again.\<close>

definition override_parallel ::
  "int option \<Rightarrow> int option \<Rightarrow> int option \<Rightarrow> int option \<Rightarrow> int option \<Rightarrow> bool option \<Rightarrow> string option \<Rightarrow> int option
   \<Rightarrow> string option \<Rightarrow> string option \<Rightarrow> parallel_config \<Rightarrow> parallel_config result" where
  "override_parallel tp pp dp dp_rank dp_local ep scope ep_size strategy backend c =
     make_parallel_config
       (c\<lparr>tensor_parallel_size := case_option (tensor_parallel_size c) (\<lambda>v. v) tp,
          pipeline_parallel_size := case_option (pipeline_parallel_size c) (\<lambda>v. v) pp,
          data_parallel_size := case_option (data_parallel_size c) (\<lambda>v. v) dp,
          data_parallel_rank := case_option (data_parallel_rank c) (\<lambda>v. v) dp_rank,
          data_parallel_size_local := case_option (data_parallel_size_local c) (\<lambda>v. v) dp_local,
          enable_expert_parallel := case_option (enable_expert_parallel c) (\<lambda>v. v) ep,
          expert_parallel_scope := case_option (expert_parallel_scope c) (\<lambda>v. v) scope,
          expert_parallel_size := case_option (expert_parallel_size c) Some ep_size,
          expert_placement_strategy := case_option (expert_placement_strategy c) (\<lambda>v. v) strategy,
          all2all_backend := case_option (all2all_backend c) (\<lambda>v. v) backend\<rparr>)"

section \<open>The coordinates of a rank\<close>

record rank_info =
  global_rank :: int
  rank_in_dp_group :: int
  tp_rank :: int
  pp_rank :: int
  dp_rank :: int
  kv_cache_group_id :: string

definition kv_group_name :: "int \<Rightarrow> int \<Rightarrow> string" where
  "kv_group_name dp pp = ''dp'' @ str_of (HInt dp) @ ''-pp'' @ str_of (HInt pp)"

definition from_global_rank :: "int \<Rightarrow> parallel_config \<Rightarrow> rank_info result" where
  "from_global_rank g c =
     (if g < 0 then Raise ConfigurationError
      else if world_size c \<le> g then
        Ok \<lparr>global_rank = g, rank_in_dp_group = g, tp_rank = 0, pp_rank = 0, dp_rank = 0,
            kv_cache_group_id = ''dp0-pp0''\<rparr>
      else
        (let in_group = g mod ranks_per_dp_group c;
             dp = g div ranks_per_dp_group c;
             pp = in_group div tensor_parallel_size c;
             tp = in_group mod tensor_parallel_size c
         in Ok \<lparr>global_rank = g, rank_in_dp_group = in_group, tp_rank = tp, pp_rank = pp, dp_rank = dp,
                kv_cache_group_id = kv_group_name dp pp\<rparr>))"

section \<open>Well-formed configurations\<close>

definition parallel_ok :: "parallel_config \<Rightarrow> bool" where
  "parallel_ok c \<longleftrightarrow> 1 \<le> tensor_parallel_size c \<and> 1 \<le> pipeline_parallel_size c \<and>
     1 \<le> data_parallel_size_local c \<and> data_parallel_size_local c \<le> data_parallel_size c \<and>
     0 \<le> data_parallel_rank c \<and> data_parallel_rank c < data_parallel_size c \<and>
     1 \<le> expert_parallel_group_size c \<and>
     expert_parallel_group_size c dvd tensor_parallel_size c * data_parallel_size c \<and>
     (enable_expert_parallel c \<longrightarrow> tensor_parallel_size c dvd expert_parallel_group_size c) \<and>
     (enable_expert_parallel c \<and> expert_parallel_scope c = ''per_dp'' \<longrightarrow>
        expert_parallel_group_size c = tensor_parallel_size c)"

lemma make_parallel_ok:
  assumes "make_parallel_config c = Ok c'"
  shows "c' = c \<and> parallel_ok c"
  using assms
  by (auto simp: make_parallel_config_def validate_expert_parallel_size_def parallel_ok_def expert_parallel_group_size_def
      expert_parallel_scope_ranks_def mod_eq_0_iff_dvd zero_less_mult_iff int_one_le_iff_zero_less
      split: if_splits option.splits result.splits)

text \<open>Numbers of two digits in a mixed radix.\<close>

lemma radix_bound: "0 \<le> d \<Longrightarrow> d < m \<Longrightarrow> 0 \<le> t \<Longrightarrow> t < n \<Longrightarrow> 0 \<le> d * n + t \<and> d * n + t < m * (n :: int)"
proof -
  assume a: "0 \<le> d" "d < m" "0 \<le> t" "t < n"
  then have "d * n + n \<le> m * n" using mult_right_mono [of "d + 1" m n] by (simp add: algebra_simps)
  with a show ?thesis by (simp add: add_nonneg_nonneg)
qed

lemma radix_digits: "0 \<le> t \<Longrightarrow> t < n \<Longrightarrow> (d * n + t) div n = d \<and> (d * n + t) mod n = (t :: int)"
  by simp

lemma radix_div:
  assumes "0 < n" "0 \<le> x" "x < m * (n :: int)"
  shows "0 \<le> x div n" "x div n < m"
proof -
  show "0 \<le> x div n" using assms by (simp add: pos_imp_zdiv_nonneg_iff)
  have "x div n * n \<le> x" using assms by (metis add.commute le_add_same_cancel1 div_mult_mod_eq pos_mod_sign add_le_cancel_left)
  then have "x div n * n < m * n" using assms(3) by (rule le_less_trans)
  then show "x div n < m" using assms(1) by simp
qed

lemma radix_bij:
  assumes "0 < (n :: int)"
  shows "bij_betw (\<lambda>(d, t). d * n + t) ({0..<m} \<times> {0..<n}) {0..<m * n}"
    and "bij_betw (\<lambda>x. (x div n, x mod n)) {0..<m * n} ({0..<m} \<times> {0..<n})"
proof -
  have out: "(\<lambda>x. (x div n, x mod n)) ` {0..<m * n} \<subseteq> {0..<m} \<times> {0..<n}"
    using assms radix_div [OF assms] by auto
  have into: "(\<lambda>(d, t). d * n + t) ` ({0..<m} \<times> {0..<n}) \<subseteq> {0..<m * n}"
    using radix_bound by fastforce
  show "bij_betw (\<lambda>(d, t). d * n + t) ({0..<m} \<times> {0..<n}) {0..<m * n}"
    by (rule bij_betw_byWitness [where f' = "\<lambda>x. (x div n, x mod n)"]) (use out into in auto)
  show "bij_betw (\<lambda>x. (x div n, x mod n)) {0..<m * n} ({0..<m} \<times> {0..<n})"
    by (rule bij_betw_byWitness [where f' = "\<lambda>(d, t). d * n + t"]) (use out into in auto)
qed

section \<open>Properties\<close>

text \<open>
  C36. A layout that the constructor accepts is consistent: the ranks of a pipeline stage split without
  remainder into the expert-parallel groups, whose group index and position name each rank exactly once, a
  group holds whole replicas when expert parallelism is on, and under the scope \<^verbatim>\<open>per_dp\<close> the group
  of a rank is its replica.
\<close>

theorem expert_groups_partition:
  assumes "make_parallel_config c = Ok c'"
  shows "bij_betw (\<lambda>(d, t). (expert_parallel_group c' d t, expert_parallel_rank c' d t))
      ({0..<data_parallel_size c'} \<times> {0..<tensor_parallel_size c'})
      ({0..<expert_parallel_group_count c'} \<times> {0..<expert_parallel_group_size c'}) \<and>
    world_size c' = pipeline_parallel_size c' * expert_parallel_group_count c' * expert_parallel_group_size c' \<and>
    (enable_expert_parallel c' \<longrightarrow>
      expert_parallel_replicas_per_group c' * tensor_parallel_size c' = expert_parallel_group_size c') \<and>
    (enable_expert_parallel c' \<and> expert_parallel_scope c' = ''per_dp'' \<longrightarrow>
      (\<forall>d. \<forall>t \<in> {0..<tensor_parallel_size c'}. expert_parallel_group c' d t = d))"
proof -
  define tp dp g where "tp = tensor_parallel_size c'" and "dp = data_parallel_size c'" and "g = expert_parallel_group_size c'"
  have ok: "1 \<le> tp" "1 \<le> dp" "1 \<le> g" "g dvd tp * dp" "enable_expert_parallel c' \<longrightarrow> tp dvd g"
    "enable_expert_parallel c' \<and> expert_parallel_scope c' = ''per_dp'' \<longrightarrow> g = tp"
    using make_parallel_ok [OF assms] by (auto simp: parallel_ok_def tp_def dp_def g_def)
  define k where "k = expert_parallel_group_count c'"
  have k: "k * g = dp * tp" using ok(4) by (simp add: k_def expert_parallel_group_count_def tp_def dp_def g_def mult.commute)
  let ?out = "\<lambda>x. (x div g, x mod g)"
  have "bij_betw ?out {0..<dp * tp} ({0..<k} \<times> {0..<g})" using radix_bij(2) [of g k] ok(3) unfolding k by simp
  with radix_bij(1) [of tp dp] ok(1) have "bij_betw (?out \<circ> (\<lambda>(d, t). d * tp + t)) ({0..<dp} \<times> {0..<tp}) ({0..<k} \<times> {0..<g})"
    by (intro bij_betw_trans [where B = "{0..<dp * tp}"]) simp_all
  moreover have "?out \<circ> (\<lambda>(d, t). d * tp + t) = (\<lambda>(d, t). (expert_parallel_group c' d t, expert_parallel_rank c' d t))"
    by (auto simp: fun_eq_iff expert_parallel_group_def expert_parallel_rank_def tp_def g_def)
  moreover have "world_size c' = pipeline_parallel_size c' * k * g"
    using k by (simp add: world_size_def ranks_per_dp_group_def tp_def dp_def)
  ultimately show ?thesis
    using ok(1,5,6)
    by (auto simp: tp_def dp_def g_def k_def expert_parallel_replicas_per_group_def expert_parallel_group_def)
qed

definition sample_parallel :: parallel_config where
  "sample_parallel = default_parallel\<lparr>tensor_parallel_size := 4, pipeline_parallel_size := 2, data_parallel_size := 4,
     enable_expert_parallel := True, expert_parallel_size := Some 8\<rparr>"

lemma sample_parallel_made: "make_parallel_config sample_parallel = Ok sample_parallel"
  by code_simp

theorem expert_groups_partition_witness:
  "bij_betw (\<lambda>(d, t). (expert_parallel_group sample_parallel d t, expert_parallel_rank sample_parallel d t))
     ({0..<4} \<times> {0..<4}) ({0..<2} \<times> {0..<8}) \<and> world_size sample_parallel = 32"
proof -
  have "data_parallel_size sample_parallel = 4" "tensor_parallel_size sample_parallel = 4"
    "expert_parallel_group_count sample_parallel = 2" "expert_parallel_group_size sample_parallel = 8"
    "world_size sample_parallel = 32" by code_simp+
  with expert_groups_partition [OF sample_parallel_made] show ?thesis by simp
qed

lemma kv_group_name_inject:
  assumes "0 \<le> a" "0 \<le> b" "0 \<le> c" "0 \<le> d" "kv_group_name a b = kv_group_name c d"
  shows "a = c \<and> b = d"
proof -
  have digits: "\<forall>x \<in> set (dec_digits n). 48 \<le> (of_char x :: nat)" for n using dec_digits_range by blast
  have "dec_digits (nat a) @ CHR ''-'' # (''pp'' @ dec_digits (nat b)) =
      dec_digits (nat c) @ CHR ''-'' # (''pp'' @ dec_digits (nat d))"
    using assms by (simp add: kv_group_name_def not_less)
  from split_at_separator [OF this digits digits] have "nat a = nat c \<and> nat b = nat d" by simp
  then show ?thesis using assms(1-4) by (simp add: eq_nat_nat_iff)
qed

text \<open>
  C37. Rank numbers and coordinates correspond: under an accepted layout every rank of the world has a tensor,
  a pipeline and a data-parallel coordinate within their sizes, from which its number is recovered, and two
  ranks have the same cache group name exactly when they agree in replica and stage.
\<close>

theorem rank_coordinates_round_trip:
  assumes "make_parallel_config c = Ok c'" and "0 \<le> g" "g < world_size c'" and "0 \<le> h" "h < world_size c'"
  shows "\<exists>a b. from_global_rank g c' = Ok a \<and> from_global_rank h c' = Ok b \<and>
    g = (dp_rank a * pipeline_parallel_size c' + pp_rank a) * tensor_parallel_size c' + tp_rank a \<and>
    tp_rank a \<in> {0..<tensor_parallel_size c'} \<and> pp_rank a \<in> {0..<pipeline_parallel_size c'} \<and>
    dp_rank a \<in> {0..<data_parallel_size c'} \<and>
    (kv_cache_group_id a = kv_cache_group_id b \<longleftrightarrow> dp_rank a = dp_rank b \<and> pp_rank a = pp_rank b)"
proof -
  define tp pp dp n where "tp = tensor_parallel_size c'" and "pp = pipeline_parallel_size c'"
    and "dp = data_parallel_size c'" and "n = ranks_per_dp_group c'"
  have pos: "1 \<le> tp" "1 \<le> pp" and n: "n = pp * tp" "0 < n" and w: "world_size c' = dp * n"
    using make_parallel_ok [OF assms(1)]
    by (auto simp: parallel_ok_def tp_def pp_def dp_def n_def ranks_per_dp_group_def world_size_def zero_less_mult_iff)
  have coord: "0 \<le> x div n \<and> x div n < dp \<and> 0 \<le> x mod n div tp \<and> x mod n div tp < pp \<and> x mod n mod tp \<in> {0..<tp} \<and>
      x = (x div n * pp + x mod n div tp) * tp + x mod n mod tp" if "0 \<le> x" "x < world_size c'" for x
  proof -
    have "0 \<le> x mod n" "x mod n < pp * tp" using n by auto
    moreover have "(x div n * pp + x mod n div tp) * tp + x mod n mod tp = x div n * n + (x mod n div tp * tp + x mod n mod tp)"
      by (simp add: n(1) algebra_simps)
    ultimately show ?thesis using radix_div [of n x dp] radix_div [of tp "x mod n" pp] that w n(2) pos by simp
  qed
  define mk where "mk x = \<lparr>global_rank = x, rank_in_dp_group = x mod n, tp_rank = x mod n mod tp,
    pp_rank = x mod n div tp, dp_rank = x div n, kv_cache_group_id = kv_group_name (x div n) (x mod n div tp)\<rparr>" for x
  have mk: "from_global_rank x c' = Ok (mk x)" if "0 \<le> x" "x < world_size c'" for x
    using that by (simp add: from_global_rank_def mk_def Let_def n_def tp_def)
  have group: "kv_cache_group_id (mk g) = kv_cache_group_id (mk h) \<longleftrightarrow> dp_rank (mk g) = dp_rank (mk h) \<and> pp_rank (mk g) = pp_rank (mk h)"
    using kv_group_name_inject [of "g div n" "g mod n div tp" "h div n" "h mod n div tp"]
      coord [OF assms(2,3)] coord [OF assms(4,5)] by (auto simp: mk_def)
  show ?thesis
    using mk [OF assms(2,3)] mk [OF assms(4,5)] coord [OF assms(2,3)] group
    by (intro exI [of _ "mk g"] exI [of _ "mk h"]) (simp add: mk_def tp_def [symmetric] pp_def [symmetric] dp_def [symmetric])
qed

theorem rank_coordinates_round_trip_witness:
  "\<exists>a b. from_global_rank 21 sample_parallel = Ok a \<and> from_global_rank 23 sample_parallel = Ok b \<and>
     21 = (dp_rank a * 2 + pp_rank a) * 4 + tp_rank a \<and>
     (kv_cache_group_id a = kv_cache_group_id b \<longleftrightarrow> dp_rank a = dp_rank b \<and> pp_rank a = pp_rank b)"
proof -
  have "world_size sample_parallel = 32" "pipeline_parallel_size sample_parallel = 2"
    "tensor_parallel_size sample_parallel = 4" by code_simp+
  with rank_coordinates_round_trip [OF sample_parallel_made, of 21 23] show ?thesis by auto
qed

end
