(* ===== verification/Expert_Placement.thy ===== *)
theory Expert_Placement
  imports Parallel_Config "HOL-Library.Multiset"
begin

text \<open>
  Mixture-of-experts layouts (\<^verbatim>\<open>src/TokenSim/moe/config.py\<close>, \<^verbatim>\<open>src/TokenSim/moe/placement.py\<close>): the
  checks of a model's expert configuration, the layers that hold experts, and which rank owns which expert and
  which pipeline stage which layer.
\<close>

section \<open>The configuration of the experts\<close>

record routing_config =
  distribution :: string
  hot_experts :: "int list option"
  hot_expert_fraction :: real
  uniform_selection :: string

definition default_routing :: routing_config where
  "default_routing = \<lparr>distribution = ''uniform'', hot_experts = None, hot_expert_fraction = 1 / 2,
     uniform_selection = ''cyclic''\<rparr>"

definition make_routing :: "routing_config \<Rightarrow> routing_config result" where
  "make_routing r =
     (if uniform_selection r \<notin> {''cyclic'', ''random_without_replacement''} then Raise ConfigurationError
      else if distribution r \<noteq> ''uniform'' \<and> uniform_selection r \<noteq> ''cyclic'' then Raise ConfigurationError
      else if distribution r \<notin> {''uniform'', ''skew'', ''hot'', ''burst''} then Raise ConfigurationError
      else if \<not> (0 \<le> hot_expert_fraction r \<and> hot_expert_fraction r \<le> 1) then Raise ConfigurationError
      else Ok r)"

record moe_config =
  is_moe_model :: bool
  num_experts :: int
  num_experts_per_tok :: int
  moe_intermediate_size :: "int option"
  num_shared_experts :: int
  num_moe_layers :: int
  first_k_dense_replace :: int
  moe_layer_freq :: int
  interleave_moe_layer_step :: int
  mc_routing :: "routing_config option"
  mc_hidden_size :: "int option"
  mc_intermediate_size :: "int option"
  mc_num_attention_heads :: "int option"
  mc_num_key_value_heads :: "int option"

definition positive_int :: "int \<Rightarrow> bool" where
  "positive_int v \<longleftrightarrow> 0 < v"

definition non_negative_int :: "int \<Rightarrow> bool" where
  "non_negative_int v \<longleftrightarrow> 0 \<le> v"

definition moe_enabled :: "moe_config \<Rightarrow> bool" where
  "moe_enabled c \<longleftrightarrow> is_moe_model c \<and> 0 < num_moe_layers c"

definition validate_layer_layout :: "moe_config \<Rightarrow> unit result" where
  "validate_layer_layout c =
     (if \<not> moe_enabled c then Ok ()
      else if first_k_dense_replace c + (num_moe_layers c - 1) * moe_layer_freq c < 0 then Raise ConfigurationError
      else Ok ())"

text \<open>The constructor; a dense model only gets its defaults filled in.\<close>

definition make_moe_config :: "moe_config \<Rightarrow> moe_config result" where
  "make_moe_config c =
     (case make_routing (case mc_routing c of None \<Rightarrow> default_routing | Some r \<Rightarrow> r) of
        Raise e \<Rightarrow> Raise e
      | Ok r \<Rightarrow>
          (let c = c\<lparr>mc_routing := Some r\<rparr>
           in if \<not> is_moe_model c then
                Ok (c\<lparr>num_experts_per_tok := (if num_experts_per_tok c = 0 then 1 else num_experts_per_tok c)\<rparr>)
              else if \<not> positive_int (num_experts c) then Raise ConfigurationError
              else if \<not> positive_int (num_experts_per_tok c) then Raise ConfigurationError
              else if num_experts c < num_experts_per_tok c then Raise ConfigurationError
              else if \<not> positive_int (num_moe_layers c) then Raise ConfigurationError
              else if \<not> (case moe_intermediate_size c of None \<Rightarrow> True | Some v \<Rightarrow> positive_int v)
              then Raise ConfigurationError
              else if \<not> non_negative_int (num_shared_experts c) then Raise ConfigurationError
              else if \<not> non_negative_int (first_k_dense_replace c) then Raise ConfigurationError
              else if \<not> positive_int (moe_layer_freq c) then Raise ConfigurationError
              else if \<not> positive_int (interleave_moe_layer_step c) then Raise ConfigurationError
              else if \<exists>v \<in> set [mc_hidden_size c, mc_intermediate_size c, mc_num_attention_heads c,
                    mc_num_key_value_heads c]. \<not> (case v of None \<Rightarrow> True | Some v \<Rightarrow> positive_int v)
              then Raise ConfigurationError
              else (case validate_layer_layout c of Raise e \<Rightarrow> Raise e | Ok _ \<Rightarrow> Ok c)))"

section \<open>The layers with experts\<close>

text \<open>\<^verbatim>\<open>list(range(start, limit, step))\<close> of a positive step, which the constructor ensures.\<close>

definition range_step :: "int \<Rightarrow> int \<Rightarrow> int \<Rightarrow> int list" where
  "range_step start limit stride = map (\<lambda>k. start + int k * stride) [0..<nat ((limit - start + stride - 1) div stride)]"

definition moe_layer_indices :: "moe_config \<Rightarrow> int option \<Rightarrow> int list" where
  "moe_layer_indices c total_layers =
     (if \<not> moe_enabled c then []
      else
        (let start = first_k_dense_replace c;
             limit = (case total_layers of Some n \<Rightarrow> n | None \<Rightarrow> start + num_moe_layers c)
         in take (nat (num_moe_layers c)) (range_step start limit (moe_layer_freq c))))"

definition count_moe_layers_in_stage :: "moe_config \<Rightarrow> int list \<Rightarrow> int" where
  "count_moe_layers_in_stage c stage = int (length (filter (\<lambda>l. l \<in> set stage) (moe_layer_indices c None)))"

section \<open>Placement\<close>

type_synonym assignment = "(int \<times> int list) list"

text \<open>\<^verbatim>\<open>result[rank].append(x)\<close> of a dictionary that has the key.\<close>

definition append_to :: "int \<Rightarrow> int \<Rightarrow> assignment \<Rightarrow> assignment" where
  "append_to k x d = map (\<lambda>(r, xs). if r = k then (r, xs @ [x]) else (r, xs)) d"

fun linear_experts :: "int \<Rightarrow> int \<Rightarrow> int \<Rightarrow> int list \<Rightarrow> assignment" where
  "linear_experts base remainder cursor [] = []"
| "linear_experts base remainder cursor (r # ranks) =
     (let count = base + (if r < remainder then 1 else 0)
      in (r, [cursor..cursor + count - 1]) # linear_experts base remainder (cursor + count) ranks)"

definition assign_experts :: "string \<Rightarrow> int \<Rightarrow> int \<Rightarrow> assignment result" where
  "assign_experts strategy n ep_rank_count =
     (if ep_rank_count < 1 then Raise ConfigurationError
      else
        (let ranks = [0..ep_rank_count - 1];
             result = map (\<lambda>r. (r, [])) ranks
         in if n \<le> 0 then Ok result
            else if strategy = ''linear'' then Ok (linear_experts (n div ep_rank_count) (n mod ep_rank_count) 0 ranks)
            else if strategy = ''round_robin'' then
              Ok (fold (\<lambda>e d. append_to (e mod ep_rank_count) e d) [0..n - 1] result)
            else Raise ConfigurationError))"

fun pp_search :: "int \<Rightarrow> int \<Rightarrow> int \<Rightarrow> int \<Rightarrow> int list \<Rightarrow> int" where
  "pp_search layer layers pp_size cursor [] = pp_size - 1"
| "pp_search layer layers pp_size cursor (r # ranks) =
     (let count = layers div pp_size + (if r < layers mod pp_size then 1 else 0)
      in if cursor \<le> layer \<and> layer < cursor + count then r
         else pp_search layer layers pp_size (cursor + count) ranks)"

definition pp_rank_for_layer :: "int \<Rightarrow> int \<Rightarrow> int \<Rightarrow> int" where
  "pp_rank_for_layer layer layers pp_size =
     (if pp_size \<le> 1 then 0 else pp_search layer layers pp_size 0 [0..pp_size - 1])"

definition assign_moe_layers :: "moe_config \<Rightarrow> parallel_config \<Rightarrow> int option \<Rightarrow> assignment" where
  "assign_moe_layers c p total_layers =
     (let result = map (\<lambda>r. (r, [])) [0..pipeline_parallel_size p - 1]
      in if \<not> moe_enabled c then result
         else fold (\<lambda>l d. append_to
                (pp_rank_for_layer l (case total_layers of Some n \<Rightarrow> if n = 0 then l + 1 else n | None \<Rightarrow> l + 1)
                   (pipeline_parallel_size p)) l d)
              (moe_layer_indices c total_layers) result)"

record expert_placement =
  ep_strategy :: string
  ep_scope :: string
  ep_rank_count :: int
  ep_group_count :: int
  ep_tensor_parallel_size :: int
  ep_num_experts :: int
  ep_parallel :: parallel_config
  rank_to_experts :: assignment
  pp_stage_to_moe_layers :: assignment

definition build_expert_placement :: "moe_config \<Rightarrow> parallel_config \<Rightarrow> int option \<Rightarrow> expert_placement result" where
  "build_expert_placement c p total_layers =
     (let n = (if moe_enabled c then num_experts c else 0);
          ranks = expert_parallel_group_size p
      in case assign_experts (expert_placement_strategy p) n ranks of
           Raise e \<Rightarrow> Raise e
         | Ok experts \<Rightarrow>
             Ok \<lparr>ep_strategy = expert_placement_strategy p, ep_scope = expert_parallel_scope p, ep_rank_count = ranks,
                 ep_group_count = expert_parallel_group_count p,
                 ep_tensor_parallel_size = tensor_parallel_size p, ep_num_experts = n, ep_parallel = p,
                 rank_to_experts = experts, pp_stage_to_moe_layers = assign_moe_layers c p total_layers\<rparr>)"

definition ep_rank_for_rank_info :: "expert_placement \<Rightarrow> rank_info \<Rightarrow> int" where
  "ep_rank_for_rank_info e ri = expert_parallel_rank (ep_parallel e) (dp_rank ri) (tp_rank ri)"

definition ep_group_for_rank_info :: "expert_placement \<Rightarrow> rank_info \<Rightarrow> int" where
  "ep_group_for_rank_info e ri = expert_parallel_group (ep_parallel e) (dp_rank ri) (tp_rank ri)"

definition experts_for_rank :: "expert_placement \<Rightarrow> rank_info \<Rightarrow> int list" where
  "experts_for_rank e ri = case_option [] (\<lambda>xs. xs) (map_of (rank_to_experts e) (ep_rank_for_rank_info e ri))"

definition moe_layers_for_pp_rank :: "expert_placement \<Rightarrow> int \<Rightarrow> int list" where
  "moe_layers_for_pp_rank e pp = case_option [] (\<lambda>xs. xs) (map_of (pp_stage_to_moe_layers e) pp)"

definition owns_moe_layers :: "expert_placement \<Rightarrow> int \<Rightarrow> bool" where
  "owns_moe_layers e pp \<longleftrightarrow> moe_layers_for_pp_rank e pp \<noteq> []"

section \<open>Filling an assignment\<close>

lemma fold_append_to:
  "fold (\<lambda>x d. append_to (f x) x d) xs d = map (\<lambda>(r, ys). (r, ys @ filter (\<lambda>x. f x = r) xs)) d"
proof (induction xs arbitrary: d)
  case Nil
  show ?case by simp
next
  case (Cons x xs)
  have "fold (\<lambda>x d. append_to (f x) x d) (x # xs) d =
      map (\<lambda>(r, ys). (r, ys @ filter (\<lambda>x. f x = r) xs)) (append_to (f x) x d)" by (simp add: Cons.IH)
  then show ?case by (auto simp: append_to_def)
qed

lemma one_pick: "distinct ks \<Longrightarrow> (\<Sum>k \<leftarrow> ks. if a = k then {#x#} else {#}) = (if a \<in> set ks then {#x#} else {#})"
  by (induction ks) auto

lemma mset_classes:
  assumes "distinct ks" "\<forall>x \<in> set xs. f x \<in> set ks"
  shows "mset (concat (map (\<lambda>k. filter (\<lambda>x. f x = k) xs) ks)) = mset xs"
  using assms(2)
proof (induction xs)
  case Nil
  show ?case by (induction ks) simp_all
next
  case (Cons x xs)
  have "(\<Sum>k \<leftarrow> ks. mset (filter (\<lambda>y. f y = k) (x # xs))) =
      (\<Sum>k \<leftarrow> ks. (if f x = k then {#x#} else {#}) + mset (filter (\<lambda>y. f y = k) xs))"
    by (rule arg_cong [where f = sum_list], rule map_cong) auto
  with Cons show ?case by (simp add: mset_concat o_def sum_list_addf one_pick assms(1))
qed

lemma class_size:
  assumes "0 \<le> k" "k < r"
  shows "int (length (filter (\<lambda>e. e mod r = k) [0..int n - 1])) = int n div r + (if k < int n mod r then 1 else 0)"
proof (induction n)
  case 0
  then show ?case using assms by simp
next
  case (Suc n)
  define q m where "q = int n div r" and "m = int n mod r"
  have m: "0 \<le> m" "m < r" and n: "int n = q * r + m" using assms by (auto simp: q_def m_def)
  have up: "[0..int (Suc n) - 1] = [0..int n - 1] @ [int n]" by (simp add: upto_rec2)
  show ?case
  proof (cases "m + 1 < r")
    case True
    have e: "int (Suc n) = q * r + (m + 1)" using n by simp
    have "int (Suc n) div r = q \<and> int (Suc n) mod r = m + 1" unfolding e by (rule radix_digits) (use m True in simp_all)
    then show ?thesis using Suc m assms unfolding up by (simp add: q_def [symmetric] m_def [symmetric])
  next
    case False
    then have "m + 1 = r" using m by simp
    then have e: "int (Suc n) = (q + 1) * r + 0" using n by (simp add: algebra_simps)
    have "int (Suc n) div r = q + 1 \<and> int (Suc n) mod r = 0" unfolding e by (rule radix_digits) (use assms in simp_all)
    then show ?thesis using Suc m assms \<open>m + 1 = r\<close> unfolding up by (simp add: q_def [symmetric] m_def [symmetric])
  qed
qed

lemma linear_experts_facts:
  assumes "0 \<le> base"
  shows "map fst (linear_experts base m cursor ranks) = ranks"
    and "concat (map snd (linear_experts base m cursor ranks)) =
      [cursor..cursor + (\<Sum>r \<leftarrow> ranks. base + (if r < m then 1 else 0)) - 1]"
    and "(k, xs) \<in> set (linear_experts base m cursor ranks) \<Longrightarrow> int (length xs) = base + (if k < m then 1 else 0)"
proof -
  have nonneg: "0 \<le> (\<Sum>r \<leftarrow> ranks. base + (if r < m then 1 else (0 :: int)))" for ranks
    using assms by (intro sum_list_nonneg) auto
  show "map fst (linear_experts base m cursor ranks) = ranks"
    by (induction ranks arbitrary: cursor) (simp_all add: Let_def)
  show "concat (map snd (linear_experts base m cursor ranks)) =
      [cursor..cursor + (\<Sum>r \<leftarrow> ranks. base + (if r < m then 1 else 0)) - 1]"
  proof (induction ranks arbitrary: cursor)
    case (Cons r ranks)
    define c where "c = base + (if r < m then 1 else 0)"
    have c: "0 \<le> c" using assms by (simp add: c_def)
    have "[cursor..cursor + c - 1] @ [cursor + c..cursor + c + n - 1] = [cursor..cursor + c + n - 1]" if "0 \<le> n" for n
      using upto_split1 [of cursor "cursor + c" "cursor + c + n - 1"] upto_split2 [of cursor "cursor + c - 1" "cursor + c + n - 1"] c that
      by (cases "n = 0") auto
    with nonneg [of ranks] show ?case by (simp add: Let_def Cons.IH c_def [symmetric] add.assoc)
  qed simp
  show "(k, xs) \<in> set (linear_experts base m cursor ranks) \<Longrightarrow> int (length xs) = base + (if k < m then 1 else 0)"
    using assms by (induction ranks arbitrary: cursor) (auto simp: Let_def split: if_splits)
qed

lemma share_sum:
  assumes "0 \<le> m"
  shows "(\<Sum>k \<leftarrow> [0..int r - 1]. base + (if k < m then 1 else (0 :: int))) = int r * base + min m (int r)"
proof (induction r)
  case (Suc r)
  have up: "[0..int (Suc r) - 1] = [0..int r - 1] @ [int r]" by (simp add: upto_rec2)
  show ?case unfolding up by (simp add: Suc.IH algebra_simps min_def)
qed (use assms in simp)

text \<open>The first layer of a stage when \<open>n\<close> layers are split over \<open>pp\<close> stages as evenly as possible.\<close>

definition stage_start :: "int \<Rightarrow> int \<Rightarrow> int \<Rightarrow> int" where
  "stage_start n pp k = k * (n div pp) + min k (n mod pp)"

lemma stage_start_Suc:
  "0 < pp \<Longrightarrow> stage_start n pp (k + 1) = stage_start n pp k + (n div pp + (if k < n mod pp then 1 else 0))"
  by (simp add: stage_start_def algebra_simps min_def)

lemma pp_search_stage:
  assumes "stage_start n pp k \<le> l" "l < n" "0 < pp" "0 \<le> k" "k \<le> pp"
  shows "pp_search l n pp (stage_start n pp k) [k..pp - 1] \<in> {k..<pp} \<and>
    stage_start n pp (pp_search l n pp (stage_start n pp k) [k..pp - 1]) \<le> l \<and>
    l < stage_start n pp (pp_search l n pp (stage_start n pp k) [k..pp - 1] + 1)"
  using assms
proof (induction "nat (pp - k)" arbitrary: k)
  case 0
  have "n mod pp < pp" using 0(4) by simp
  moreover have "k = pp" using 0 by simp
  ultimately have "stage_start n pp k = n" by (simp add: stage_start_def min_def)
  with 0 show ?case by simp
next
  case (Suc d)
  have k: "k < pp" using Suc(2) by simp
  note step = stage_start_Suc [OF Suc.prems(3), of n k]
  have up: "[k..pp - 1] = k # [k + 1..pp - 1]" using k by (simp add: upto_rec1)
  show ?case
  proof (cases "l < stage_start n pp (k + 1)")
    case True
    then show ?thesis using Suc.prems k unfolding up by (simp add: Let_def step)
  next
    case False
    have "d = nat (pp - (k + 1))" using Suc(2) by simp
    from Suc(1) [OF this] False Suc.prems k show ?thesis unfolding up by (simp add: Let_def step [symmetric])
  qed
qed

lemma pp_rank_for_layer_stage:
  assumes "0 \<le> l" "l < n" "0 < pp"
  shows "pp_rank_for_layer l n pp \<in> {0..<pp} \<and> stage_start n pp (pp_rank_for_layer l n pp) \<le> l \<and>
    l < stage_start n pp (pp_rank_for_layer l n pp + 1)"
proof (cases "pp \<le> 1")
  case True
  then have "pp = 1" using assms(3) by simp
  then show ?thesis using assms by (simp add: pp_rank_for_layer_def stage_start_def)
next
  case False
  have "stage_start n pp 0 = 0" using assms by (simp add: stage_start_def)
  with pp_search_stage [of n pp 0 l] assms False show ?thesis by (simp add: pp_rank_for_layer_def)
qed

lemma stage_start_mono: "0 \<le> n \<Longrightarrow> 0 < pp \<Longrightarrow> j \<le> k \<Longrightarrow> stage_start n pp j \<le> stage_start n pp k"
  unfolding stage_start_def by (intro add_mono mult_right_mono) (auto simp: pos_imp_zdiv_nonneg_iff)

text \<open>The shares are disjoint, so the stage of a layer is the only one whose share holds it.\<close>

lemma pp_rank_for_layer_iff:
  assumes "0 \<le> l" "l < n" "0 < pp"
  shows "pp_rank_for_layer l n pp = k \<longleftrightarrow> stage_start n pp k \<le> l \<and> l < stage_start n pp (k + 1)"
proof
  note own = pp_rank_for_layer_stage [OF assms]
  then show "pp_rank_for_layer l n pp = k \<Longrightarrow> stage_start n pp k \<le> l \<and> l < stage_start n pp (k + 1)" by auto
  assume k: "stage_start n pp k \<le> l \<and> l < stage_start n pp (k + 1)"
  have "0 \<le> n" using assms by simp
  note mono = stage_start_mono [OF this assms(3)]
  have "\<not> k + 1 \<le> pp_rank_for_layer l n pp" "\<not> pp_rank_for_layer l n pp + 1 \<le> k"
    using own k mono [of "k + 1" "pp_rank_for_layer l n pp"] mono [of "pp_rank_for_layer l n pp + 1" k] by auto
  then show "pp_rank_for_layer l n pp = k" by simp
qed

lemma moe_layers_exact:
  assumes "make_moe_config c0 = Ok c" "is_moe_model c" "first_k_dense_replace c + (num_moe_layers c - 1) * moe_layer_freq c < n"
  shows "moe_layer_indices c (Some n) = map (\<lambda>i. first_k_dense_replace c + int i * moe_layer_freq c) [0..<nat (num_moe_layers c)]"
proof -
  define a f m where "a = first_k_dense_replace c" and "f = moe_layer_freq c" and "m = num_moe_layers c"
  have pos: "0 < m" "0 < f"
    using assms(1,2) by (auto simp: make_moe_config_def Let_def positive_int_def a_def f_def m_def split: result.splits if_splits)
  have "m * f \<le> n - a + f - 1" using assms(3) by (simp add: a_def f_def m_def algebra_simps)
  then have "m \<le> (n - a + f - 1) div f" using zdiv_mono1 [of "m * f" "n - a + f - 1" f] pos by simp
  then have "take (nat m) [0..<nat ((n - a + f - 1) div f)] = [0..<nat m]" by simp
  then show ?thesis using pos assms(2)
    by (simp add: moe_layer_indices_def moe_enabled_def range_step_def take_map a_def f_def m_def)
qed

section \<open>Properties\<close>

text \<open>
  C38. Both placement strategies split the experts: every expert is owned by exactly one rank of the group, and
  the loads differ by at most one, the first ranks taking the remainder.
\<close>

theorem experts_split_evenly:
  assumes "assign_experts strategy n r = Ok d" and "0 \<le> n"
  shows "map fst d = [0..r - 1] \<and> mset (concat (map snd d)) = mset [0..n - 1] \<and>
    (\<forall>(k, xs) \<in> set d. int (length xs) = n div r + (if k < n mod r then 1 else 0))"
proof -
  have r: "0 < r" using assms(1) by (simp add: assign_experts_def split: if_splits)
  consider (none) "n = 0" "d = map (\<lambda>k. (k, [])) [0..r - 1]"
    | (linear) "d = linear_experts (n div r) (n mod r) 0 [0..r - 1]"
    | (robin) "d = fold (\<lambda>e d. append_to (e mod r) e d) [0..n - 1] (map (\<lambda>k. (k, [])) [0..r - 1])"
    using assms by (auto simp: assign_experts_def Let_def split: if_splits)
  then show ?thesis
  proof cases
    case none
    moreover have "concat (map (\<lambda>x. []) ks) = []" for ks :: "int list" by (induction ks) simp_all
    ultimately show ?thesis using r by (auto simp: o_def)
  next
    case linear
    have base: "0 \<le> n div r" using assms(2) r by (simp add: pos_imp_zdiv_nonneg_iff)
    note f = linear_experts_facts [OF base, where m = "n mod r" and cursor = 0 and ranks = "[0..r - 1]"]
    have "(\<Sum>k \<leftarrow> [0..int (nat r) - 1]. n div r + (if k < n mod r then 1 else 0)) = n"
      using r by (subst share_sum) (simp_all add: min_def less_imp_le)
    then have "concat (map snd d) = [0..n - 1]" using f(2) r by (simp add: linear)
    then show ?thesis using f(1,3) by (auto simp: linear)
  next
    case robin
    have d: "d = map (\<lambda>k. (k, filter (\<lambda>e. e mod r = k) [0..n - 1])) [0..r - 1]"
      by (simp add: robin fold_append_to)
    have "mset (concat (map (\<lambda>k. filter (\<lambda>e. e mod r = k) [0..n - 1]) [0..r - 1])) = mset [0..n - 1]"
      by (rule mset_classes) (use r in auto)
    moreover have "int (length (filter (\<lambda>e. e mod r = k) [0..n - 1])) = n div r + (if k < n mod r then 1 else 0)"
      if "k \<in> {0..r - 1}" for k
      using class_size [of k r "nat n"] that assms(2) by simp
    ultimately show ?thesis by (auto simp: d o_def)
  qed
qed

theorem experts_split_evenly_witness:
  "\<exists>d. assign_experts ''round_robin'' 10 4 = Ok d \<and> mset (concat (map snd d)) = mset [0..9] \<and> map fst d = [0..3]"
proof -
  obtain d where d: "assign_experts ''round_robin'' 10 4 = Ok d" by (simp add: assign_experts_def)
  from experts_split_evenly [OF d] d show ?thesis by simp
qed

text \<open>
  C39. The layers with experts and their stages: for an accepted model whose last expert layer lies within the
  model, the indices are the configured number of layers at the configured spacing, every one of them is on
  exactly one pipeline stage, and each stage lists, in increasing order, exactly the layers that lie in its
  share of an even split.
\<close>

theorem moe_layers_on_stages:
  assumes "make_moe_config c0 = Ok c" and "is_moe_model c" and "make_parallel_config p0 = Ok p"
    and "first_k_dense_replace c + (num_moe_layers c - 1) * moe_layer_freq c < n"
  shows "moe_layer_indices c (Some n) =
      map (\<lambda>i. first_k_dense_replace c + int i * moe_layer_freq c) [0..<nat (num_moe_layers c)] \<and>
    assign_moe_layers c p (Some n) =
      map (\<lambda>k. (k, filter (\<lambda>l. stage_start n (pipeline_parallel_size p) k \<le> l \<and>
             l < stage_start n (pipeline_parallel_size p) (k + 1)) (moe_layer_indices c (Some n))))
        [0..pipeline_parallel_size p - 1] \<and>
    mset (concat (map snd (assign_moe_layers c p (Some n)))) = mset (moe_layer_indices c (Some n))"
proof -
  define pp where "pp = pipeline_parallel_size p"
  have pp: "0 < pp" using make_parallel_ok [OF assms(3)] by (simp add: parallel_ok_def pp_def)
  note exact = moe_layers_exact [OF assms(1,2,4)]
  have pos: "0 \<le> first_k_dense_replace c" "0 < moe_layer_freq c" "0 < num_moe_layers c"
    using assms(1,2)
    by (auto simp: make_moe_config_def Let_def positive_int_def non_negative_int_def split: result.splits if_splits)
  have range: "0 \<le> l \<and> l < n" if "l \<in> set (moe_layer_indices c (Some n))" for l
  proof -
    from that obtain i where i: "l = first_k_dense_replace c + int i * moe_layer_freq c" "i < nat (num_moe_layers c)"
      unfolding exact by (auto simp only: set_map set_upt atLeastLessThan_iff)
    have "int i * moe_layer_freq c \<le> (num_moe_layers c - 1) * moe_layer_freq c"
      by (rule mult_right_mono) (use i pos in auto)
    moreover have "0 \<le> int i * moe_layer_freq c" using pos by simp
    ultimately show ?thesis using i(1) assms(4) pos(1) by linarith
  qed
  have "0 \<le> (num_moe_layers c - 1) * moe_layer_freq c" using pos by simp
  then have "n \<noteq> 0" using pos(1) assms(4) by linarith
  then have a: "assign_moe_layers c p (Some n) =
      map (\<lambda>k. (k, filter (\<lambda>l. pp_rank_for_layer l n pp = k) (moe_layer_indices c (Some n)))) [0..pp - 1]"
    using assms(2) pos by (simp add: assign_moe_layers_def moe_enabled_def fold_append_to pp_def Let_def)
  have "mset (concat (map (\<lambda>k. filter (\<lambda>l. pp_rank_for_layer l n pp = k) (moe_layer_indices c (Some n))) [0..pp - 1])) =
      mset (moe_layer_indices c (Some n))"
    by (rule mset_classes) (use pp range pp_rank_for_layer_stage in fastforce)+
  moreover have "filter (\<lambda>l. pp_rank_for_layer l n pp = k) (moe_layer_indices c (Some n)) =
      filter (\<lambda>l. stage_start n pp k \<le> l \<and> l < stage_start n pp (k + 1)) (moe_layer_indices c (Some n))" for k
    by (rule filter_cong [OF refl]) (use range pp pp_rank_for_layer_iff in blast)
  ultimately show ?thesis using exact by (simp add: a o_def pp_def [symmetric])
qed

definition sample_moe :: moe_config where
  "sample_moe = \<lparr>is_moe_model = True, num_experts = 8, num_experts_per_tok = 2, moe_intermediate_size = None,
     num_shared_experts = 0, num_moe_layers = 4, first_k_dense_replace = 1, moe_layer_freq = 2,
     interleave_moe_layer_step = 1, mc_routing = Some default_routing, mc_hidden_size = None, mc_intermediate_size = None,
     mc_num_attention_heads = None, mc_num_key_value_heads = None\<rparr>"

lemma sample_moe_made: "make_moe_config sample_moe = Ok sample_moe"
  by (simp add: make_moe_config_def sample_moe_def default_routing_def make_routing_def positive_int_def non_negative_int_def
      validate_layer_layout_def moe_enabled_def)

theorem moe_layers_on_stages_witness:
  "moe_layer_indices sample_moe (Some 8) = [1, 3, 5, 7] \<and>
   assign_moe_layers sample_moe sample_parallel (Some 8) = [(0, [1, 3]), (1, [5, 7])]"
proof -
  have "is_moe_model sample_moe" "first_k_dense_replace sample_moe + (num_moe_layers sample_moe - 1) * moe_layer_freq sample_moe < 8"
    by (simp_all add: sample_moe_def)
  moreover have "moe_layer_indices sample_moe (Some 8) = [1, 3, 5, 7]"
    by (simp add: moe_layer_indices_def moe_enabled_def range_step_def sample_moe_def upt_rec)
  ultimately show ?thesis using moe_layers_on_stages [OF sample_moe_made _ sample_parallel_made]
    by (simp add: sample_parallel_def stage_start_def upto.simps)
qed

text \<open>
  C40. Without a layer count \<^verbatim>\<open>moe_layer_indices\<close> ends at the number of layers instead of the last index, so
  with a spacing above one it returns fewer layers than the model has: one for every spacing, rounded up.
\<close>

theorem moe_layers_without_count:
  assumes "make_moe_config c0 = Ok c" and "is_moe_model c"
  shows "int (length (moe_layer_indices c None)) = (num_moe_layers c + moe_layer_freq c - 1) div moe_layer_freq c"
proof -
  have pos: "0 < moe_layer_freq c" "0 < num_moe_layers c"
    using assms by (auto simp: make_moe_config_def Let_def positive_int_def split: result.splits if_splits)
  have "(num_moe_layers c + moe_layer_freq c - 1) div moe_layer_freq c \<le> num_moe_layers c"
  proof -
    have "0 \<le> (num_moe_layers c - 1) * (moe_layer_freq c - 1)" using pos by (intro mult_nonneg_nonneg) simp_all
    then have "num_moe_layers c + moe_layer_freq c - 1 \<le> num_moe_layers c * moe_layer_freq c" by (simp add: algebra_simps)
    then show ?thesis using zdiv_mono1 [of _ _ "moe_layer_freq c"] pos by fastforce
  qed
  moreover have "0 \<le> (num_moe_layers c + moe_layer_freq c - 1) div moe_layer_freq c"
    using pos by (simp add: pos_imp_zdiv_nonneg_iff)
  ultimately show ?thesis using pos assms(2) by (simp add: moe_layer_indices_def moe_enabled_def range_step_def)
qed

theorem moe_layers_without_count_witness:
  "int (length (moe_layer_indices sample_moe None)) = 2 \<and> num_moe_layers sample_moe = 4"
  using moe_layers_without_count [OF sample_moe_made] by (simp add: sample_moe_def)

end
