(* ===== verification/Consistent_Hash.thy ===== *)
theory Consistent_Hash
  imports Decimal "HOL-Library.Word" "HOL-Library.Multiset"
begin

unbundle bit_operations_syntax

text \<open>
  Routing of conversations to data-parallel replicas (\<^verbatim>\<open>src/TokenSim/placement/consistent_hash.py\<close>): the
  64-bit hash functions, the ring of virtual nodes, the router with its session table, and the router that
  replays a recorded mapping.
\<close>

section \<open>Hashing\<close>

text \<open>\<^verbatim>\<open>str.encode\<close> of the characters of the model, which are those below 256.\<close>

definition utf8_char :: "char \<Rightarrow> 8 word list" where
  "utf8_char c =
     (let n = (of_char c :: nat)
      in if n < 128 then [of_nat n] else [of_nat (192 + n div 64), of_nat (128 + n mod 64)])"

definition encode :: "string \<Rightarrow> 8 word list" where
  "encode s = concat (map utf8_char s)"

text \<open>\<^verbatim>\<open>int.from_bytes\<close> and \<^verbatim>\<open>int.to_bytes\<close> in little-endian order, of at most eight bytes.\<close>

definition from_bytes :: "8 word list \<Rightarrow> 64 word" where
  "from_bytes bs = foldr (\<lambda>b v. push_bit 8 v + ucast b) bs 0"

definition to_bytes :: "nat \<Rightarrow> 64 word \<Rightarrow> 8 word list" where
  "to_bytes n v = map (\<lambda>i. ucast (drop_bit (8 * i) v)) [0..<n]"

definition murmur_m :: "64 word" where
  "murmur_m = 0xC6A4A7935BD1E995"

definition murmur_seed :: "64 word" where
  "murmur_seed = 4193360111"

text \<open>The loop over blocks of eight bytes; the bytes that are left follow.\<close>

fun murmur_blocks :: "64 word \<Rightarrow> 8 word list \<Rightarrow> 64 word \<times> 8 word list" where
  "murmur_blocks h (b0 # b1 # b2 # b3 # b4 # b5 # b6 # b7 # rest) =
     (let k = from_bytes [b0, b1, b2, b3, b4, b5, b6, b7] * murmur_m;
          k = (k XOR drop_bit 47 k) * murmur_m
      in murmur_blocks ((h XOR k) * murmur_m) rest)"
| "murmur_blocks h rest = (h, rest)"

definition murmur_hash_64a :: "8 word list \<Rightarrow> 64 word" where
  "murmur_hash_64a data =
     (let (h, rest) = murmur_blocks (murmur_seed XOR (of_nat (length data) * murmur_m)) data;
          h = (if rest = [] then h else (h XOR from_bytes rest) * murmur_m);
          h = (h XOR drop_bit 47 h) * murmur_m
      in h XOR drop_bit 47 h)"

definition murmur_rehash_64a :: "64 word \<Rightarrow> 64 word" where
  "murmur_rehash_64a v = murmur_hash_64a (to_bytes 8 v)"

text \<open>The list \<^verbatim>\<open>hashes\<close> of \<^verbatim>\<open>fbi_hash\<close> memoises this chain.\<close>

primrec hash_chain :: "8 word list \<Rightarrow> nat \<Rightarrow> 64 word" where
  "hash_chain data 0 = murmur_hash_64a data"
| "hash_chain data (Suc n) = murmur_rehash_64a (hash_chain data n)"

definition key_bit :: "8 word list \<Rightarrow> nat \<Rightarrow> bool" where
  "key_bit data index = bit (hash_chain data (index div 64)) (index mod 64)"

text \<open>The inner \<^verbatim>\<open>while\<close> loop; \<^const>\<open>None\<close> is the early return.\<close>

fun seek :: "(nat \<Rightarrow> bool) \<Rightarrow> nat \<Rightarrow> nat \<Rightarrow> (nat \<times> nat) option" where
  "seek kb depth index =
     (if kb index then Some (depth, index)
      else case depth of 0 \<Rightarrow> None | Suc d \<Rightarrow> seek kb d d)"

primrec read_number :: "(nat \<Rightarrow> bool) \<Rightarrow> nat \<Rightarrow> nat \<Rightarrow> nat \<Rightarrow> nat \<times> nat" where
  "read_number kb 0 index n = (n, index)"
| "read_number kb (Suc k) index n = read_number kb k (index + 23) (2 * n + of_bool (kb index))"

primrec fbi_rounds :: "(nat \<Rightarrow> bool) \<Rightarrow> nat \<Rightarrow> nat \<Rightarrow> nat \<Rightarrow> nat" where
  "fbi_rounds kb 0 depth index = 0"
| "fbi_rounds kb (Suc t) depth index =
     (case seek kb depth index of
        None \<Rightarrow> 0
      | Some (d, i) \<Rightarrow>
          (let (n, j) = read_number kb (d - 1) (i + 23) 1
           in if n < 2 ^ 23 - 1 then n else fbi_rounds kb t d j))"

definition fbi_hash :: "string \<Rightarrow> 64 word" where
  "fbi_hash key = murmur_hash_64a (to_bytes 4 (of_nat (fbi_rounds (key_bit (encode key)) 32 23 23)))"

section \<open>The ring\<close>

record worker =
  w_id :: int
  w_dp_rank :: int

definition virtual_nodes :: nat where
  "virtual_nodes = 160"

definition worker_url :: "string \<Rightarrow> int \<Rightarrow> string" where
  "worker_url backend_url rank = backend_url @ ''@'' @ str_of (HInt rank)"

text \<open>The assignments \<^verbatim>\<open>ring[...] = rank\<close> in the order of the loops; a later one replaces an earlier one.\<close>

definition ring_entries :: "string \<Rightarrow> int list \<Rightarrow> (64 word \<times> int) list" where
  "ring_entries backend_url ranks =
     concat (map (\<lambda>rank. map (\<lambda>ordinal.
         (fbi_hash (worker_url backend_url rank @ '':'' @ str_of (HInt (int ordinal))), rank)) [0..<virtual_nodes]) ranks)"

definition build_ring :: "(64 word \<times> int) list \<Rightarrow> (64 word \<times> int) list" where
  "build_ring entries = fold (\<lambda>(p, r) ring. AList.update p r ring) entries []"

text \<open>\<^verbatim>\<open>bisect_left\<close> of a sorted list.\<close>

definition bisect_left :: "'a :: linorder list \<Rightarrow> 'a \<Rightarrow> nat" where
  "bisect_left xs x = length (takeWhile (\<lambda>y. y < x) xs)"

record router =
  ro_workers :: "(int \<times> worker) list"
  ro_positions :: "64 word list"
  ro_ranks :: "int list"
  ro_sessions :: "(string \<times> int) list"
  ro_request_counts :: "int \<Rightarrow> int"
  ro_session_counts :: "int \<Rightarrow> int"
  ro_backend_url :: string

definition make_router :: "worker list \<Rightarrow> string \<Rightarrow> router result" where
  "make_router workers backend_url =
     (let by_rank = fold (\<lambda>w d. AList.update (w_dp_rank w) w d) workers []
      in if length by_rank \<noteq> length workers \<or> workers = [] then Raise ConfigurationError
         else
           (let ring = build_ring (ring_entries backend_url (map fst by_rank));
                positions = sort (map fst ring)
            in Ok \<lparr>ro_workers = by_rank, ro_positions = positions,
                   ro_ranks = map (\<lambda>p. the (map_of ring p)) positions, ro_sessions = [],
                   ro_request_counts = (\<lambda>_. 0), ro_session_counts = (\<lambda>_. 0), ro_backend_url = backend_url\<rparr>))"

definition rank_for_key :: "router \<Rightarrow> string \<Rightarrow> int" where
  "rank_for_key R key = ro_ranks R ! (bisect_left (ro_positions R) (fbi_hash key) mod length (ro_ranks R))"

text \<open>The fields of a request that routing reads and writes.\<close>

record routed =
  rr_chat_id :: "string option"
  rr_conversation_id :: "string option"
  rr_dp_rank :: "int option"
  rr_routing_worker_id :: "int option"

definition count_up :: "'k \<Rightarrow> ('k \<Rightarrow> int) \<Rightarrow> 'k \<Rightarrow> int" where
  "count_up k f = f(k := f k + 1)"

text \<open>The rank of a session is looked up once.\<close>

definition remember_session :: "string \<Rightarrow> router \<Rightarrow> router" where
  "remember_session session R =
     (case map_of (ro_sessions R) session of
        Some _ \<Rightarrow> R
      | None \<Rightarrow>
          (let rank = rank_for_key R (''header:x-session-id:'' @ session)
           in R\<lparr>ro_sessions := AList.update session rank (ro_sessions R),
                ro_session_counts := count_up rank (ro_session_counts R)\<rparr>))"

definition router_select :: "routed \<Rightarrow> router \<Rightarrow> worker result \<times> routed \<times> router" where
  "router_select q R =
     (case rr_chat_id q of
        None \<Rightarrow> (Raise ConfigurationError, q, R)
      | Some session \<Rightarrow>
          if session = [] then (Raise ConfigurationError, q, R)
          else
            (let R1 = remember_session session R;
                 rank = the (map_of (ro_sessions R1) session);
                 q1 = q\<lparr>rr_dp_rank := Some rank\<rparr>
             in case map_of (ro_workers R1) rank of
                  None \<Rightarrow> (Raise PyKeyError, q1, R1)
                | Some w \<Rightarrow>
                    (Ok w, q1\<lparr>rr_routing_worker_id := Some (w_id w)\<rparr>,
                     R1\<lparr>ro_request_counts := count_up rank (ro_request_counts R1)\<rparr>)))"

definition router_reset_stats :: "router \<Rightarrow> router" where
  "router_reset_stats R = R\<lparr>ro_request_counts := (\<lambda>_. 0), ro_session_counts := (\<lambda>_. 0)\<rparr>"

section \<open>Replaying a recorded mapping\<close>

record fixed_router =
  fx_workers :: "(int \<times> worker) list"
  fx_mapping :: "(string \<times> int) list"
  fx_fallback :: router
  fx_request_counts :: "int \<Rightarrow> int"
  fx_mapped_request_counts :: "int \<Rightarrow> int"
  fx_missing_keys :: "string \<Rightarrow> int"
  fx_session_counts :: "int \<Rightarrow> int"

text \<open>\<^verbatim>\<open>validate_router_mapping\<close> of a mapping from texts to integers.\<close>

definition validate_router_mapping :: "(string \<times> int) list \<Rightarrow> (string \<times> int) list result" where
  "validate_router_mapping mapping = (if \<exists>(k, v) \<in> set mapping. v < 0 then Raise ConfigurationError else Ok mapping)"

definition make_fixed_router :: "worker list \<Rightarrow> (string \<times> int) list \<Rightarrow> string \<Rightarrow> fixed_router result" where
  "make_fixed_router workers mapping backend_url =
     (let by_rank = fold (\<lambda>w d. AList.update (w_dp_rank w) w d) workers []
      in case validate_router_mapping mapping of
           Raise e \<Rightarrow> Raise e
         | Ok m \<Rightarrow>
             if \<exists>(k, rank) \<in> set m. map_of by_rank rank = None then Raise ConfigurationError
             else
               (case make_router workers backend_url of
                  Raise e \<Rightarrow> Raise e
                | Ok R \<Rightarrow> Ok \<lparr>fx_workers = by_rank, fx_mapping = m, fx_fallback = R, fx_request_counts = (\<lambda>_. 0),
                      fx_mapped_request_counts = (\<lambda>_. 0), fx_missing_keys = (\<lambda>_. 0), fx_session_counts = (\<lambda>_. 0)\<rparr>))"

definition fixed_key :: "routed \<Rightarrow> string" where
  "fixed_key q =
     (case rr_conversation_id q of
        Some c \<Rightarrow> if c \<noteq> [] then c else case_option ''None'' (\<lambda>s. s) (rr_chat_id q)
      | None \<Rightarrow> case_option ''None'' (\<lambda>s. s) (rr_chat_id q))"

definition fixed_select :: "routed \<Rightarrow> fixed_router \<Rightarrow> worker result \<times> routed \<times> fixed_router" where
  "fixed_select q F =
     (case map_of (fx_mapping F) (fixed_key q) of
        None \<Rightarrow>
          (let F1 = F\<lparr>fx_missing_keys := count_up (fixed_key q) (fx_missing_keys F)\<rparr>
           in case router_select q (fx_fallback F1) of
                (Raise e, q1, R) \<Rightarrow> (Raise e, q1, F1\<lparr>fx_fallback := R\<rparr>)
              | (Ok w, q1, R) \<Rightarrow>
                  (Ok w, q1, F1\<lparr>fx_fallback := R,
                     fx_request_counts := count_up (w_dp_rank w) (fx_request_counts F1),
                     fx_session_counts := count_up (w_dp_rank w) (fx_session_counts F1)\<rparr>))
      | Some rank \<Rightarrow>
          (case map_of (fx_workers F) rank of
             None \<Rightarrow> (Raise PyKeyError, q\<lparr>rr_dp_rank := Some rank\<rparr>, F)
           | Some w \<Rightarrow>
               (Ok w, q\<lparr>rr_dp_rank := Some rank, rr_routing_worker_id := Some (w_id w)\<rparr>,
                F\<lparr>fx_mapped_request_counts := count_up rank (fx_mapped_request_counts F),
                  fx_request_counts := count_up rank (fx_request_counts F),
                  fx_session_counts := count_up rank (fx_session_counts F)\<rparr>)))"

definition fixed_reset_stats :: "fixed_router \<Rightarrow> fixed_router" where
  "fixed_reset_stats F =
     F\<lparr>fx_request_counts := (\<lambda>_. 0), fx_mapped_request_counts := (\<lambda>_. 0), fx_missing_keys := (\<lambda>_. 0),
       fx_session_counts := (\<lambda>_. 0), fx_fallback := router_reset_stats (fx_fallback F)\<rparr>"

section \<open>The number that is hashed\<close>

lemma seek_depth: "seek kb depth index = Some (d, i) \<Longrightarrow> d \<le> depth"
proof (induction kb depth index rule: seek.induct)
  case (1 kb depth index)
  show ?case
  proof (cases "kb index")
    case True
    then show ?thesis using 1(2) by simp
  next
    case False
    with 1(2) obtain d' where "depth = Suc d'" "seek kb d' d' = Some (d, i)"
      by (subst (asm) seek.simps) (auto split: nat.splits)
    with 1(1) [OF False] show ?thesis by simp
  qed
qed

lemma read_number_bound: "read_number kb k index n = (m, j) \<Longrightarrow> m < 2 ^ k * (n + 1)"
proof (induction k arbitrary: index n)
  case (Suc k)
  then have "m < 2 ^ k * (2 * n + of_bool (kb index) + 1)" by simp
  also have "\<dots> \<le> 2 ^ k * (2 * (n + 1))" by (intro mult_left_mono) auto
  finally show ?case by (simp add: mult.assoc [symmetric] mult.commute)
qed simp

lemma fbi_rounds_bound: "fbi_rounds kb t depth index < 2 ^ 23 - 1"
  by (induction t arbitrary: depth index) (auto split: option.split prod.split)

lemma fbi_rounds_last:
  assumes "seek kb depth index = Some (d, i)" "depth \<le> 23" "read_number kb (d - 1) (i + 23) 1 = (n, j)"
  shows "n < 2 ^ 23"
proof -
  have d: "d \<le> 23" using seek_depth [OF assms(1)] assms(2) by simp
  have "n < 2 ^ (d - 1) * 2" using read_number_bound [OF assms(3)] by simp
  also have "\<dots> \<le> 2 ^ 22 * (2 :: nat)" using d by (intro mult_right_mono power_increasing) auto
  finally show ?thesis by simp
qed

section \<open>The owner of a key\<close>

lemma build_ring_snoc: "build_ring (es @ [(p, r)]) = AList.update p r (build_ring es)"
  by (simp add: build_ring_def)

lemma map_of_build_ring: "map_of (build_ring es) = map_of (rev es)"
proof (induction es rule: rev_induct)
  case (snoc e es)
  then show ?case by (cases e) (simp add: build_ring_snoc)
qed (simp add: build_ring_def)

lemma distinct_build_ring: "distinct (map fst (build_ring es))"
proof (induction es rule: rev_induct)
  case (snoc e es)
  then show ?case by (cases e) (simp add: build_ring_snoc)
qed (simp add: build_ring_def)

lemma set_build_ring: "set (map fst (build_ring es)) = dom (map_of (rev es))"
  by (simp add: map_of_build_ring [symmetric] dom_map_of_conv_image_fst)

text \<open>The first position at or after a hash, and the first position of all after the last one.\<close>

definition next_position :: "64 word set \<Rightarrow> 64 word \<Rightarrow> 64 word" where
  "next_position P x = (if \<exists>p \<in> P. x \<le> p then Min {p \<in> P. x \<le> p} else Min P)"

lemma bisect_next:
  assumes "sorted ps" "ps \<noteq> []"
  shows "ps ! (bisect_left ps x mod length ps) = next_position (set ps) x"
proof (cases "\<exists>p \<in> set ps. x \<le> p")
  case True
  define k where "k = bisect_left ps x"
  obtain q where "q \<in> set ps" "\<not> q < x" using True by auto
  then have "takeWhile (\<lambda>y. y < x) ps \<noteq> ps" by (metis set_takeWhileD)
  then have k: "k < length ps" unfolding k_def bisect_left_def
    by (metis length_takeWhile_le nat_less_le takeWhile_eq_take take_all_iff)
  have ge: "x \<le> ps ! k" using nth_length_takeWhile [of "\<lambda>y. y < x" ps] k by (simp add: k_def bisect_left_def)
  have "Min {p \<in> set ps. x \<le> p} = ps ! k"
  proof (rule Min_eqI)
    fix y assume "y \<in> {p \<in> set ps. x \<le> p}"
    then obtain j where j: "j < length ps" "y = ps ! j" "x \<le> y" by (auto simp: in_set_conv_nth)
    have "k \<le> j"
    proof (rule ccontr)
      assume "\<not> k \<le> j"
      then have "ps ! j \<in> set (takeWhile (\<lambda>y. y < x) ps)"
        by (metis k_def bisect_left_def not_le nth_mem takeWhile_nth)
      then show False using j set_takeWhileD by fastforce
    qed
    then show "ps ! k \<le> y" using sorted_nth_mono [OF assms(1)] j by simp
  qed (use ge k in auto)
  then show ?thesis using True k by (simp add: next_position_def k_def)
next
  case False
  then have all: "takeWhile (\<lambda>y. y < x) ps = ps" by (auto simp: not_le takeWhile_eq_all_conv)
  have "bisect_left ps x mod length ps = 0" unfolding bisect_left_def all by simp
  moreover have "Min (set ps) = ps ! 0"
    using assms by (intro Min_eqI) (auto simp: in_set_conv_nth intro: sorted_nth_mono)
  ultimately show ?thesis using False by (auto simp: next_position_def)
qed

lemma next_position_in: "finite P \<Longrightarrow> P \<noteq> {} \<Longrightarrow> next_position P x \<in> P"
  using Min_in [of "{p \<in> P. x \<le> p}"] Min_in [of P] by (auto simp: next_position_def)

lemma next_position_subset:
  assumes "finite P" "Q \<subseteq> P" "next_position P x \<in> Q"
  shows "next_position Q x = next_position P x"
proof (cases "\<exists>p \<in> P. x \<le> p")
  case True
  let ?m = "Min {p \<in> P. x \<le> p}"
  have m: "?m \<in> {p \<in> P. x \<le> p}" using True assms(1) by (intro Min_in) auto
  have q: "?m \<in> Q" using assms(3) True by (simp add: next_position_def)
  have "Min {p \<in> Q. x \<le> p} = ?m"
    by (rule Min_eqI) (use assms(1,2) m q in \<open>auto intro: Min_le finite_subset\<close>)
  then show ?thesis using True m q by (auto simp: next_position_def)
next
  case False
  then have "Min P \<in> Q" using assms(3) by (simp add: next_position_def)
  then have "Min Q = Min P" using assms(1,2) by (intro Min_eqI) (auto intro: Min_le finite_subset)
  then show ?thesis using False assms(2) by (auto simp: next_position_def)
qed

text \<open>The owner of a hash on the ring of the given ranks.\<close>

definition ring_owner :: "(64 word \<times> int) list \<Rightarrow> 64 word \<Rightarrow> int" where
  "ring_owner es x = the (map_of (rev es) (next_position (dom (map_of (rev es))) x))"

lemma by_rank_distinct:
  assumes "length (fold (\<lambda>w d. AList.update (f w) w d) ws []) = length ws"
  shows "distinct (map f ws) \<and> fold (\<lambda>w d. AList.update (f w) w d) ws [] = map (\<lambda>w. (f w, w)) ws"
proof -
  have facts: "distinct (map fst (fold (\<lambda>w d. AList.update (f w) w d) ws [])) \<and>
      set (map fst (fold (\<lambda>w d. AList.update (f w) w d) ws [])) = f ` set ws" for ws
    by (induction ws rule: rev_induct) (auto simp: dom_update)
  have "card (f ` set ws) = length ws"
    using facts [of ws] assms distinct_card by (metis length_map)
  then have d: "distinct (map f ws)" by (intro card_distinct) simp
  moreover have "distinct (map f ws) \<Longrightarrow> fold (\<lambda>w d. AList.update (f w) w d) ws [] = map (\<lambda>w. (f w, w)) ws"
  proof (induction ws rule: rev_induct)
    case (snoc w ws)
    then have "map_of (map (\<lambda>w. (f w, w)) ws) (f w) = None" by (auto simp: map_of_eq_None_iff)
    with snoc show ?case by (simp add: dict_set_new)
  qed simp
  ultimately show ?thesis by blast
qed

lemma make_routerD:
  assumes "make_router ws url = Ok R"
  shows "ws \<noteq> []" "distinct (map w_dp_rank ws)" "ro_workers R = map (\<lambda>w. (w_dp_rank w, w)) ws"
    "ro_sessions R = []" "rank_for_key R key = ring_owner (ring_entries url (map w_dp_rank ws)) (fbi_hash key)"
proof -
  define es where "es = ring_entries url (map w_dp_rank ws)"
  from assms have b: "distinct (map w_dp_rank ws) \<and>
      fold (\<lambda>w d. AList.update (w_dp_rank w) w d) ws [] = map (\<lambda>w. (w_dp_rank w, w)) ws"
    by (intro by_rank_distinct) (auto simp: make_router_def Let_def split: if_splits)
  then show d: "distinct (map w_dp_rank ws)" by simp
  define ps where "ps = sort (map fst (build_ring es))"
  have R: "ws \<noteq> []" "R = \<lparr>ro_workers = map (\<lambda>w. (w_dp_rank w, w)) ws, ro_positions = ps,
      ro_ranks = map (\<lambda>p. the (map_of (build_ring es) p)) ps, ro_sessions = [],
      ro_request_counts = (\<lambda>_. 0), ro_session_counts = (\<lambda>_. 0), ro_backend_url = url\<rparr>"
    using assms b by (auto simp: make_router_def Let_def es_def ps_def o_def split: if_splits)
  then show "ws \<noteq> []" "ro_workers R = map (\<lambda>w. (w_dp_rank w, w)) ws" "ro_sessions R = []" by simp_all
  have sort: "sorted ps" by (simp add: ps_def)
  have set: "set ps = dom (map_of (rev es))" using set_build_ring [of es] by (simp add: ps_def)
  obtain w ws' where ws: "ws = w # ws'" using R(1) by (cases ws) auto
  have "es \<noteq> []" by (simp add: es_def ws ring_entries_def virtual_nodes_def)
  then have ne: "ps \<noteq> []" using set by (auto simp: map_of_eq_None_iff dom_map_of_conv_image_fst)
  have "bisect_left ps (fbi_hash key) mod length ps < length ps" using ne by simp
  then have "rank_for_key R key = the (map_of (build_ring es) (ps ! (bisect_left ps (fbi_hash key) mod length ps)))"
    by (simp add: rank_for_key_def R(2))
  also have "\<dots> = ring_owner es (fbi_hash key)"
    using bisect_next [of ps] ne by (simp add: sort set ring_owner_def map_of_build_ring)
  finally show "rank_for_key R key = ring_owner (ring_entries url (map w_dp_rank ws)) (fbi_hash key)" by (simp add: es_def)
qed

lemma ring_owner_entry:
  assumes "es \<noteq> []"
  shows "\<exists>p. (p, ring_owner es x) \<in> set es"
proof -
  have "dom (map_of (rev es)) \<noteq> {}" using assms by (simp add: dom_map_of_conv_image_fst)
  with next_position_in [OF finite_dom_map_of this, of x] obtain r where
    "map_of (rev es) (next_position (dom (map_of (rev es))) x) = Some r" by auto
  then show ?thesis using map_of_SomeD [of "rev es"] by (auto simp: ring_owner_def)
qed

lemma map_of_filter_value:
  "map_of (filter (\<lambda>(p, q). q \<noteq> r) es) p = Some q \<Longrightarrow> p \<in> dom (map_of es)"
  "map_of es p = Some q \<Longrightarrow> q \<noteq> r \<Longrightarrow> map_of (filter (\<lambda>(p, q). q \<noteq> r) es) p = Some q"
  by (induction es) (auto split: if_splits)

lemma ring_owner_removal:
  assumes "es \<noteq> []" "ring_owner es x \<noteq> r"
  shows "ring_owner (filter (\<lambda>(p, q). q \<noteq> r) es) x = ring_owner es x"
proof -
  define m m' where "m = map_of (rev es)" and "m' = map_of (rev (filter (\<lambda>(p, q). q \<noteq> r) es))"
  have sub: "dom m' \<subseteq> dom m" by (auto simp: m_def m'_def rev_filter dest: map_of_filter_value(1))
  have fin: "finite (dom m)" "dom m \<noteq> {}" using assms(1) by (simp_all add: m_def dom_map_of_conv_image_fst)
  define p where "p = next_position (dom m) x"
  obtain q where q: "m p = Some q" using next_position_in [OF fin, of x] by (auto simp: p_def)
  then have "q \<noteq> r" using assms(2) by (simp add: ring_owner_def m_def [symmetric] p_def [symmetric])
  with q have m'p: "m' p = Some q" by (simp add: m_def m'_def rev_filter map_of_filter_value(2))
  then have "next_position (dom m') x = p" using next_position_subset [OF fin(1) sub] by (auto simp: p_def)
  with q m'p show ?thesis by (simp add: ring_owner_def m_def [symmetric] m'_def [symmetric] p_def [symmetric])
qed

lemma ring_entries_filter:
  "ring_entries url (filter (\<lambda>k. k \<noteq> r) ranks) = filter (\<lambda>(p, q). q \<noteq> r) (ring_entries url ranks)"
proof (induction ranks)
  case (Cons k ranks)
  have "filter (\<lambda>(p, q). q \<noteq> r) (map (\<lambda>n. (g n, k)) ns) = (if k = r then [] else map (\<lambda>n. (g n, k)) ns)"
    for g :: "nat \<Rightarrow> 64 word" and ns by (induction ns) auto
  with Cons show ?case by (simp add: ring_entries_def)
qed (simp add: ring_entries_def)

lemma rank_for_key_worker:
  assumes "make_router ws url = Ok R"
  shows "\<exists>w \<in> set ws. w_dp_rank w = rank_for_key R key"
proof -
  have "ring_entries url (map w_dp_rank ws) \<noteq> []"
    using make_routerD(1) [OF assms] by (cases ws) (simp_all add: ring_entries_def virtual_nodes_def)
  from ring_owner_entry [OF this, of "fbi_hash key"] show ?thesis
    unfolding make_routerD(5) [OF assms] by (auto simp: ring_entries_def)
qed

section \<open>The life of a router\<close>

text \<open>Any sequence of routed requests and resets of the statistics.\<close>

inductive router_run :: "router \<Rightarrow> router \<Rightarrow> bool" for R0 where
  start: "router_run R0 R0"
| route: "router_run R0 R \<Longrightarrow> router_select q R = (res, q', R') \<Longrightarrow> router_run R0 R'"
| reset: "router_run R0 R \<Longrightarrow> router_run R0 (router_reset_stats R)"

definition session_key :: "string \<Rightarrow> string" where
  "session_key session = ''header:x-session-id:'' @ session"

definition router_inv :: "router \<Rightarrow> router \<Rightarrow> bool" where
  "router_inv R0 R \<longleftrightarrow> ro_workers R = ro_workers R0 \<and> ro_positions R = ro_positions R0 \<and> ro_ranks R = ro_ranks R0 \<and>
     (\<forall>s. map_of (ro_sessions R) s \<in> {None, Some (rank_for_key R0 (session_key s))})"

lemma router_select_sound:
  assumes made: "make_router ws url = Ok R0" and inv: "router_inv R0 R"
  shows "rr_chat_id q = Some s \<Longrightarrow> s \<noteq> [] \<Longrightarrow>
      \<exists>w R'. router_select q R = (Ok w, q\<lparr>rr_dp_rank := Some (w_dp_rank w), rr_routing_worker_id := Some (w_id w)\<rparr>, R') \<and>
        w \<in> set ws \<and> w_dp_rank w = rank_for_key R0 (session_key s) \<and> router_inv R0 R'"
    and "rr_chat_id q = None \<or> rr_chat_id q = Some [] \<Longrightarrow> router_select q R = (Raise ConfigurationError, q, R)"
proof -
  assume q: "rr_chat_id q = Some s" "s \<noteq> []"
  define rank where "rank = rank_for_key R0 (session_key s)"
  have key: "rank_for_key R k = rank_for_key R0 k" for k using inv by (simp add: router_inv_def rank_for_key_def)
  obtain w where w: "w \<in> set ws" "w_dp_rank w = rank" using rank_for_key_worker [OF made] by (auto simp: rank_def)
  have look: "map_of (ro_workers R) rank = Some w"
    using inv w make_routerD(2,3) [OF made] by (auto simp: router_inv_def intro!: map_of_is_SomeI simp: o_def)
  have sess: "map_of (ro_sessions R) s = None \<or> map_of (ro_sessions R) s = Some rank"
    using inv by (auto simp: router_inv_def rank_def)
  define R1 where "R1 = remember_session s R"
  have R1: "router_inv R0 R1" "map_of (ro_sessions R1) s = Some rank" "map_of (ro_workers R1) rank = Some w"
    using sess inv look
    unfolding R1_def remember_session_def Let_def key session_key_def [symmetric]
    by (auto simp: router_inv_def rank_def split: option.split) (metis option.distinct(1) option.inject)
  define R2 where "R2 = R1\<lparr>ro_request_counts := count_up rank (ro_request_counts R1)\<rparr>"
  have "router_inv R0 R2" using R1(1) by (simp add: router_inv_def R2_def)
  moreover have "router_select q R = (Ok w, q\<lparr>rr_dp_rank := Some rank, rr_routing_worker_id := Some (w_id w)\<rparr>, R2)"
    unfolding router_select_def using q R1(2,3)
    by (simp add: Let_def R1_def [symmetric] R2_def)
  ultimately show "\<exists>w R'. router_select q R = (Ok w, q\<lparr>rr_dp_rank := Some (w_dp_rank w), rr_routing_worker_id := Some (w_id w)\<rparr>, R') \<and>
        w \<in> set ws \<and> w_dp_rank w = rank_for_key R0 (session_key s) \<and> router_inv R0 R'"
    using w by (auto simp: rank_def)
next
  assume "rr_chat_id q = None \<or> rr_chat_id q = Some []"
  then show "router_select q R = (Raise ConfigurationError, q, R)" by (auto simp: router_select_def)
qed

lemma router_run_inv:
  assumes "make_router ws url = Ok R0" "router_run R0 R"
  shows "router_inv R0 R"
  using assms(2)
proof (induction rule: router_run.induct)
  case start
  then show ?case using make_routerD(4) [OF assms(1)] by (simp add: router_inv_def)
next
  case (route R q res q' R')
  show ?case
  proof (cases "rr_chat_id q = None \<or> rr_chat_id q = Some []")
    case True
    then show ?thesis using router_select_sound(2) [OF assms(1) route.IH True] route by simp
  next
    case False
    then obtain s where "rr_chat_id q = Some s" "s \<noteq> []" by auto
    from router_select_sound(1) [OF assms(1) route.IH this] route(2) show ?thesis by auto
  qed
next
  case (reset R)
  then show ?case by (simp add: router_inv_def router_reset_stats_def)
qed

section \<open>Properties\<close>

text \<open>
  C20. Conversations stay on their replica: whatever was routed before, a request with a session id goes to a
  worker of the router, always the same one for the same session, which depends on the session and the ring
  only; a request without a session id is refused and changes nothing.
\<close>

theorem session_affinity:
  assumes "make_router ws url = Ok R0" and "router_run R0 R"
  shows "(\<forall>q s. rr_chat_id q = Some s \<and> s \<noteq> [] \<longrightarrow>
      (\<exists>w R'. router_select q R = (Ok w, q\<lparr>rr_dp_rank := Some (w_dp_rank w), rr_routing_worker_id := Some (w_id w)\<rparr>, R') \<and>
        w \<in> set ws \<and> w_dp_rank w = rank_for_key R0 (session_key s))) \<and>
    (\<forall>q. rr_chat_id q = None \<or> rr_chat_id q = Some [] \<longrightarrow> router_select q R = (Raise ConfigurationError, q, R))"
  using router_select_sound [OF assms(1) router_run_inv [OF assms]] by blast

text \<open>
  C19. The hash ring is consistent: taking one replica out moves only the keys that were on it; every other key
  keeps its replica.
\<close>

theorem removal_moves_only_its_keys:
  assumes "make_router ws url = Ok R" and "make_router (filter (\<lambda>w. w_dp_rank w \<noteq> r) ws) url = Ok R'"
    and "rank_for_key R key \<noteq> r"
  shows "rank_for_key R' key = rank_for_key R key"
proof -
  have "ring_entries url (map w_dp_rank ws) \<noteq> []"
    using make_routerD(1) [OF assms(1)] by (cases ws) (simp_all add: ring_entries_def virtual_nodes_def)
  moreover have "map w_dp_rank (filter (\<lambda>w. w_dp_rank w \<noteq> r) ws) = filter (\<lambda>k. k \<noteq> r) (map w_dp_rank ws)"
    by (simp add: filter_map o_def)
  ultimately show ?thesis
    using ring_owner_removal assms(3) unfolding make_routerD(5) [OF assms(1)] make_routerD(5) [OF assms(2)]
    by (simp add: ring_entries_filter)
qed

definition sample_workers :: "worker list" where
  "sample_workers = [\<lparr>w_id = 0, w_dp_rank = 0\<rparr>, \<lparr>w_id = 4, w_dp_rank = 1\<rparr>]"

lemma sample_router:
  "\<exists>R. make_router sample_workers ''http'' = Ok R" "\<exists>R. make_router (filter (\<lambda>w. w_dp_rank w \<noteq> 0) sample_workers) ''http'' = Ok R"
  by (simp_all add: make_router_def sample_workers_def Let_def)

definition sample_routed :: routed where
  "sample_routed = \<lparr>rr_chat_id = Some ''chat'', rr_conversation_id = None, rr_dp_rank = None, rr_routing_worker_id = None\<rparr>"

theorem session_affinity_witness:
  "\<exists>R w. make_router sample_workers ''http'' = Ok R \<and> fst (router_select sample_routed R) = Ok w \<and> w \<in> set sample_workers"
proof -
  obtain R where R: "make_router sample_workers ''http'' = Ok R" using sample_router(1) by blast
  have "rr_chat_id sample_routed = Some ''chat''" by (simp add: sample_routed_def)
  with session_affinity [OF R start] obtain w q' R' where "router_select sample_routed R = (Ok w, q', R')" "w \<in> set sample_workers"
    by (metis list.distinct(1))
  with R show ?thesis by auto
qed

lemma ring_owner_last: "ring_owner (es @ [(p, r)]) p = r"
proof -
  define m where "m = map_of (rev (es @ [(p, r)]))"
  have m: "m p = Some r" "finite (dom m)" by (simp_all add: m_def)
  have "Min {q \<in> dom m. p \<le> q} = p" by (rule Min_eqI) (use m in auto)
  then have "next_position (dom m) p = p" using m(1) by (auto simp: next_position_def)
  then show ?thesis unfolding ring_owner_def m_def [symmetric] by (simp add: m(1))
qed

lemma sample_key: "make_router sample_workers ''http'' = Ok R \<Longrightarrow> rank_for_key R ''http@1:159'' = 1"
proof -
  assume R: "make_router sample_workers ''http'' = Ok R"
  have key: "worker_url ''http'' 1 @ '':'' @ str_of (HInt (int 159)) = ''http@1:159''" by code_simp
  have "virtual_nodes = Suc 159" by (simp add: virtual_nodes_def)
  with upt_Suc_append [of 0 159] have "[0..<virtual_nodes] = [0..<159] @ [159]" by (simp only: le0)
  then have "ring_entries ''http'' [0, 1] = (map (\<lambda>n. (fbi_hash (worker_url ''http'' 0 @ '':'' @ str_of (HInt (int n))), 0)) [0..<virtual_nodes] @
      map (\<lambda>n. (fbi_hash (worker_url ''http'' 1 @ '':'' @ str_of (HInt (int n))), 1)) [0..<159]) @ [(fbi_hash ''http@1:159'', 1)]"
    unfolding ring_entries_def key [symmetric] by (simp only: map_append list.map concat.simps append_assoc append_Nil append_Nil2)
  then show ?thesis
    unfolding make_routerD(5) [OF R] by (simp only: sample_workers_def list.map worker.simps ring_owner_last)
qed

theorem removal_moves_only_its_keys_witness:
  "\<exists>R R'. make_router sample_workers ''http'' = Ok R \<and> make_router (filter (\<lambda>w. w_dp_rank w \<noteq> 0) sample_workers) ''http'' = Ok R' \<and>
     rank_for_key R ''http@1:159'' = 1 \<and> rank_for_key R' ''http@1:159'' = 1"
proof -
  obtain R R' where R: "make_router sample_workers ''http'' = Ok R"
    "make_router (filter (\<lambda>w. w_dp_rank w \<noteq> 0) sample_workers) ''http'' = Ok R'" using sample_router by blast
  have "rank_for_key R ''http@1:159'' \<noteq> 0" by (simp add: sample_key [OF R(1)])
  from removal_moves_only_its_keys [OF R this] R sample_key [OF R(1)] show ?thesis by auto
qed

end
