(* ===== verification/Worker_Pool.thy ===== *)
theory Worker_Pool
  imports Consistent_Hash "HOL-Library.Product_Lexorder" Complex_Main
begin

text \<open>
  Placement of requests on workers (\<^verbatim>\<open>src/TokenSim/placement/policies.py\<close>): the three policies for a group
  of workers, and the pool that spreads requests over data-parallel groups. What a policy reads of a worker's
  state is its load, a parameter of each decision.
\<close>

section \<open>Loads\<close>

text \<open>\<^verbatim>\<open>WorkerLoad\<close>, ordered by its fields in turn.\<close>

datatype worker_load =
  WorkerLoad (active_requests: int) (gpu_memory_percent: real) (cpu_transfer_gb: real) (load_worker_id: int)

definition load_fields :: "worker_load \<Rightarrow> int \<times> real \<times> real \<times> int" where
  "load_fields l = (active_requests l, gpu_memory_percent l, cpu_transfer_gb l, load_worker_id l)"

lemma load_fields_inject [simp]: "load_fields a = load_fields b \<longleftrightarrow> a = b"
  by (cases a; cases b) (simp add: load_fields_def)

instantiation worker_load :: linorder
begin

definition less_eq_worker_load :: "worker_load \<Rightarrow> worker_load \<Rightarrow> bool" where
  "less_eq_worker_load a b \<longleftrightarrow> load_fields a \<le> load_fields b"

definition less_worker_load :: "worker_load \<Rightarrow> worker_load \<Rightarrow> bool" where
  "less_worker_load a b \<longleftrightarrow> load_fields a < load_fields b"

instance
proof
  fix a b c :: worker_load
  show "a \<le> a" by (simp add: less_eq_worker_load_def)
  show "a \<le> b \<Longrightarrow> b \<le> c \<Longrightarrow> a \<le> c" unfolding less_eq_worker_load_def by (rule order_trans)
  show "a \<le> b \<Longrightarrow> b \<le> a \<Longrightarrow> a = b" unfolding less_eq_worker_load_def by (drule (1) antisym) simp
  show "a \<le> b \<or> b \<le> a" unfolding less_eq_worker_load_def by (rule linear)
  show "(a < b) = (a \<le> b \<and> \<not> b \<le> a)" unfolding less_eq_worker_load_def less_worker_load_def by (rule less_le_not_le)
qed

end

text \<open>\<^verbatim>\<open>min(workers, key=...)\<close> of a list that is not empty: the first of the least elements.\<close>

definition first_min :: "('a \<Rightarrow> 'k :: linorder) \<Rightarrow> 'a list \<Rightarrow> 'a" where
  "first_min key xs = foldl (\<lambda>m x. if key x < key m then x else m) (hd xs) (tl xs)"

section \<open>A group of workers\<close>

datatype pool_kind = RoundRobinWorkerPool | LeastGpuMemoryWorkerPool | BalancedLoadWorkerPool

record wpool =
  wp_workers :: "worker list"
  wp_start_idx :: int
  wp_decisions :: int
  wp_cur_idx :: nat

definition make_pool :: "worker list \<Rightarrow> wpool result" where
  "make_pool ws =
     (case ws of
        [] \<Rightarrow> Raise ConfigurationError
      | w # _ \<Rightarrow> Ok \<lparr>wp_workers = ws, wp_start_idx = w_id w, wp_decisions = 0, wp_cur_idx = 0\<rparr>)"

definition pool_schedule :: "pool_kind \<Rightarrow> (worker \<Rightarrow> worker_load) \<Rightarrow> wpool \<Rightarrow> worker \<times> wpool" where
  "pool_schedule kind loads P =
     (case kind of
        RoundRobinWorkerPool \<Rightarrow>
          (wp_workers P ! wp_cur_idx P, P\<lparr>wp_cur_idx := (wp_cur_idx P + 1) mod length (wp_workers P)\<rparr>)
      | LeastGpuMemoryWorkerPool \<Rightarrow> (first_min (\<lambda>w. gpu_memory_percent (loads w)) (wp_workers P), P)
      | BalancedLoadWorkerPool \<Rightarrow> (first_min loads (wp_workers P), P))"

definition pool_select :: "pool_kind \<Rightarrow> (worker \<Rightarrow> worker_load) \<Rightarrow> wpool \<Rightarrow> worker \<times> wpool" where
  "pool_select kind loads P = pool_schedule kind loads (P\<lparr>wp_decisions := wp_decisions P + 1\<rparr>)"

text \<open>\<^verbatim>\<open>self.workers[id - self.start_idx]\<close>, where a negative index counts from the end.\<close>

definition pool_get :: "int \<Rightarrow> wpool \<Rightarrow> worker result" where
  "pool_get i P =
     (let k = i - wp_start_idx P; n = int (length (wp_workers P))
      in if 0 \<le> k \<and> k < n then Ok (wp_workers P ! nat k)
         else if - n \<le> k \<and> k < 0 then Ok (wp_workers P ! nat (n + k))
         else Raise PyIndexError)"

definition pool_len :: "wpool \<Rightarrow> nat" where
  "pool_len P = length (wp_workers P)"

section \<open>Data-parallel groups\<close>

record dp_pool =
  dp_workers :: "worker list"
  dp_start_idx :: int
  dp_decisions :: int
  dp_kind :: pool_kind
  dp_groups :: "(int \<times> wpool) list"
  dp_ranks :: "int list"
  cur_dp_idx :: nat
  dp_placement_counts :: "int \<Rightarrow> int"
  sticky_sessions :: bool
  affinity_to_rank :: "(string \<times> int) list"

definition group_by_rank :: "worker list \<Rightarrow> (int \<times> worker list) list" where
  "group_by_rank ws =
     fold (\<lambda>w d. AList.update (w_dp_rank w) (case_option [] (\<lambda>g. g) (map_of d (w_dp_rank w)) @ [w]) d) ws []"

definition make_group :: "worker list \<Rightarrow> wpool" where
  "make_group g = \<lparr>wp_workers = g, wp_start_idx = w_id (hd g), wp_decisions = 0, wp_cur_idx = 0\<rparr>"

definition make_dp_pool :: "worker list \<Rightarrow> pool_kind \<Rightarrow> bool \<Rightarrow> dp_pool result" where
  "make_dp_pool ws kind sticky =
     (case ws of
        [] \<Rightarrow> Raise ConfigurationError
      | w # _ \<Rightarrow>
          (let groups = map (\<lambda>(r, g). (r, make_group g)) (sort_key fst (group_by_rank ws))
           in Ok \<lparr>dp_workers = ws, dp_start_idx = w_id w, dp_decisions = 0, dp_kind = kind, dp_groups = groups,
                  dp_ranks = sort (map fst groups), cur_dp_idx = 0, dp_placement_counts = (\<lambda>_. 0),
                  sticky_sessions = sticky, affinity_to_rank = []\<rparr>))"

text \<open>\<^verbatim>\<open>group_pools[rank].schedule()\<close>.\<close>

definition group_schedule :: "(worker \<Rightarrow> worker_load) \<Rightarrow> int \<Rightarrow> dp_pool \<Rightarrow> worker \<times> dp_pool" where
  "group_schedule loads rank D =
     (let (w, P) = pool_schedule (dp_kind D) loads (the (map_of (dp_groups D) rank))
      in (w, D\<lparr>dp_groups := AList.update rank P (dp_groups D)\<rparr>))"

definition next_group_pool :: "dp_pool \<Rightarrow> int \<times> dp_pool" where
  "next_group_pool D =
     (dp_ranks D ! cur_dp_idx D, D\<lparr>cur_dp_idx := (cur_dp_idx D + 1) mod length (dp_ranks D)\<rparr>)"

definition record_placement :: "worker \<Rightarrow> dp_pool \<Rightarrow> dp_pool" where
  "record_placement w D = D\<lparr>dp_placement_counts := count_up (w_dp_rank w) (dp_placement_counts D)\<rparr>"

definition dp_select :: "(worker \<Rightarrow> worker_load) \<Rightarrow> dp_pool \<Rightarrow> worker \<times> dp_pool" where
  "dp_select loads D =
     (let (rank, D1) = next_group_pool D; (w, D2) = group_schedule loads rank D1
      in (w, record_placement w D2))"

text \<open>The session key of a request, when sessions stick and the request has one.\<close>

definition affinity_key :: "dp_pool \<Rightarrow> routed option \<Rightarrow> string option" where
  "affinity_key D q =
     (if sticky_sessions D then
        (case q of None \<Rightarrow> None | Some r \<Rightarrow> (case rr_chat_id r of Some (c # s) \<Rightarrow> Some (c # s) | _ \<Rightarrow> None))
      else None)"

definition known_rank :: "dp_pool \<Rightarrow> int option \<Rightarrow> bool" where
  "known_rank D r \<longleftrightarrow> (case r of None \<Rightarrow> False | Some k \<Rightarrow> map_of (dp_groups D) k \<noteq> None)"

definition wanted_rank :: "dp_pool \<Rightarrow> routed option \<Rightarrow> int option" where
  "wanted_rank D q =
     (let r = (case q of None \<Rightarrow> None | Some r \<Rightarrow> rr_dp_rank r)
      in if \<not> known_rank D r \<and> affinity_key D q \<noteq> None then map_of (affinity_to_rank D) (the (affinity_key D q)) else r)"

text \<open>\<^verbatim>\<open>dict.setdefault\<close>, which writes without the subclass's \<^verbatim>\<open>__setitem__\<close>.\<close>

definition set_default :: "'k \<Rightarrow> 'v \<Rightarrow> ('k \<times> 'v) list \<Rightarrow> ('k \<times> 'v) list" where
  "set_default k v d = (if map_of d k = None then AList.update k v d else d)"

definition pick_worker :: "(worker \<Rightarrow> worker_load) \<Rightarrow> routed option \<Rightarrow> dp_pool \<Rightarrow> worker \<times> dp_pool" where
  "pick_worker loads q D =
     (let wanted = wanted_rank D q
      in if known_rank D wanted then group_schedule loads (the wanted) D
         else let (rank, D0) = next_group_pool D in group_schedule loads rank D0)"

definition select_for_request ::
  "(worker \<Rightarrow> worker_load) \<Rightarrow> routed option \<Rightarrow> bool \<Rightarrow> dp_pool \<Rightarrow> worker \<times> routed option \<times> dp_pool" where
  "select_for_request loads q assign_new D =
     (let (w, D1) = pick_worker loads q D;
          D2 = record_placement w D1
      in case q of
           None \<Rightarrow> (w, None, D2)
         | Some r \<Rightarrow>
             if assign_new \<or> rr_dp_rank r = None then
               (w, Some (r\<lparr>rr_dp_rank := Some (w_dp_rank w)\<rparr>),
                case affinity_key D q of
                  None \<Rightarrow> D2
                | Some k \<Rightarrow> D2\<lparr>affinity_to_rank := set_default k (w_dp_rank w) (affinity_to_rank D2)\<rparr>)
             else (w, q, D2))"

definition count_decision :: "worker \<times> routed option \<times> dp_pool \<Rightarrow> worker \<times> routed option \<times> dp_pool" where
  "count_decision r = (let (w, q, D) = r in (w, q, D\<lparr>dp_decisions := dp_decisions D + 1\<rparr>))"

definition select_prefill_worker :: "(worker \<Rightarrow> worker_load) \<Rightarrow> routed option \<Rightarrow> dp_pool \<Rightarrow> worker \<times> routed option \<times> dp_pool" where
  "select_prefill_worker loads q D = count_decision (select_for_request loads q True D)"

definition select_decode_worker :: "(worker \<Rightarrow> worker_load) \<Rightarrow> routed option \<Rightarrow> dp_pool \<Rightarrow> worker \<times> routed option \<times> dp_pool" where
  "select_decode_worker loads q D = count_decision (select_for_request loads q False D)"

definition select_transfer_target :: "(worker \<Rightarrow> worker_load) \<Rightarrow> routed list \<Rightarrow> dp_pool \<Rightarrow> worker \<times> routed option \<times> dp_pool" where
  "select_transfer_target loads qs D =
     count_decision (select_for_request loads (case qs of [] \<Rightarrow> None | r # _ \<Rightarrow> Some r) False D)"

section \<open>One decision\<close>

lemma first_min_first:
  assumes "xs \<noteq> []"
  shows "\<exists>i < length xs. first_min key xs = xs ! i \<and> (\<forall>x \<in> set xs. key (xs ! i) \<le> key x) \<and> (\<forall>j < i. key (xs ! i) < key (xs ! j))"
  using assms
proof (induction xs rule: rev_nonempty_induct)
  case (single x)
  then show ?case by (simp add: first_min_def)
next
  case (snoc x xs)
  then obtain i where i: "i < length xs" "first_min key xs = xs ! i" "\<forall>y \<in> set xs. key (xs ! i) \<le> key y"
    "\<forall>j < i. key (xs ! i) < key (xs ! j)" by blast
  have step: "first_min key (xs @ [x]) = (if key x < key (xs ! i) then x else xs ! i)"
    using snoc.hyps i(2) by (simp add: first_min_def)
  show ?case
  proof (cases "key x < key (xs ! i)")
    case True
    then have "\<forall>y \<in> set xs. key x < key y" using i(3) by fastforce
    then show ?thesis using True by (intro exI [of _ "length xs"]) (auto simp: step nth_append intro: less_imp_le)
  next
    case False
    then show ?thesis using i by (intro exI [of _ i]) (auto simp: step nth_append)
  qed
qed

lemma first_min_props:
  assumes "xs \<noteq> []"
  shows "first_min key xs \<in> set xs" "\<forall>x \<in> set xs. key (first_min key xs) \<le> key x"
proof -
  have loop: "foldl (\<lambda>m x. if key x < key m then x else m) m xs \<in> insert m (set xs) \<and>
      (\<forall>x \<in> insert m (set xs). key (foldl (\<lambda>m x. if key x < key m then x else m) m xs) \<le> key x)" for m xs
  proof (induction xs arbitrary: m)
    case (Cons x xs)
    show ?case using Cons.IH [of "if key x < key m then x else m"] by (auto simp: not_less split: if_splits intro: order_trans)
  qed simp
  obtain y ys where "xs = y # ys" using assms by (cases xs) auto
  with loop [of y ys] show "first_min key xs \<in> set xs" "\<forall>x \<in> set xs. key (first_min key xs) \<le> key x"
    by (auto simp: first_min_def)
qed

definition pool_ok :: "worker list \<Rightarrow> wpool \<Rightarrow> bool" where
  "pool_ok ws P \<longleftrightarrow> wp_workers P = ws \<and> ws \<noteq> [] \<and> wp_cur_idx P < length ws"

lemma pool_schedule_ok:
  assumes "pool_ok ws P" "pool_schedule kind loads P = (w, P')"
  shows "pool_ok ws P'" "w \<in> set ws"
    "kind = LeastGpuMemoryWorkerPool \<Longrightarrow> \<forall>v \<in> set ws. gpu_memory_percent (loads w) \<le> gpu_memory_percent (loads v)"
    "kind = BalancedLoadWorkerPool \<Longrightarrow> \<forall>v \<in> set ws. loads w \<le> loads v"
proof -
  have ws: "ws \<noteq> []" "wp_workers P = ws" "wp_cur_idx P < length ws" using assms(1) by (simp_all add: pool_ok_def)
  note m = first_min_props [OF ws(1), of "\<lambda>w. gpu_memory_percent (loads w)"] first_min_props [OF ws(1), of loads]
  show "pool_ok ws P'" "w \<in> set ws"
    using assms(2) ws m(1,3) by (auto simp: pool_schedule_def pool_ok_def split: pool_kind.splits)
  show "kind = LeastGpuMemoryWorkerPool \<Longrightarrow> \<forall>v \<in> set ws. gpu_memory_percent (loads w) \<le> gpu_memory_percent (loads v)"
    "kind = BalancedLoadWorkerPool \<Longrightarrow> \<forall>v \<in> set ws. loads w \<le> loads v"
    using assms(2) ws m(2,4) by (auto simp: pool_schedule_def)
qed

text \<open>A number of decisions in a row, each with the loads of its moment.\<close>

fun pool_picks :: "pool_kind \<Rightarrow> (worker \<Rightarrow> worker_load) list \<Rightarrow> wpool \<Rightarrow> worker list \<times> wpool" where
  "pool_picks kind [] P = ([], P)"
| "pool_picks kind (l # ls) P =
     (let (w, P1) = pool_select kind l P; (ws, P2) = pool_picks kind ls P1 in (w # ws, P2))"

lemma round_robin_run:
  assumes "wp_workers P = ws" "ws \<noteq> []"
  shows "fst (pool_picks RoundRobinWorkerPool ls (P\<lparr>wp_cur_idx := c mod length ws\<rparr>)) =
    map (\<lambda>j. ws ! ((c + j) mod length ws)) [0..<length ls]"
  using assms
proof (induction ls arbitrary: c P)
  case (Cons l ls)
  have step: "pool_select RoundRobinWorkerPool l (P\<lparr>wp_cur_idx := c mod length ws\<rparr>) =
      (ws ! (c mod length ws), P\<lparr>wp_decisions := wp_decisions P + 1, wp_cur_idx := (c + 1) mod length ws\<rparr>)"
    using Cons.prems by (simp add: pool_select_def pool_schedule_def mod_Suc_eq)
  have "fst (pool_picks RoundRobinWorkerPool ls ((P\<lparr>wp_decisions := wp_decisions P + 1\<rparr>)\<lparr>wp_cur_idx := (c + 1) mod length ws\<rparr>)) =
      map (\<lambda>j. ws ! ((c + 1 + j) mod length ws)) [0..<length ls]"
    using Cons.IH [of "P\<lparr>wp_decisions := wp_decisions P + 1\<rparr>" "c + 1"] Cons.prems by simp
  moreover have "map f [0..<Suc n] = f 0 # map (\<lambda>j. f (Suc j)) [0..<n]" for f :: "nat \<Rightarrow> worker" and n
    by (simp only: upt_conv_Cons zero_less_Suc map_Suc_upt [symmetric] list.map map_map o_def)
  ultimately show ?case by (simp add: step split_def Let_def del: upt_Suc)
qed simp

lemma cycle_concat:
  assumes "ws \<noteq> []"
  shows "map (\<lambda>j. ws ! (j mod length ws)) [0..<k * length ws] = concat (replicate k ws)"
proof (induction k)
  case (Suc k)
  define n where "n = length ws"
  have "[0..<Suc k * n] = [0..<k * n] @ map (\<lambda>j. j + k * n) [0..<n]"
    using upt_add_eq_append [of 0 "k * n" n] map_add_upt [of "k * n" n] by (simp add: add.commute)
  moreover have "map (\<lambda>j. ws ! ((j + k * n) mod n)) [0..<n] = ws"
    by (rule nth_equalityI) (simp_all add: n_def)
  moreover have "concat (replicate (Suc k) ws) = concat (replicate k ws) @ ws"
    by (simp only: replicate_Suc replicate_append_same [symmetric] concat_append concat.simps append_Nil2)
  ultimately show ?case using Suc unfolding n_def [symmetric] by (simp only: map_append map_map o_def)
qed simp

section \<open>Groups and sessions\<close>

definition rank_workers :: "worker list \<Rightarrow> int \<Rightarrow> worker list" where
  "rank_workers ws r = filter (\<lambda>w. w_dp_rank w = r) ws"

lemma group_by_rank_lookup:
  "map_of (group_by_rank ws) r = (if rank_workers ws r = [] then None else Some (rank_workers ws r))"
  "distinct (map fst (group_by_rank ws))"
proof -
  have grow: "group_by_rank (ws @ [w]) = AList.update (w_dp_rank w)
      (case_option [] (\<lambda>g. g) (map_of (group_by_rank ws) (w_dp_rank w)) @ [w]) (group_by_rank ws)" for w ws
    by (simp add: group_by_rank_def)
  show "map_of (group_by_rank ws) r = (if rank_workers ws r = [] then None else Some (rank_workers ws r))"
  proof (induction ws arbitrary: r rule: rev_induct)
    case (snoc w ws)
    then show ?case by (auto simp: grow rank_workers_def)
  qed (simp add: group_by_rank_def rank_workers_def)
  show "distinct (map fst (group_by_rank ws))"
    by (induction ws rule: rev_induct) (simp add: group_by_rank_def, simp add: grow)
qed

text \<open>The groups are the workers of each rank, and every remembered session is on a rank that has workers.\<close>

definition dp_inv :: "worker list \<Rightarrow> dp_pool \<Rightarrow> bool" where
  "dp_inv ws D \<longleftrightarrow>
     (\<forall>r. case map_of (dp_groups D) r of None \<Rightarrow> rank_workers ws r = [] | Some P \<Rightarrow> pool_ok (rank_workers ws r) P) \<and>
     dp_ranks D \<noteq> [] \<and> (\<forall>r \<in> set (dp_ranks D). rank_workers ws r \<noteq> []) \<and> cur_dp_idx D < length (dp_ranks D) \<and>
     (\<forall>(s, r) \<in> set (affinity_to_rank D). rank_workers ws r \<noteq> [])"

lemma known_rank_workers: "dp_inv ws D \<Longrightarrow> known_rank D (Some r) \<longleftrightarrow> rank_workers ws r \<noteq> []"
  by (auto simp: dp_inv_def known_rank_def pool_ok_def split: option.splits)

lemma make_dp_pool_inv:
  assumes "make_dp_pool ws kind sticky = Ok D"
  shows "dp_inv ws D" "affinity_to_rank D = []" "sticky_sessions D = sticky"
proof -
  define gs where "gs = map (\<lambda>(r, g). (r, make_group g)) (sort_key fst (group_by_rank ws))"
  have keys: "map fst gs = map fst (sort_key fst (group_by_rank ws))" by (simp add: gs_def split_def o_def)
  have "map_of (sort_key fst (group_by_rank ws)) = map_of (group_by_rank ws)"
    using group_by_rank_lookup(2) [of ws] by (intro map_of_eqI) (auto simp: map_of_inject_set distinct_map)
  then have look: "map_of gs r = (if rank_workers ws r = [] then None else Some (make_group (rank_workers ws r)))" for r
    using group_by_rank_lookup(1) [of ws r] by (simp add: gs_def map_of_map)
  have "ws \<noteq> []" and D: "dp_groups D = gs" "dp_ranks D = sort (map fst gs)" "cur_dp_idx D = 0"
      "affinity_to_rank D = []" "sticky_sessions D = sticky"
    using assms by (auto simp: make_dp_pool_def gs_def Let_def split: list.splits)
  then obtain w ws' where "ws = w # ws'" by (cases ws) auto
  then have "map_of gs (w_dp_rank w) \<noteq> None" using look by (simp add: rank_workers_def)
  then have gs: "gs \<noteq> []" by auto
  then have ne: "sort (map fst gs) \<noteq> []" by (metis length_0_conv length_map length_sort)
  have "rank_workers ws r \<noteq> []" if "r \<in> set (map fst gs)" for r
  proof -
    have "map_of gs r \<noteq> None" using that by (simp add: map_of_eq_None_iff)
    then show ?thesis using look [of r] by (auto split: if_splits)
  qed
  with look gs ne D show "dp_inv ws D" by (simp add: dp_inv_def pool_ok_def make_group_def)
  show "affinity_to_rank D = []" "sticky_sessions D = sticky" using D by simp_all
qed

lemma group_schedule_ok:
  assumes "dp_inv ws D" "rank_workers ws r \<noteq> []" "group_schedule loads r D = (w, D')"
  shows "dp_inv ws D'" "w \<in> set ws" "w_dp_rank w = r" "affinity_to_rank D' = affinity_to_rank D"
    "sticky_sessions D' = sticky_sessions D"
proof -
  obtain P where P: "map_of (dp_groups D) r = Some P" "pool_ok (rank_workers ws r) P"
  proof -
    have "case map_of (dp_groups D) r of None \<Rightarrow> rank_workers ws r = [] | Some P \<Rightarrow> pool_ok (rank_workers ws r) P"
      using assms(1) by (simp add: dp_inv_def)
    with assms(2) that show ?thesis by (cases "map_of (dp_groups D) r") auto
  qed
  obtain v Q where Q: "pool_schedule (dp_kind D) loads P = (v, Q)" by (metis surj_pair)
  have eq: "w = v" "D' = D\<lparr>dp_groups := AList.update r Q (dp_groups D)\<rparr>" using assms(3) P(1) Q by (auto simp: group_schedule_def)
  note ok = pool_schedule_ok(1,2) [OF P(2) Q]
  show "dp_inv ws D'" using assms(1) ok(1) by (auto simp: dp_inv_def eq)
  show "w \<in> set ws" "w_dp_rank w = r" using ok(2) by (simp_all add: eq rank_workers_def)
  show "affinity_to_rank D' = affinity_to_rank D" "sticky_sessions D' = sticky_sessions D" by (simp_all add: eq)
qed

lemma set_default_facts:
  "map_of (set_default k v d) = (if map_of d k = None then (map_of d)(k \<mapsto> v) else map_of d)"
  "set (set_default k v d) \<subseteq> insert (k, v) (set d)"
  "length (set_default k v d) = length d + (if map_of d k = None then 1 else 0)"
proof -
  show "map_of (set_default k v d) = (if map_of d k = None then (map_of d)(k \<mapsto> v) else map_of d)"
    by (simp add: set_default_def)
qed (auto simp: set_default_def dict_set_new)

lemma select_for_request_ok:
  assumes inv: "dp_inv ws D" and sel: "select_for_request loads q assign_new D = (w, q', D')"
  shows "dp_inv ws D'" "w \<in> set ws" "known_rank D (wanted_rank D q) \<Longrightarrow> wanted_rank D q = Some (w_dp_rank w)"
    "sticky_sessions D' = sticky_sessions D"
    "affinity_to_rank D' = (case affinity_key D q of
       Some k \<Rightarrow> if assign_new \<or> rr_dp_rank (the q) = None then set_default k (w_dp_rank w) (affinity_to_rank D) else affinity_to_rank D
     | None \<Rightarrow> affinity_to_rank D)"
proof -
  obtain v D1 where pick: "pick_worker loads q D = (v, D1)" by (metis surj_pair)
  have ng: "dp_inv ws (snd (next_group_pool D))" "rank_workers ws (fst (next_group_pool D)) \<noteq> []"
    "affinity_to_rank (snd (next_group_pool D)) = affinity_to_rank D" "sticky_sessions (snd (next_group_pool D)) = sticky_sessions D"
    using inv by (auto simp: next_group_pool_def dp_inv_def)
  have D1: "dp_inv ws D1 \<and> v \<in> set ws \<and> (known_rank D (wanted_rank D q) \<longrightarrow> wanted_rank D q = Some (w_dp_rank v)) \<and>
      affinity_to_rank D1 = affinity_to_rank D \<and> sticky_sessions D1 = sticky_sessions D"
  proof (cases "known_rank D (wanted_rank D q)")
    case True
    then obtain r where r: "wanted_rank D q = Some r" by (cases "wanted_rank D q") (auto simp: known_rank_def)
    with True known_rank_workers [OF inv] have "rank_workers ws r \<noteq> []" by simp
    from group_schedule_ok [OF inv this, of loads v D1] pick True r show ?thesis by (simp add: pick_worker_def)
  next
    case False
    then have "group_schedule loads (fst (next_group_pool D)) (snd (next_group_pool D)) = (v, D1)"
      using pick by (simp add: pick_worker_def split_def Let_def)
    from group_schedule_ok [OF ng(1,2) this] ng False show ?thesis by simp
  qed
  define D2 where "D2 = record_placement v D1"
  have D2: "dp_inv ws D2" "affinity_to_rank D2 = affinity_to_rank D" "sticky_sessions D2 = sticky_sessions D"
    using D1 by (simp_all add: D2_def record_placement_def dp_inv_def)
  have some: "affinity_key D q = Some k \<Longrightarrow> \<exists>r. q = Some r" for k by (auto simp: affinity_key_def split: option.splits if_splits)
  have eq: "w = v" "D' = (case affinity_key D q of
       Some k \<Rightarrow> if assign_new \<or> rr_dp_rank (the q) = None then D2\<lparr>affinity_to_rank := set_default k (w_dp_rank v) (affinity_to_rank D2)\<rparr> else D2
     | None \<Rightarrow> D2)"
    using sel some by (auto simp: select_for_request_def pick Let_def D2_def [symmetric] split: option.splits if_splits)
  show "w \<in> set ws" "known_rank D (wanted_rank D q) \<Longrightarrow> wanted_rank D q = Some (w_dp_rank w)" using D1 by (simp_all add: eq)
  have "rank_workers ws (w_dp_rank v) \<noteq> []" using D1 by (auto simp: rank_workers_def filter_empty_conv)
  then have "dp_inv ws (D2\<lparr>affinity_to_rank := set_default k (w_dp_rank v) (affinity_to_rank D2)\<rparr>)" for k
    using D2(1) set_default_facts(2) [of k "w_dp_rank v" "affinity_to_rank D2"] by (auto simp: dp_inv_def)
  then show "dp_inv ws D'" using D2(1) by (simp add: eq(2) split: option.split)
  show "sticky_sessions D' = sticky_sessions D" using D2(3) by (simp add: eq(2) split: option.split)
  show "affinity_to_rank D' = (case affinity_key D q of
       Some k \<Rightarrow> if assign_new \<or> rr_dp_rank (the q) = None then set_default k (w_dp_rank w) (affinity_to_rank D) else affinity_to_rank D
     | None \<Rightarrow> affinity_to_rank D)"
    using D2(2) by (auto simp: eq split: option.split)
qed

text \<open>Any sequence of placements, with or without a request.\<close>

inductive dp_run :: "dp_pool \<Rightarrow> dp_pool \<Rightarrow> bool" for D0 where
  dp_start: "dp_run D0 D0"
| dp_request: "dp_run D0 D \<Longrightarrow> count_decision (select_for_request loads q assign_new D) = (w, q', D') \<Longrightarrow> dp_run D0 D'"
| dp_plain: "dp_run D0 D \<Longrightarrow> dp_select loads D = (w, D') \<Longrightarrow> dp_run D0 D'"

lemma count_decisionD:
  assumes "count_decision (select_for_request loads q b D) = (w, q', D')"
  obtains D1 where "select_for_request loads q b D = (w, q', D1)" "D' = D1\<lparr>dp_decisions := dp_decisions D1 + 1\<rparr>"
  using assms by (auto simp: count_decision_def split: prod.splits)

lemma dp_inv_decisions [simp]: "dp_inv ws (D\<lparr>dp_decisions := n\<rparr>) = dp_inv ws D"
  by (simp add: dp_inv_def)

lemma dp_select_ok:
  assumes "dp_inv ws D" "dp_select loads D = (w, D')"
  shows "dp_inv ws D'" "affinity_to_rank D' = affinity_to_rank D" "sticky_sessions D' = sticky_sessions D"
proof -
  define r D0 where "r = fst (next_group_pool D)" and "D0 = snd (next_group_pool D)"
  have D0: "dp_inv ws D0" "rank_workers ws r \<noteq> []" "affinity_to_rank D0 = affinity_to_rank D" "sticky_sessions D0 = sticky_sessions D"
    using assms(1) by (auto simp: D0_def r_def next_group_pool_def dp_inv_def)
  obtain D1 where g: "group_schedule loads r D0 = (w, D1)" "D' = record_placement w D1"
    using assms(2) by (auto simp: dp_select_def r_def D0_def split: prod.splits)
  note ok = group_schedule_ok [OF D0(1,2) g(1)]
  then show "dp_inv ws D'" "affinity_to_rank D' = affinity_to_rank D" "sticky_sessions D' = sticky_sessions D"
    using D0 by (simp_all add: g(2) record_placement_def dp_inv_def)
qed

lemma dp_run_inv:
  assumes "dp_run D0 D" "dp_inv ws D0"
  shows "dp_inv ws D \<and> sticky_sessions D = sticky_sessions D0 \<and> map_of (affinity_to_rank D0) \<subseteq>\<^sub>m map_of (affinity_to_rank D)"
  using assms
proof (induction rule: dp_run.induct)
  case (dp_request D loads q b w q' D')
  then obtain D1 where D1: "select_for_request loads q b D = (w, q', D1)" "D' = D1\<lparr>dp_decisions := dp_decisions D1 + 1\<rparr>"
    by (blast elim: count_decisionD)
  have inv: "dp_inv ws D" using dp_request by simp
  note ok = select_for_request_ok [OF inv D1(1)]
  have "map_of (affinity_to_rank D) \<subseteq>\<^sub>m map_of (affinity_to_rank D1)"
    unfolding ok(5) by (auto simp: set_default_facts(1) map_le_def split: option.split)
  then show ?case using dp_request ok(1,4) D1(2) by (auto intro: map_le_trans)
next
  case (dp_plain D loads w D')
  then show ?case using dp_select_ok [of ws D loads w D'] by simp
qed simp

section \<open>Properties\<close>

text \<open>
  C34. The round-robin policy is fair and the other two take the least loaded worker: in any number of rounds
  over a new pool, whatever the loads, every worker is chosen once per round, in the order of the pool; and a
  single decision of the load-based policies returns the first worker of least load: no worker has a smaller
  load, compared field by field, and every worker before it has a larger one.
\<close>

theorem placement_policies:
  assumes "make_pool ws = Ok P" and "length ls = k * length ws"
  shows "fst (pool_picks RoundRobinWorkerPool ls P) = concat (replicate k ws) \<and>
    (\<exists>i < length ws. fst (pool_select LeastGpuMemoryWorkerPool loads P) = ws ! i \<and>
      (\<forall>v \<in> set ws. gpu_memory_percent (loads (ws ! i)) \<le> gpu_memory_percent (loads v)) \<and>
      (\<forall>j < i. gpu_memory_percent (loads (ws ! i)) < gpu_memory_percent (loads (ws ! j)))) \<and>
    (\<exists>i < length ws. fst (pool_select BalancedLoadWorkerPool loads P) = ws ! i \<and>
      (\<forall>v \<in> set ws. loads (ws ! i) \<le> loads v) \<and> (\<forall>j < i. loads (ws ! i) < loads (ws ! j)))"
proof -
  have c: "wp_cur_idx P = 0" and ws: "wp_workers P = ws" "ws \<noteq> []"
    using assms by (auto simp: make_pool_def split: list.splits)
  have "P\<lparr>wp_cur_idx := 0 mod length ws\<rparr> = P" using c by simp
  with round_robin_run [OF ws, of ls 0] cycle_concat [OF ws(2), of k] assms(2)
  have "fst (pool_picks RoundRobinWorkerPool ls P) = concat (replicate k ws)" by simp
  moreover have "fst (pool_select LeastGpuMemoryWorkerPool loads P) = first_min (\<lambda>w. gpu_memory_percent (loads w)) ws"
    "fst (pool_select BalancedLoadWorkerPool loads P) = first_min loads ws"
    using ws by (simp_all add: pool_select_def pool_schedule_def split_beta)
  ultimately show ?thesis
    using first_min_first [OF ws(2), of "\<lambda>w. gpu_memory_percent (loads w)"] first_min_first [OF ws(2), of loads] by simp
qed

theorem placement_policies_witness:
  "\<exists>P. make_pool sample_workers = Ok P \<and>
     fst (pool_picks RoundRobinWorkerPool (replicate 4 (\<lambda>w. WorkerLoad 0 0 0 (w_id w))) P) = sample_workers @ sample_workers \<and>
     fst (pool_select LeastGpuMemoryWorkerPool (\<lambda>w. WorkerLoad 0 0 0 (w_id w)) P) = sample_workers ! 0"
proof -
  let ?loads = "\<lambda>w. WorkerLoad 0 0 0 (w_id w)"
  obtain P where P: "make_pool sample_workers = Ok P" by (simp add: make_pool_def sample_workers_def)
  have "length (replicate 4 ?loads) = 2 * length sample_workers" by (simp add: sample_workers_def)
  note p = placement_policies [OF P this, of ?loads]
  from p obtain i where "fst (pool_select LeastGpuMemoryWorkerPool ?loads P) = sample_workers ! i"
    "\<forall>j < i. gpu_memory_percent (?loads (sample_workers ! i)) < gpu_memory_percent (?loads (sample_workers ! j))" by blast
  then have "fst (pool_select LeastGpuMemoryWorkerPool ?loads P) = sample_workers ! 0" by (cases i) auto
  with p P show ?thesis by (auto simp: numeral_2_eq_2)
qed

text \<open>
  C33. Sticky sessions stick: once a session without a rank of its own is placed for prefill, every later request
  of the session that has no rank goes to a worker of the same data-parallel group, whatever was placed in between
  and whatever the loads.
\<close>

theorem sticky_sessions_stick:
  assumes "make_dp_pool ws kind True = Ok D0" and "dp_run D0 D"
    and "rr_chat_id q = Some s" "s \<noteq> []" "rr_dp_rank q = None" and "select_prefill_worker loads (Some q) D = (w, q', D1)"
    and "dp_run D1 D2" and "rr_chat_id p = Some s" "rr_dp_rank p = None"
    and "count_decision (select_for_request loads' (Some p) assign_new D2) = (v, p', D3)"
  shows "v \<in> set ws \<and> w_dp_rank v = w_dp_rank w"
proof -
  note new = make_dp_pool_inv [OF assms(1)]
  have D: "dp_inv ws D" "sticky_sessions D" using dp_run_inv [OF assms(2) new(1)] new(3) by simp_all
  from assms(6) obtain E where E: "select_for_request loads (Some q) True D = (w, q', E)" "D1 = E\<lparr>dp_decisions := dp_decisions E + 1\<rparr>"
    unfolding select_prefill_worker_def by (rule count_decisionD)
  note e = select_for_request_ok [OF D(1) E(1)]
  obtain c t where s: "s = c # t" using assms(4) by (cases s) auto
  have key: "affinity_key D' (Some r) = Some s" if "sticky_sessions D'" "rr_chat_id r = Some s" for D' r
    using that by (simp add: affinity_key_def s)
  have wanted: "wanted_rank D' (Some r) = map_of (affinity_to_rank D') s"
    if "sticky_sessions D'" "rr_chat_id r = Some s" "rr_dp_rank r = None" for D' r
    using that key [of D' r] by (simp add: wanted_rank_def known_rank_def)
  have known: "known_rank D' (map_of (affinity_to_rank D') s)" if "dp_inv ws D'" "map_of (affinity_to_rank D') s \<noteq> None" for D'
  proof -
    from that(2) obtain r where r: "map_of (affinity_to_rank D') s = Some r" by auto
    then have "rank_workers ws r \<noteq> []" using that(1) map_of_SomeD by (fastforce simp: dp_inv_def)
    with r known_rank_workers [OF that(1)] show ?thesis by simp
  qed
  have "map_of (affinity_to_rank E) s = Some (w_dp_rank w)"
  proof (cases "map_of (affinity_to_rank D) s")
    case None
    then show ?thesis using e(5) key [OF D(2) assms(3)] by (simp add: set_default_facts(1))
  next
    case (Some r)
    then have "w_dp_rank w = r" using e(3) known [OF D(1)] wanted [OF D(2) assms(3,5)] by simp
    then show ?thesis using Some e(5) key [OF D(2) assms(3)] by (simp add: set_default_facts(1))
  qed
  moreover have "dp_inv ws D1" "sticky_sessions D1" "affinity_to_rank D1 = affinity_to_rank E" using e(1,4) D E(2) by simp_all
  ultimately have D2: "dp_inv ws D2" "sticky_sessions D2" "map_of (affinity_to_rank D2) s = Some (w_dp_rank w)"
    using dp_run_inv [OF assms(7)] by (auto simp: map_le_def dom_def)
  from assms(10) obtain F where "select_for_request loads' (Some p) assign_new D2 = (v, p', F)" by (rule count_decisionD)
  note f = select_for_request_ok [OF D2(1) this]
  show ?thesis using f(2,3) known [OF D2(1)] wanted [OF D2(2) assms(8,9)] D2(3) by simp
qed

lemma sample_dp_pool: "\<exists>D. make_dp_pool sample_workers RoundRobinWorkerPool True = Ok D"
  by (simp add: make_dp_pool_def sample_workers_def Let_def)

lemma sample_routed_fields: "rr_chat_id sample_routed = Some ''chat''" "rr_dp_rank sample_routed = None"
  by (simp_all add: sample_routed_def)

theorem sticky_sessions_stick_witness:
  "\<exists>D w q D1 v p D2. make_dp_pool sample_workers RoundRobinWorkerPool True = Ok D \<and>
     select_prefill_worker (\<lambda>w. WorkerLoad 0 0 0 (w_id w)) (Some sample_routed) D = (w, q, D1) \<and>
     count_decision (select_for_request (\<lambda>w. WorkerLoad 0 0 0 0) (Some sample_routed) False D1) = (v, p, D2) \<and>
     v \<in> set sample_workers \<and> w_dp_rank v = w_dp_rank w"
proof -
  obtain D where D: "make_dp_pool sample_workers RoundRobinWorkerPool True = Ok D" using sample_dp_pool by blast
  obtain w q D1 where a: "select_prefill_worker (\<lambda>w. WorkerLoad 0 0 0 (w_id w)) (Some sample_routed) D = (w, q, D1)"
    by (metis surj_pair)
  obtain v p D2 where b: "count_decision (select_for_request (\<lambda>w. WorkerLoad 0 0 0 0) (Some sample_routed) False D1) = (v, p, D2)"
    by (metis surj_pair)
  from sticky_sessions_stick [OF D dp_start sample_routed_fields(1) _ sample_routed_fields(2) a dp_start sample_routed_fields b] D a b
  show ?thesis by blast
qed

text \<open>The first requests of a list of sessions, one after the other.\<close>

definition place_sessions :: "(worker \<Rightarrow> worker_load) \<Rightarrow> string list \<Rightarrow> dp_pool \<Rightarrow> dp_pool" where
  "place_sessions loads ss D =
     fold (\<lambda>s D. snd (snd (select_prefill_worker loads (Some (sample_routed\<lparr>rr_chat_id := Some s\<rparr>)) D))) ss D"

text \<open>
  C35. The session table of a sticky pool is not bounded: it grows by one entry for every new session, beyond the
  65536 entries that \<^verbatim>\<open>BoundedCache\<close> is asked to keep, because \<^verbatim>\<open>dict.setdefault\<close> does not go
  through the overridden \<^verbatim>\<open>__setitem__\<close>.
\<close>

theorem session_table_unbounded:
  assumes "make_dp_pool ws kind True = Ok D" and "distinct ss" "[] \<notin> set ss"
  shows "length (affinity_to_rank (place_sessions loads ss D)) = length ss"
proof -
  have "dp_inv ws (place_sessions loads ss D) \<and> sticky_sessions (place_sessions loads ss D) \<and>
      length (affinity_to_rank (place_sessions loads ss D)) = length ss \<and>
      dom (map_of (affinity_to_rank (place_sessions loads ss D))) = set ss"
    using assms(2,3)
  proof (induction ss rule: rev_induct)
    case Nil
    then show ?case using make_dp_pool_inv [OF assms(1)] by (simp add: place_sessions_def)
  next
    case (snoc s ss)
    define E q where "E = place_sessions loads ss D" and "q = sample_routed\<lparr>rr_chat_id := Some s\<rparr>"
    have E: "dp_inv ws E" "sticky_sessions E" "length (affinity_to_rank E) = length ss" "dom (map_of (affinity_to_rank E)) = set ss"
      using snoc by (simp_all add: E_def)
    obtain w q' F where F: "select_for_request loads (Some q) True E = (w, q', F)" by (metis surj_pair)
    obtain c t where "s = c # t" using snoc.prems by (cases s) auto
    then have key: "affinity_key E (Some q) = Some s" using E(2) by (simp add: affinity_key_def q_def)
    note f = select_for_request_ok [OF E(1) F]
    have "map_of (affinity_to_rank E) s = None" using E(4) snoc.prems by auto
    then have "length (affinity_to_rank F) = Suc (length ss)" "dom (map_of (affinity_to_rank F)) = insert s (set ss)"
      using f(5) key E(3,4) by (simp_all add: set_default_facts)
    moreover have "place_sessions loads (ss @ [s]) D = snd (snd (select_prefill_worker loads (Some q) E))"
      by (simp add: place_sessions_def E_def q_def)
    then have "place_sessions loads (ss @ [s]) D = F\<lparr>dp_decisions := dp_decisions F + 1\<rparr>"
      using F by (simp add: select_prefill_worker_def count_decision_def)
    ultimately show ?case using f(1,4) E(2) by simp
  qed
  then show ?thesis by simp
qed

theorem session_table_unbounded_witness:
  "\<exists>D. make_dp_pool sample_workers RoundRobinWorkerPool True = Ok D \<and>
     length (affinity_to_rank (place_sessions (\<lambda>w. WorkerLoad 0 0 0 0) (map (\<lambda>n. replicate (Suc n) CHR ''s'') [0..<70000]) D)) = 70000"
proof -
  obtain D where D: "make_dp_pool sample_workers RoundRobinWorkerPool True = Ok D" using sample_dp_pool by blast
  have "distinct (map (\<lambda>n. replicate (Suc n) CHR ''s'') [0..<70000])"
    by (simp only: distinct_map distinct_upt, rule conjI, rule TrueI, rule inj_onI, drule arg_cong [where f = length], simp only: length_replicate nat.inject)
  moreover have "[] \<notin> set (map (\<lambda>n. replicate (Suc n) CHR ''s'') [0..<70000])" by auto
  ultimately show ?thesis using session_table_unbounded [OF D, of "map (\<lambda>n. replicate (Suc n) CHR ''s'') [0..<70000]"] D
    by (simp only: length_map length_upt) simp
qed

end
