(* ===== verification/Pool_Key.thy ===== *)
theory Pool_Key
  imports KV_Cache Parallel_Config
begin

text \<open>
  The keys of blocks in the external store (\<^verbatim>\<open>src/TokenSim/mooncake/pool_key.py\<close>): the identity of a block,
  its text, under which the store files it, and the keys of the full prompt blocks of a request.
\<close>

record key_metadata =
  km_model_name :: string
  km_tp_rank :: int
  km_pp_rank :: int
  km_store_namespace :: string
  km_cache_prefix :: string
  km_tenant_id :: string
  km_group_id :: int
  km_pcp_rank :: int
  km_dcp_rank :: int

datatype pool_key = PoolKey (key_metadata: key_metadata) (chunk_hash: string)

text \<open>\<^verbatim>\<open>json.dumps\<close> of a list of texts and numbers, without spaces.\<close>

datatype json_item = JStr string | JInt int

fun json_item_text :: "json_item \<Rightarrow> string" where
  "json_item_text (JStr s) = quote_json s"
| "json_item_text (JInt i) = str_of (HInt i)"

fun json_items_text :: "json_item list \<Rightarrow> string" where
  "json_items_text [] = '']''"
| "json_items_text [x] = json_item_text x @ '']''"
| "json_items_text (x # xs) = json_item_text x @ '','' @ json_items_text xs"

definition json_list_text :: "json_item list \<Rightarrow> string" where
  "json_list_text xs = ''['' @ json_items_text xs"

definition to_string :: "pool_key \<Rightarrow> string" where
  "to_string k =
     (let md = key_metadata k
      in json_list_text
           [JStr (km_tenant_id md), JStr (km_cache_prefix md), JStr (km_model_name md), JStr (km_store_namespace md),
            JInt (km_tp_rank md), JInt (km_pcp_rank md), JInt (km_dcp_rank md), JInt (km_pp_rank md),
            JInt (km_group_id md), JStr (chunk_hash k)])"

definition pool_keys_for_request ::
  "(string \<Rightarrow> string) \<Rightarrow> string \<Rightarrow> rank_info \<Rightarrow> string \<Rightarrow> string \<Rightarrow> string \<Rightarrow> int \<Rightarrow> int \<Rightarrow> int \<Rightarrow> prefix_key request \<Rightarrow> chain_cache
   \<Rightarrow> pool_key list \<times> chain_cache" where
  "pool_keys_for_request H model_name ri store_namespace cache_prefix tenant_id group_id pcp_rank dcp_rank r cc =
     (if no_ids (hash_ids r) then ([], cc)
      else
        (let full_input_blocks = nat (prefill_len r div rq_block_size r);
             known = take full_input_blocks (input_cache_keys r);
             (prefix_keys, cc1) =
               (if length known \<noteq> full_input_blocks
                then build_prefix_keys H cc (take full_input_blocks (ids_or_empty (hash_ids r))) model_name (cache_salt r)
                       (reuse_group r)
                else (known, cc));
             md = \<lparr>km_model_name = model_name, km_tp_rank = tp_rank ri, km_pp_rank = pp_rank ri,
                   km_store_namespace = store_namespace, km_cache_prefix = cache_prefix, km_tenant_id = tenant_id,
                   km_group_id = group_id, km_pcp_rank = pcp_rank, km_dcp_rank = dcp_rank\<rparr>
         in if prefix_keys = [] then ([], cc1)
            else (map (PoolKey md) (map parent_hash (tl prefix_keys) @ [next_parent_hash H (last prefix_keys)]), cc1)))"

section \<open>Reading a text back\<close>

lemma dec_char_separators: "\<not> dec_char (CHR '','')" "\<not> dec_char (CHR '']'')"
  by (simp_all add: dec_char_def)

lemma json_item_decode:
  assumes "json_item_text x @ c # r = json_item_text y @ d # s" "c \<in> {CHR '','', CHR '']''}" "d \<in> {CHR '','', CHR '']''}"
  shows "x = y \<and> c = d \<and> r = s"
proof -
  have head: "str_of (HInt i) \<noteq> [] \<and> (\<forall>z. hd (str_of (HInt i) @ z) \<noteq> dq)" for i
  proof -
    have "dec_digits n \<noteq> []" for n by (subst dec_digits.simps) simp
    then have ne: "str_of (HInt i) \<noteq> []" by simp
    have "dec_char (hd (str_of (HInt i)))" using str_of_int_chars [OF hd_in_set [OF ne]] .
    moreover have "\<not> dec_char dq" by (simp add: dec_char_def)
    ultimately show ?thesis using ne by (metis hd_append2)
  qed
  have q: "hd (quote_json s @ z) = dq" for s z by (simp add: quote_json_def)
  have sep: "\<not> dec_char c" "\<not> dec_char d" using assms(2,3) dec_char_separators by auto
  show ?thesis
  proof (cases x; cases y)
    fix i j assume "x = JInt i" "y = JInt j"
    then show ?thesis using split_at_separator [of "str_of (HInt i)" c r "str_of (HInt j)" d s dec_char] assms(1) sep str_of_int_chars
      by (auto simp del: str_of.simps)
  next
    fix t j assume "x = JStr t" "y = JInt j"
    then show ?thesis using assms(1) q [of t "c # r"] head [of j] by (metis json_item_text.simps)
  next
    fix i t assume "x = JInt i" "y = JStr t"
    then show ?thesis using assms(1) q [of t "d # s"] head [of i] by (metis json_item_text.simps)
  qed (use assms(1) in auto)
qed

lemma json_items_inject:
  assumes "json_items_text xs = json_items_text ys" "length xs = length ys"
  shows "xs = ys"
  using assms
proof (induction xs arbitrary: ys rule: json_items_text.induct)
  case 1
  then show ?case by simp
next
  case (2 x)
  then obtain y where "ys = [y]" by (metis length_0_conv length_Suc_conv)
  then show ?case using json_item_decode [of x "CHR '']''" "[]" y "CHR '']''" "[]"] 2 by simp
next
  case (3 x x' xs)
  then obtain y y' ys' where ys: "ys = y # y' # ys'" by (metis length_Suc_conv)
  then show ?case
    using json_item_decode [of x "CHR '',''" "json_items_text (x' # xs)" y "CHR '',''" "json_items_text (y' # ys')"] 3 by simp
qed

lemma to_string_inj: "inj to_string"
proof (rule injI)
  fix k k' assume "to_string k = to_string k'"
  from json_items_inject [OF this [unfolded to_string_def json_list_text_def Let_def same_append_eq]]
  show "k = k'" by (cases k; cases k') (auto intro: key_metadata.equality)
qed

section \<open>Properties\<close>

text \<open>
  C32. Distinct blocks never share a store entry: two pool keys have the same text only when they agree in tenant,
  cache prefix, model, namespace, every rank, the group and the chunk hash, whatever characters those contain.
\<close>

theorem pool_key_text_injective: "to_string k = to_string k' \<longleftrightarrow> k = k'"
  using to_string_inj by (simp add: inj_eq)

end
