(* ===== verification/Offload_Tier.thy ===== *)
theory Offload_Tier
  imports Complex_Main Decimal
begin

text \<open>
  The offload tier of the external key-value store (\<^verbatim>\<open>src/TokenSim/mooncake/ssd.py\<close>) and the linear cost of
  its SSD backend (\<^verbatim>\<open>src/TokenSim/storage/ssd.py\<close>). The cost of a plugged-in backend is a function of the
  tier. Ordered dictionaries without values are lists of their keys.
\<close>

section \<open>The cost of the medium\<close>

datatype io_op = IORead | IOWrite

record ssd_config =
  ssd_capacity_bytes :: int
  ssd_read_bandwidth :: real
  ssd_write_bandwidth :: real
  ssd_read_latency_us :: real
  ssd_write_latency_us :: real

definition make_ssd_config :: "ssd_config \<Rightarrow> ssd_config result" where
  "make_ssd_config c =
     (if ssd_capacity_bytes c < 0 then Raise ConfigurationError
      else if ssd_read_bandwidth c \<le> 0 \<or> ssd_read_latency_us c < 0 then Raise ConfigurationError
      else if ssd_write_bandwidth c \<le> 0 \<or> ssd_write_latency_us c < 0 then Raise ConfigurationError
      else Ok c)"

definition estimate_io :: "ssd_config \<Rightarrow> io_op \<Rightarrow> int \<Rightarrow> real" where
  "estimate_io c op nbytes =
     (if nbytes = 0 then 0
      else case op of
             IORead \<Rightarrow> ssd_read_latency_us c / 10 ^ 6 + real_of_int nbytes / ssd_read_bandwidth c
           | IOWrite \<Rightarrow> ssd_write_latency_us c / 10 ^ 6 + real_of_int nbytes / ssd_write_bandwidth c)"

text \<open>The options of the store as a configuration of the SSD backend.\<close>

definition legacy_ssd_backend :: "ssd_config \<Rightarrow> int option \<Rightarrow> int \<Rightarrow> ssd_config result" where
  "legacy_ssd_backend c capacity_blocks block_bytes =
     make_ssd_config
       (c\<lparr>ssd_capacity_bytes := (case capacity_blocks of None \<Rightarrow> ssd_capacity_bytes c | Some n \<Rightarrow> n * block_bytes)\<rparr>)"

section \<open>The tier\<close>

record offload_op =
  op_blocks :: int
  op_bytes :: int
  op_latency :: real
  op_evicted_keys :: "string list"

record offload_tier =
  ot_tier :: string
  ot_legacy_ssd :: bool
  ot_block_bytes :: int
  ot_capacity_blocks :: int
  ot_cost :: "io_op \<Rightarrow> int \<Rightarrow> real"
  ot_blocks :: "(string \<times> int) list"
  ot_lru :: "string list"
  ot_used_blocks :: int
  ot_protected_until :: "(string \<times> real) list"

definition make_offload_tier :: "string \<Rightarrow> bool \<Rightarrow> int \<Rightarrow> (io_op \<Rightarrow> int \<Rightarrow> real) \<Rightarrow> int \<Rightarrow> offload_tier" where
  "make_offload_tier tier legacy capacity_bytes cost block_bytes =
     \<lparr>ot_tier = tier, ot_legacy_ssd = legacy, ot_block_bytes = max 1 block_bytes,
      ot_capacity_blocks = capacity_bytes div max 1 block_bytes, ot_cost = cost, ot_blocks = [], ot_lru = [],
      ot_used_blocks = 0, ot_protected_until = []\<rparr>"

definition ot_contains :: "offload_tier \<Rightarrow> string \<Rightarrow> bool" where
  "ot_contains T key \<longleftrightarrow> map_of (ot_blocks T) key \<noteq> None"

definition lru_touch :: "'a \<Rightarrow> 'a list \<Rightarrow> 'a list" where
  "lru_touch k xs = filter (\<lambda>x. x \<noteq> k) xs @ [k]"

definition tier_latency :: "offload_tier \<Rightarrow> io_op \<Rightarrow> int \<Rightarrow> real" where
  "tier_latency T op nbytes = (if nbytes \<le> 0 then 0 else ot_cost T op nbytes)"

definition blocks_of :: "offload_tier \<Rightarrow> string \<Rightarrow> int" where
  "blocks_of T key = case_option 0 (\<lambda>n. n) (map_of (ot_blocks T) key)"

definition protected_until :: "offload_tier \<Rightarrow> string \<Rightarrow> real" where
  "protected_until T key = case_option 0 (\<lambda>t. t) (map_of (ot_protected_until T) key)"

definition ot_read :: "string \<Rightarrow> offload_tier \<Rightarrow> offload_op \<times> offload_tier" where
  "ot_read key T =
     (let n = blocks_of T key; nbytes = n * ot_block_bytes T;
          T1 = (if key \<in> set (ot_lru T) then T\<lparr>ot_lru := lru_touch key (ot_lru T)\<rparr> else T)
      in (\<lparr>op_blocks = n, op_bytes = nbytes, op_latency = tier_latency T IORead nbytes, op_evicted_keys = []\<rparr>, T1))"

definition ot_pin :: "string \<Rightarrow> real \<Rightarrow> offload_tier \<Rightarrow> offload_tier" where
  "ot_pin key until T =
     T\<lparr>ot_protected_until := AList.update key (max (protected_until T key) until) (ot_protected_until T)\<rparr>"

definition remove_existing :: "string \<Rightarrow> offload_tier \<Rightarrow> offload_tier" where
  "remove_existing key T =
     T\<lparr>ot_used_blocks := ot_used_blocks T - blocks_of T key, ot_blocks := AList.delete key (ot_blocks T),
       ot_lru := filter (\<lambda>x. x \<noteq> key) (ot_lru T), ot_protected_until := AList.delete key (ot_protected_until T)\<rparr>"

text \<open>The scan for victims: the unprotected entries from the oldest on, until the blocks fit.\<close>

fun pick_victims :: "offload_tier \<Rightarrow> string \<Rightarrow> real \<Rightarrow> int \<Rightarrow> int \<Rightarrow> string list \<Rightarrow> string list \<times> int" where
  "pick_victims T key now extra available [] = ([], available)"
| "pick_victims T key now extra available (c # cs) =
     (if c \<noteq> key \<and> protected_until T c \<le> now then
        (let available1 = available + blocks_of T c
         in if extra \<le> available1 then ([c], available1)
            else let (vs, a) = pick_victims T key now extra available1 cs in (c # vs, a))
      else pick_victims T key now extra available cs)"

definition rejected :: "string \<Rightarrow> offload_op" where
  "rejected key = \<lparr>op_blocks = 0, op_bytes = 0, op_latency = 0, op_evicted_keys = [key]\<rparr>"

definition ot_write :: "string \<Rightarrow> int \<Rightarrow> real \<Rightarrow> offload_tier \<Rightarrow> offload_op result \<times> offload_tier" where
  "ot_write key n now T =
     (if ot_capacity_blocks T \<le> 0 then (Raise ConfigurationError, T)
      else if ot_capacity_blocks T < n then (Ok (rejected key), T)
      else
        (let extra = n - blocks_of T key;
             free = ot_capacity_blocks T - ot_used_blocks T;
             (victims, available) =
               (if free < extra then pick_victims T key now extra free (ot_lru T) else ([], free))
         in if available < extra then (Ok (rejected key), T)
            else
              (let nbytes = n * ot_block_bytes T;
                   T1 = remove_existing key (fold remove_existing victims T)
               in (Ok \<lparr>op_blocks = n, op_bytes = nbytes, op_latency = tier_latency T IOWrite nbytes,
                       op_evicted_keys = victims\<rparr>,
                   T1\<lparr>ot_blocks := AList.update key n (ot_blocks T1), ot_used_blocks := ot_used_blocks T1 + n,
                      ot_lru := ot_lru T1 @ [key]\<rparr>))))"

section \<open>What the tier keeps\<close>

definition ot_inv :: "offload_tier \<Rightarrow> bool" where
  "ot_inv T \<longleftrightarrow> distinct (map fst (ot_blocks T)) \<and> distinct (ot_lru T) \<and> set (ot_lru T) = fst ` set (ot_blocks T) \<and>
     (\<forall>(k, n) \<in> set (ot_blocks T). 0 \<le> n) \<and> ot_used_blocks T = sum_list (map snd (ot_blocks T)) \<and>
     (0 \<le> ot_capacity_blocks T \<longrightarrow> ot_used_blocks T \<le> ot_capacity_blocks T)"

lemma ot_inv_new: "ot_inv (make_offload_tier tier legacy cap cost sz)"
  by (simp add: ot_inv_def make_offload_tier_def)

lemma sum_delete:
  assumes "distinct (map fst d)"
  shows "sum_list (map snd (AList.delete k d)) = sum_list (map snd d) - case_option (0 :: int) (\<lambda>n. n) (map_of d k)"
  using assms
proof (induction d)
  case (Cons p d)
  show ?case
  proof (cases "fst p = k")
    case True
    then have "AList.delete k d = d" using Cons.prems by (auto intro: delete_id)
    then show ?thesis using True by (cases p) simp
  next
    case False
    then show ?thesis using Cons by (cases p) auto
  qed
qed simp

lemma remove_existing_inv:
  assumes "ot_inv T"
  shows "ot_inv (remove_existing key T)" "ot_used_blocks (remove_existing key T) = ot_used_blocks T - blocks_of T key"
    "map_of (ot_blocks (remove_existing key T)) = (map_of (ot_blocks T))(key := None)"
    "ot_capacity_blocks (remove_existing key T) = ot_capacity_blocks T"
    "ot_lru (remove_existing key T) = filter (\<lambda>x. x \<noteq> key) (ot_lru T)" "0 \<le> blocks_of T key"
proof -
  show nonneg: "0 \<le> blocks_of T key"
    using assms by (auto simp: ot_inv_def blocks_of_def split: option.split dest: map_of_SomeD)
  show "ot_used_blocks (remove_existing key T) = ot_used_blocks T - blocks_of T key"
    "map_of (ot_blocks (remove_existing key T)) = (map_of (ot_blocks T))(key := None)"
    "ot_capacity_blocks (remove_existing key T) = ot_capacity_blocks T"
    "ot_lru (remove_existing key T) = filter (\<lambda>x. x \<noteq> key) (ot_lru T)" by (simp_all add: remove_existing_def)
  show "ot_inv (remove_existing key T)"
    using assms nonneg unfolding ot_inv_def remove_existing_def
    by (auto simp: sum_delete blocks_of_def set_dict_del)
qed

lemma pick_victims_facts:
  assumes "distinct lru" "pick_victims T key now extra available lru = (vs, a)"
  shows "a = available + (\<Sum>v \<leftarrow> vs. blocks_of T v)" "distinct vs" "set vs \<subseteq> set lru" "key \<notin> set vs"
    "\<forall>v \<in> set vs. protected_until T v \<le> now"
proof -
  have "a = available + (\<Sum>v \<leftarrow> vs. blocks_of T v) \<and> distinct vs \<and> set vs \<subseteq> set lru \<and> key \<notin> set vs \<and>
      (\<forall>v \<in> set vs. protected_until T v \<le> now)"
    using assms
  proof (induction lru arbitrary: available vs a)
    case (Cons c cs)
    have d: "distinct cs" "c \<notin> set cs" using Cons.prems(1) by simp_all
    show ?case
    proof (cases "c \<noteq> key \<and> protected_until T c \<le> now \<and> \<not> extra \<le> available + blocks_of T c")
      case True
      with Cons.prems(2) obtain us where us: "pick_victims T key now extra (available + blocks_of T c) cs = (us, a)" "vs = c # us"
        by (auto simp: Let_def split: prod.splits)
      with Cons.IH [OF d(1) us(1)] d(2) True show ?thesis by (auto simp: add.assoc)
    next
      case False
      then show ?thesis using Cons.IH [OF d(1), of available vs a] Cons.prems(2) by (auto simp: Let_def split: if_splits)
    qed
  qed simp
  then show "a = available + (\<Sum>v \<leftarrow> vs. blocks_of T v)" "distinct vs" "set vs \<subseteq> set lru" "key \<notin> set vs"
    "\<forall>v \<in> set vs. protected_until T v \<le> now" by blast+
qed

lemma remove_all_facts:
  assumes "ot_inv T" "distinct vs"
  shows "ot_inv (fold remove_existing vs T) \<and>
    ot_used_blocks (fold remove_existing vs T) = ot_used_blocks T - (\<Sum>v \<leftarrow> vs. blocks_of T v) \<and>
    map_of (ot_blocks (fold remove_existing vs T)) = map_of (ot_blocks T) |` (- set vs) \<and>
    ot_capacity_blocks (fold remove_existing vs T) = ot_capacity_blocks T"
  using assms
proof (induction vs arbitrary: T)
  case (Cons v vs)
  note r = remove_existing_inv [OF Cons.prems(1), of v]
  have "blocks_of (remove_existing v T) u = blocks_of T u" if "u \<in> set vs" for u
    using that Cons.prems(2) r(3) by (auto simp: blocks_of_def)
  then have "(\<Sum>u \<leftarrow> vs. blocks_of (remove_existing v T) u) = (\<Sum>u \<leftarrow> vs. blocks_of T u)" by (simp cong: map_cong)
  with Cons.IH [OF r(1)] Cons.prems(2) r show ?case by (auto simp: restrict_map_def fun_eq_iff)
qed (simp add: restrict_map_def fun_eq_iff)

lemma protected_remove: "k \<notin> set vs \<Longrightarrow> protected_until (fold remove_existing vs T) k = protected_until T k"
proof (induction vs arbitrary: T)
  case (Cons v vs)
  then show ?case by (simp add: remove_existing_def protected_until_def delete_conv')
qed simp

lemma ot_write_cases:
  assumes inv: "ot_inv T" and n: "0 \<le> n"
  shows "ot_write key n now T = (Raise ConfigurationError, T) \<and> ot_capacity_blocks T \<le> 0 \<or>
    ot_write key n now T = (Ok (rejected key), T) \<and> 0 < ot_capacity_blocks T \<or>
    (\<exists>op T'. ot_write key n now T = (Ok op, T') \<and> ot_inv T' \<and> key \<notin> set (op_evicted_keys op) \<and>
       ot_capacity_blocks T' = ot_capacity_blocks T \<and> ot_used_blocks T' \<le> ot_capacity_blocks T \<and>
       map_of (ot_blocks T') = (map_of (ot_blocks T) |` (- set (op_evicted_keys op)))(key \<mapsto> n) \<and>
       set (op_evicted_keys op) \<subseteq> set (ot_lru T) \<and> (\<forall>v \<in> set (op_evicted_keys op). protected_until T v \<le> now) \<and>
       op_blocks op = n \<and> op_bytes op = n * ot_block_bytes T \<and> ot_tier T' = ot_tier T \<and>
       (\<forall>k. k \<notin> set (op_evicted_keys op) \<and> k \<noteq> key \<longrightarrow> protected_until T' k = protected_until T k))"
proof -
  define extra free where "extra = n - blocks_of T key" and "free = ot_capacity_blocks T - ot_used_blocks T"
  obtain vs a where pick: "(if free < extra then pick_victims T key now extra free (ot_lru T) else ([], free)) = (vs, a)"
    by (metis surj_pair)
  have vs: "a = free + (\<Sum>v \<leftarrow> vs. blocks_of T v)" "distinct vs" "set vs \<subseteq> set (ot_lru T)" "key \<notin> set vs"
    "\<forall>v \<in> set vs. protected_until T v \<le> now"
    using pick inv pick_victims_facts [of "ot_lru T" T key now extra free vs a] by (auto simp: ot_inv_def split: if_splits)
  define T0 where "T0 = fold remove_existing vs T"
  have T0: "ot_inv T0" "ot_used_blocks T0 = ot_used_blocks T - (\<Sum>v \<leftarrow> vs. blocks_of T v)"
    "map_of (ot_blocks T0) = map_of (ot_blocks T) |` (- set vs)" "ot_capacity_blocks T0 = ot_capacity_blocks T"
    using remove_all_facts [OF inv vs(2)] by (auto simp: T0_def)
  have key: "blocks_of T0 key = blocks_of T key" using T0(3) vs(4) by (simp add: blocks_of_def)
  have same: "ot_tier (fold remove_existing us U) = ot_tier U" for us U
    by (induction us arbitrary: U) (simp_all add: remove_existing_def)
  define T1 where "T1 = remove_existing key T0"
  note T1 = remove_existing_inv [OF T0(1), of key, folded T1_def]
  define T' where "T' = T1\<lparr>ot_blocks := AList.update key n (ot_blocks T1), ot_used_blocks := ot_used_blocks T1 + n, ot_lru := ot_lru T1 @ [key]\<rparr>"
  have new: "map_of (ot_blocks T1) key = None" using T1(3) by simp
  have upd: "AList.update key n (ot_blocks T1) = ot_blocks T1 @ [(key, n)]" by (rule dict_set_new [OF new])
  have used: "ot_used_blocks T' \<le> ot_capacity_blocks T" if "extra \<le> a"
    using that vs(1) T0(2) T1(2) key by (simp add: T'_def extra_def free_def)
  have fresh: "key \<notin> fst ` set (ot_blocks T1)" using new by (simp add: map_of_eq_None_iff)
  have inv': "ot_inv T'" if "extra \<le> a" "0 < ot_capacity_blocks T"
    using T1(1,4) T0(4) used [OF that(1)] n fresh unfolding ot_inv_def T'_def
    by (auto simp: upd)
  have "map_of (ot_blocks T') = (map_of (ot_blocks T) |` (- set vs))(key \<mapsto> n)"
    by (simp add: T'_def T1(3) T0(3))
  moreover have "ot_capacity_blocks T' = ot_capacity_blocks T" using T1(4) T0(4) by (simp add: T'_def)
  moreover have "ot_tier T' = ot_tier T" by (simp add: T'_def T1_def T0_def same remove_existing_def)
  moreover have "protected_until T' k = protected_until T k" if "k \<notin> set vs" "k \<noteq> key" for k
    using protected_remove [of k "vs @ [key]" T] that by (simp add: T'_def T1_def T0_def protected_until_def)
  ultimately show ?thesis
    using pick vs inv' used
    by (auto simp: ot_write_def extra_def [symmetric] free_def [symmetric] T0_def [symmetric] T1_def [symmetric]
        T'_def [symmetric] rejected_def Let_def)
qed

section \<open>What a client of the tier relies on\<close>

text \<open>
  A tier whose writes may evict but leave guarded entries alone. A client that guards an entry finds it again after any writes of
  other keys.
\<close>

locale protecting_tier =
  fixes inv :: "'t \<Rightarrow> bool" and put :: "'k \<Rightarrow> int \<Rightarrow> 't \<Rightarrow> 't" and lookup :: "'t \<Rightarrow> 'k \<Rightarrow> int option" and guarded :: "'t \<Rightarrow> 'k \<Rightarrow> bool"
  assumes put_inv: "inv T \<Longrightarrow> 0 \<le> n \<Longrightarrow> inv (put k n T)"
    and put_guarded: "inv T \<Longrightarrow> 0 \<le> n \<Longrightarrow> x \<noteq> k \<Longrightarrow> guarded T x \<Longrightarrow> lookup T x = Some m \<Longrightarrow>
      lookup (put k n T) x = Some m \<and> guarded (put k n T) x"
begin

lemma guarded_entry_survives:
  assumes "inv T" "\<forall>(k, n) \<in> set ws. k \<noteq> x \<and> 0 \<le> n" "guarded T x" "lookup T x = Some m"
  shows "inv (fold (\<lambda>(k, n). put k n) ws T) \<and> lookup (fold (\<lambda>(k, n). put k n) ws T) x = Some m"
  using assms
proof (induction ws arbitrary: T)
  case (Cons w ws)
  obtain k n where w: "w = (k, n)" by (cases w)
  with Cons.prems have kn: "x \<noteq> k" "0 \<le> n" by auto
  note p = put_guarded [OF Cons.prems(1) kn(2,1) Cons.prems(3,4)]
  show ?case using Cons.IH [of "put k n T"] put_inv [OF Cons.prems(1) kn(2)] p Cons.prems(2) w by simp
qed simp

end

lemma write_inv: "ot_inv T \<Longrightarrow> 0 \<le> n \<Longrightarrow> ot_inv (snd (ot_write key n now T))"
  using ot_write_cases [of T n key now] by auto

lemma write_guarded:
  assumes "ot_inv T" "0 \<le> n" "x \<noteq> key" "now < protected_until T x" "map_of (ot_blocks T) x = Some m"
  shows "map_of (ot_blocks (snd (ot_write key n now T))) x = Some m \<and> now < protected_until (snd (ot_write key n now T)) x"
  using ot_write_cases [OF assms(1,2), of key now]
proof (elim disjE exE conjE)
  fix op T' assume w: "ot_write key n now T = (Ok op, T')"
    "map_of (ot_blocks T') = (map_of (ot_blocks T) |` (- set (op_evicted_keys op)))(key \<mapsto> n)"
    "\<forall>v \<in> set (op_evicted_keys op). protected_until T v \<le> now"
    "\<forall>k. k \<notin> set (op_evicted_keys op) \<and> k \<noteq> key \<longrightarrow> protected_until T' k = protected_until T k"
  have "x \<notin> set (op_evicted_keys op)" using w(3) assms(4) by (meson not_le)
  then show ?thesis using w assms(3-5) by simp
qed (use assms in simp_all)

interpretation ot: protecting_tier ot_inv "\<lambda>k n T. snd (ot_write k n now T)" "\<lambda>T. map_of (ot_blocks T)" "\<lambda>T x. now < protected_until T x"
  for now
  by unfold_locales (rule write_inv, assumption+, rule write_guarded, assumption+)

section \<open>Properties\<close>

text \<open>The tiers that reads, pins and writes make of a new one.\<close>

inductive tier_reachable :: "offload_tier \<Rightarrow> bool" where
  reach_new: "tier_reachable (make_offload_tier tier legacy cap cost sz)"
| reach_read: "tier_reachable T \<Longrightarrow> tier_reachable (snd (ot_read key T))"
| reach_pin: "tier_reachable T \<Longrightarrow> tier_reachable (ot_pin key until T)"
| reach_written: "tier_reachable T \<Longrightarrow> 0 \<le> n \<Longrightarrow> tier_reachable (snd (ot_write key n now T))"

lemma tier_reachable_inv: "tier_reachable T \<Longrightarrow> ot_inv T"
proof (induction rule: tier_reachable.induct)
  case (reach_new tier legacy cap cost sz)
  show ?case by (rule ot_inv_new)
next
  case (reach_read T key)
  then show ?case by (auto simp: ot_read_def ot_inv_def Let_def lru_touch_def)
next
  case (reach_pin T key until)
  then show ?case by (auto simp: ot_pin_def ot_inv_def)
next
  case (reach_written T n key now)
  then show ?case by (intro write_inv)
qed

text \<open>
  C14. The offload tier never holds more than its capacity, and its count of used blocks is the sum over its entries. A write to a
  tier of positive capacity is rejected, which changes nothing and reports the key itself as evicted, or is accepted: then the key
  holds its blocks, the entries that went are those the write reports, each of them was past its protection, and every other entry
  is as before. An entry that is still protected survives any number of writes of other keys.
\<close>
theorem offload_write_safe:
  assumes "tier_reachable T" and "0 < ot_capacity_blocks T" and "0 \<le> n"
  shows "ot_used_blocks T = sum_list (map snd (ot_blocks T)) \<and> ot_used_blocks T \<le> ot_capacity_blocks T \<and>
    (ot_write key n now T = (Ok (rejected key), T) \<or>
     (\<exists>op T'. ot_write key n now T = (Ok op, T') \<and> key \<notin> set (op_evicted_keys op) \<and>
        map_of (ot_blocks T') = (map_of (ot_blocks T) |` (- set (op_evicted_keys op)))(key \<mapsto> n) \<and>
        (\<forall>v \<in> set (op_evicted_keys op). ot_contains T v \<and> protected_until T v \<le> now) \<and>
        ot_used_blocks T' \<le> ot_capacity_blocks T)) \<and>
    (\<forall>x m ws. now < protected_until T x \<and> map_of (ot_blocks T) x = Some m \<and> (\<forall>(k, n) \<in> set ws. k \<noteq> x \<and> 0 \<le> n) \<longrightarrow>
       map_of (ot_blocks (fold (\<lambda>(k, n) T. snd (ot_write k n now T)) ws T)) x = Some m)"
proof -
  have inv: "ot_inv T" by (rule tier_reachable_inv [OF assms(1)])
  have lru: "ot_contains T v" if "v \<in> set (ot_lru T)" for v
    using inv that by (auto simp: ot_inv_def ot_contains_def dest: weak_map_of_SomeI)
  have "ot_used_blocks T = sum_list (map snd (ot_blocks T))" "ot_used_blocks T \<le> ot_capacity_blocks T"
    using inv assms(2) unfolding ot_inv_def by (blast, linarith)
  moreover have "ot_write key n now T = (Ok (rejected key), T) \<or>
     (\<exists>op T'. ot_write key n now T = (Ok op, T') \<and> key \<notin> set (op_evicted_keys op) \<and>
        map_of (ot_blocks T') = (map_of (ot_blocks T) |` (- set (op_evicted_keys op)))(key \<mapsto> n) \<and>
        (\<forall>v \<in> set (op_evicted_keys op). ot_contains T v \<and> protected_until T v \<le> now) \<and>
        ot_used_blocks T' \<le> ot_capacity_blocks T)"
    using ot_write_cases [OF inv assms(3), of key now] assms(2)
  proof (elim disjE exE conjE)
    fix op T' assume w: "ot_write key n now T = (Ok op, T')" "key \<notin> set (op_evicted_keys op)" "ot_used_blocks T' \<le> ot_capacity_blocks T"
      "map_of (ot_blocks T') = (map_of (ot_blocks T) |` (- set (op_evicted_keys op)))(key \<mapsto> n)"
      "set (op_evicted_keys op) \<subseteq> set (ot_lru T)" "\<forall>v \<in> set (op_evicted_keys op). protected_until T v \<le> now"
    then have "\<forall>v \<in> set (op_evicted_keys op). ot_contains T v \<and> protected_until T v \<le> now" using lru by blast
    with w(1-4) show ?thesis by blast
  qed simp_all
  ultimately show ?thesis using ot.guarded_entry_survives [OF inv] by blast
qed

definition sample_tier :: offload_tier where
  "sample_tier = snd (ot_write ''a'' 1 0 (make_offload_tier ''ssd'' True 8 (\<lambda>_ _. 1) 4))"

theorem offload_write_safe_witness:
  "ot_used_blocks sample_tier = sum_list (map snd (ot_blocks sample_tier)) \<and> ot_used_blocks sample_tier = 1 \<and>
   (ot_write ''b'' 2 1 sample_tier = (Ok (rejected ''b''), sample_tier) \<or>
     (\<exists>op T'. ot_write ''b'' 2 1 sample_tier = (Ok op, T') \<and>
        map_of (ot_blocks T') = (map_of (ot_blocks sample_tier) |` (- set (op_evicted_keys op)))(''b'' \<mapsto> 2)))"
proof -
  have "tier_reachable sample_tier" unfolding sample_tier_def by (intro reach_written reach_new) simp
  moreover have "ot_capacity_blocks sample_tier = 2" "ot_used_blocks sample_tier = 1"
    by (simp_all add: sample_tier_def ot_write_def make_offload_tier_def remove_existing_def blocks_of_def Let_def)
  ultimately have "tier_reachable sample_tier" "0 < ot_capacity_blocks sample_tier" "ot_used_blocks sample_tier = 1" by simp_all
  with offload_write_safe [of sample_tier 2 "''b''" 1] show ?thesis by (metis zero_le_numeral)
qed

end
