(* ===== verification/Mooncake_Store.thy ===== *)
theory Mooncake_Store
  imports Pool_Key Offload_Tier
begin

text \<open>
  The external key-value store (\<^verbatim>\<open>src/TokenSim/mooncake/store.py\<close>): a memory tier with least-recently-used
  eviction in front of an optional offload tier. An object of the store is found under its key, and a write to
  it is a write to that entry. The counters of one store and tier
  (\<^verbatim>\<open>src/TokenSim/storage/metrics.py\<close>) are part of the statistics a call is given.
\<close>

section \<open>Objects, counters and configuration\<close>

record store_object =
  so_blocks :: int
  so_bytes :: int
  so_tier :: string
  so_segment :: string
  so_replicas :: int
  so_persisted :: bool
  so_last_access :: int
  so_ready_at :: real
  so_in_use_until :: real

record store_hit =
  sh_keys :: "pool_key list"
  sh_hit_blocks :: nat
  sh_tier :: "string option"

record write_timing =
  accounting_latency :: real
  blocking_latency :: real

definition no_timing :: write_timing where
  "no_timing = \<lparr>accounting_latency = 0, blocking_latency = 0\<rparr>"

definition add_timing :: "write_timing \<Rightarrow> write_timing \<Rightarrow> write_timing" where
  "add_timing a b = \<lparr>accounting_latency = accounting_latency a + accounting_latency b,
     blocking_latency = blocking_latency a + blocking_latency b\<rparr>"

record backend_metrics =
  bk_hit_count :: int
  bk_read_operations :: int
  bk_read_blocks :: int
  bk_read_bytes :: int
  bk_read_service_seconds :: real
  bk_write_operations :: int
  bk_write_blocks :: int
  bk_write_bytes :: int
  bk_write_service_seconds :: real

definition record_io :: "io_op \<Rightarrow> int \<Rightarrow> int \<Rightarrow> real \<Rightarrow> backend_metrics \<Rightarrow> backend_metrics" where
  "record_io op blocks nbytes seconds b =
     (if nbytes \<le> 0 then b
      else case op of
             IORead \<Rightarrow> b\<lparr>bk_read_operations := bk_read_operations b + 1, bk_read_blocks := bk_read_blocks b + blocks,
                 bk_read_bytes := bk_read_bytes b + nbytes, bk_read_service_seconds := bk_read_service_seconds b + seconds\<rparr>
           | IOWrite \<Rightarrow> b\<lparr>bk_write_operations := bk_write_operations b + 1, bk_write_blocks := bk_write_blocks b + blocks,
                 bk_write_bytes := bk_write_bytes b + nbytes, bk_write_service_seconds := bk_write_service_seconds b + seconds\<rparr>)"

record store_stats =
  ss_get_count :: int
  ss_put_count :: int
  ss_store_hit_count :: int
  ss_store_miss_count :: int
  ss_memory_tier_hit_count :: int
  ss_disk_tier_hit_count :: int
  ss_ssd_read_blocks :: int
  ss_ssd_read_bytes :: int
  ss_ssd_write_blocks :: int
  ss_ssd_write_bytes :: int
  ss_admission_count :: int
  ss_admission_rejection_count :: int
  ss_eviction_count :: int
  ss_backend :: backend_metrics

record mooncake_config =
  mc_global_segment_size :: int
  mc_memory_capacity_blocks :: "int option"
  mc_enable_offload :: bool
  mc_replica_num :: int
  mc_admission_policy :: string
  mc_eviction_policy :: string
  mc_preferred_segment :: "string option"

record mstore =
  mo_config :: mooncake_config
  mo_block_bytes :: int
  mo_memory_capacity_bytes :: int
  mo_memory_used_bytes :: int
  mo_objects :: "(string \<times> store_object) list"
  mo_memory_lru :: "string list"
  mo_offload :: "offload_tier option"
  mo_access_counter :: int

type_synonym mstate = "mstore \<times> store_stats"

text \<open>The constructor; \<open>tier\<close> is the offload tier that the configuration describes.\<close>

definition make_store :: "mooncake_config \<Rightarrow> int \<Rightarrow> offload_tier \<Rightarrow> mstore" where
  "make_store c block_bytes tier =
     (let bb = max 1 block_bytes
      in \<lparr>mo_config = c, mo_block_bytes = bb,
          mo_memory_capacity_bytes = (case mc_memory_capacity_blocks c of Some n \<Rightarrow> n * bb | None \<Rightarrow> mc_global_segment_size c),
          mo_memory_used_bytes = 0, mo_objects = [], mo_memory_lru = [],
          mo_offload = (if mc_enable_offload c then Some tier else None), mo_access_counter = 0\<rparr>)"

definition is_offload_tier :: "mstore \<Rightarrow> string \<Rightarrow> bool" where
  "is_offload_tier S tier \<longleftrightarrow> (case mo_offload S of None \<Rightarrow> False | Some T \<Rightarrow> tier = ot_tier T)"

definition active_tier :: "mstore \<Rightarrow> offload_tier option" where
  "active_tier S = (if mc_enable_offload (mo_config S) then mo_offload S else None)"

definition tier_lacks :: "mstore \<Rightarrow> string \<Rightarrow> bool" where
  "tier_lacks S key \<longleftrightarrow> (case mo_offload S of None \<Rightarrow> False | Some T \<Rightarrow> \<not> ot_contains T key)"

definition upd_object :: "string \<Rightarrow> (store_object \<Rightarrow> store_object) \<Rightarrow> mstore \<Rightarrow> mstore" where
  "upd_object key f S = S\<lparr>mo_objects := map (\<lambda>(k, ob). if k = key then (k, f ob) else (k, ob)) (mo_objects S)\<rparr>"

definition upd_tier :: "(offload_tier \<Rightarrow> offload_tier) \<Rightarrow> mstore \<Rightarrow> mstore" where
  "upd_tier f S = S\<lparr>mo_offload := map_option f (mo_offload S)\<rparr>"

section \<open>Reading\<close>

fun hit_prefix :: "mstore \<Rightarrow> real \<Rightarrow> string option \<Rightarrow> pool_key list \<Rightarrow> pool_key list \<times> string option" where
  "hit_prefix S now slowest [] = ([], slowest)"
| "hit_prefix S now slowest (k # ks) =
     (case map_of (mo_objects S) (to_string k) of
        None \<Rightarrow> ([], slowest)
      | Some ob \<Rightarrow>
          if now < so_ready_at ob then ([], slowest)
          else if is_offload_tier S (so_tier ob) \<and> tier_lacks S (to_string k) then ([], slowest)
          else
            (let slowest1 = (if is_offload_tier S (so_tier ob) then Some (so_tier ob)
                             else if slowest = None then Some ''memory'' else slowest);
                 (hits, tier) = hit_prefix S now slowest1 ks
             in (k # hits, tier)))"

definition ms_lookup :: "pool_key list \<Rightarrow> real \<Rightarrow> mstate \<Rightarrow> store_hit \<times> mstate" where
  "ms_lookup keys now s =
     (let (S, st) = s
      in if keys = [] then (\<lparr>sh_keys = [], sh_hit_blocks = 0, sh_tier = None\<rparr>, s)
         else
           (let (hits, tier) = hit_prefix S now None keys;
                st1 = (if hits = [] then st\<lparr>ss_store_miss_count := ss_store_miss_count st + 1\<rparr>
                       else
                         (let st0 = st\<lparr>ss_store_hit_count := ss_store_hit_count st + 1\<rparr>
                          in if is_offload_tier S (the tier) then
                               st0\<lparr>ss_disk_tier_hit_count := ss_disk_tier_hit_count st0 + 1,
                                   ss_backend := (ss_backend st0)\<lparr>bk_hit_count := bk_hit_count (ss_backend st0) + 1\<rparr>\<rparr>
                             else st0\<lparr>ss_memory_tier_hit_count := ss_memory_tier_hit_count st0 + 1\<rparr>))
            in (\<lparr>sh_keys = hits, sh_hit_blocks = length hits, sh_tier = tier\<rparr>, (S, st1))))"

definition missing_indices :: "mstore \<Rightarrow> pool_key list \<Rightarrow> nat list" where
  "missing_indices S keys =
     filter (\<lambda>i. case map_of (mo_objects S) (to_string (keys ! i)) of
                   None \<Rightarrow> True
                 | Some ob \<Rightarrow> is_offload_tier S (so_tier ob) \<and> tier_lacks S (to_string (keys ! i)))
       [0..<length keys]"

definition ms_touch :: "string \<Rightarrow> mstore \<Rightarrow> mstore" where
  "ms_touch key S =
     (let n = mo_access_counter S + 1;
          S1 = upd_object key (\<lambda>ob. ob\<lparr>so_last_access := n\<rparr>) (S\<lparr>mo_access_counter := n\<rparr>)
      in case map_of (mo_objects S) key of
           None \<Rightarrow> S1
         | Some ob \<Rightarrow>
             if so_tier ob = ''memory'' \<and> key \<in> set (mo_memory_lru S) then S1\<lparr>mo_memory_lru := lru_touch key (mo_memory_lru S)\<rparr>
             else S1)"

definition record_offload_read :: "offload_op \<Rightarrow> mstore \<Rightarrow> store_stats \<Rightarrow> store_stats" where
  "record_offload_read op S st =
     (let st1 = st\<lparr>ss_backend := record_io IORead (op_blocks op) (op_bytes op) (op_latency op) (ss_backend st)\<rparr>
      in if (case mo_offload S of None \<Rightarrow> False | Some T \<Rightarrow> ot_legacy_ssd T) then
           st1\<lparr>ss_ssd_read_blocks := ss_ssd_read_blocks st1 + op_blocks op,
               ss_ssd_read_bytes := ss_ssd_read_bytes st1 + op_bytes op\<rparr>
         else st1)"

text \<open>The first loop of \<^verbatim>\<open>get\<close>: touch every object and read it from the offload tier when it is there.\<close>

fun read_each :: "real \<Rightarrow> real \<Rightarrow> pool_key list \<Rightarrow> mstate \<Rightarrow> real result \<times> mstate" where
  "read_each now latency [] s = (Ok latency, s)"
| "read_each now latency (k # ks) s =
     (let (S, st) = s; key = to_string k
      in case map_of (mo_objects S) key of
           None \<Rightarrow> (Raise SimulationStateError, s)
         | Some ob \<Rightarrow>
             if now < so_ready_at ob then (Raise SimulationStateError, s)
             else
               (let S1 = ms_touch key S
                in case mo_offload S1 of
                     None \<Rightarrow> read_each now latency ks (S1, st)
                   | Some T \<Rightarrow>
                       if is_offload_tier S1 (so_tier ob) then
                         (let (op, T1) = ot_read key T; S2 = S1\<lparr>mo_offload := Some T1\<rparr>
                          in read_each now (latency + op_latency op) ks (S2, record_offload_read op S2 st))
                       else read_each now latency ks (S1, st)))"

text \<open>The second loop: every object stays in use until the read is over.\<close>

definition hold_one :: "real \<Rightarrow> pool_key \<Rightarrow> mstore \<Rightarrow> mstore" where
  "hold_one until k S =
     (let key = to_string k; S1 = upd_object key (\<lambda>ob. ob\<lparr>so_in_use_until := max (so_in_use_until ob) until\<rparr>) S
      in case map_of (mo_objects S1) key of
           None \<Rightarrow> S1
         | Some ob \<Rightarrow> if is_offload_tier S1 (so_tier ob) then upd_tier (ot_pin key (so_in_use_until ob)) S1 else S1)"

definition ms_get :: "pool_key list \<Rightarrow> real \<Rightarrow> real \<Rightarrow> mstate \<Rightarrow> real result \<times> mstate" where
  "ms_get keys now initial_delay s =
     (if keys = [] then (Ok 0, s)
      else
        (let (S, st) = s
         in and_then (read_each now 0 keys (S, st\<lparr>ss_get_count := ss_get_count st + 1\<rparr>))
              (\<lambda>latency s1. (Ok latency, fold (hold_one (now + initial_delay + latency)) keys (fst s1), snd s1))))"

section \<open>Writing\<close>

definition drop_evicted :: "string \<Rightarrow> mstate \<Rightarrow> mstate" where
  "drop_evicted key s =
     (let (S, st) = s
      in case map_of (mo_objects S) key of
           None \<Rightarrow> s
         | Some ob \<Rightarrow>
             (let S1 = upd_object key (\<lambda>ob. ob\<lparr>so_persisted := False\<rparr>) S
              in if is_offload_tier S (so_tier ob) then
                   (S1\<lparr>mo_objects := AList.delete key (mo_objects S1)\<rparr>, st\<lparr>ss_eviction_count := ss_eviction_count st + 1\<rparr>)
                 else (S1, st)))"

definition record_offload_write :: "offload_op \<Rightarrow> mstate \<Rightarrow> mstate" where
  "record_offload_write op s =
     (let (S, st) = s;
          st1 = st\<lparr>ss_backend := record_io IOWrite (op_blocks op) (op_bytes op) (op_latency op) (ss_backend st)\<rparr>;
          st2 = (if (case mo_offload S of None \<Rightarrow> False | Some T \<Rightarrow> ot_legacy_ssd T) then
                   st1\<lparr>ss_ssd_write_blocks := ss_ssd_write_blocks st1 + op_blocks op,
                       ss_ssd_write_bytes := ss_ssd_write_bytes st1 + op_bytes op\<rparr>
                 else st1)
      in fold drop_evicted (op_evicted_keys op) (S, st2))"

text \<open>
  \<^verbatim>\<open>_write_timing\<close> writes two fields of the object and pins its key; an object that is not yet in the store
  is given the same two fields by \<open>persist\<close>.
\<close>

definition persist :: "real \<Rightarrow> store_object \<Rightarrow> store_object" where
  "persist ready ob = ob\<lparr>so_persisted := True, so_ready_at := ready\<rparr>"

definition ms_write_timing :: "string \<Rightarrow> real \<Rightarrow> real \<Rightarrow> real \<Rightarrow> mstore \<Rightarrow> write_timing \<times> mstore" where
  "ms_write_timing key media_latency now initial_delay S =
     (let ready = now + initial_delay + media_latency
      in (\<lparr>accounting_latency = media_latency, blocking_latency = media_latency\<rparr>,
          upd_tier (ot_pin key ready) (upd_object key (persist ready) S)))"

text \<open>The branch of \<^verbatim>\<open>_evict_memory\<close> that moves an object to the offload tier.\<close>

definition evict_to_tier :: "offload_tier \<Rightarrow> string \<Rightarrow> int \<Rightarrow> real \<Rightarrow> mstate \<Rightarrow> write_timing result \<times> mstate" where
  "evict_to_tier T key blocks now s =
     (let S1 = upd_object key (\<lambda>ob. ob\<lparr>so_tier := ot_tier T\<rparr>) (fst s)
      in if ot_contains T key then (Ok no_timing, (S1, snd s))
         else case ot_write key blocks now T of
                (Raise e, T1) \<Rightarrow> (Raise e, (S1\<lparr>mo_offload := Some T1\<rparr>, snd s))
              | (Ok op, T1) \<Rightarrow>
                  (let s2 = record_offload_write op (S1\<lparr>mo_offload := Some T1\<rparr>, snd s)
                   in if key \<notin> set (op_evicted_keys op) then
                        (let (timing, S3) = ms_write_timing key (op_latency op) now 0 (fst s2)
                         in (Ok timing, (S3, snd s2)))
                      else (Ok no_timing, s2)))"

definition evict_memory :: "string \<Rightarrow> real \<Rightarrow> mstate \<Rightarrow> write_timing result \<times> mstate" where
  "evict_memory key now s =
     (let (S, st) = s; S1 = S\<lparr>mo_memory_lru := filter (\<lambda>k. k \<noteq> key) (mo_memory_lru S)\<rparr>
      in if key \<notin> set (mo_memory_lru S) then (Raise PyKeyError, s)
         else case map_of (mo_objects S) key of
           None \<Rightarrow> (Ok no_timing, (S1, st))
         | Some ob \<Rightarrow>
             if so_tier ob \<noteq> ''memory'' then (Ok no_timing, (S1, st))
             else
               (let S2 = S1\<lparr>mo_memory_used_bytes := mo_memory_used_bytes S1 - so_bytes ob\<rparr>;
                    st1 = st\<lparr>ss_eviction_count := ss_eviction_count st + 1\<rparr>
                in case active_tier S of
                     None \<Rightarrow> (Ok no_timing, (S2\<lparr>mo_objects := AList.delete key (mo_objects S)\<rparr>, st1))
                   | Some T \<Rightarrow> evict_to_tier T key (so_blocks ob) now (S2, st1)))"

fun first_idle :: "mstore \<Rightarrow> real \<Rightarrow> string list \<Rightarrow> string option result" where
  "first_idle S now [] = Ok None"
| "first_idle S now (k # ks) =
     (case map_of (mo_objects S) k of
        None \<Rightarrow> Raise PyKeyError
      | Some ob \<Rightarrow> if max (so_ready_at ob) (so_in_use_until ob) \<le> now then Ok (Some k) else first_idle S now ks)"

lemma lru_upd [simp]: "mo_memory_lru (upd_object k f S) = mo_memory_lru S" "mo_memory_lru (upd_tier g S) = mo_memory_lru S"
  by (simp_all add: upd_object_def upd_tier_def)

lemma lru_record_write [simp]: "mo_memory_lru (fst (record_offload_write op s)) = mo_memory_lru (fst s)"
proof -
  have "mo_memory_lru (fst (fold drop_evicted ks s)) = mo_memory_lru (fst s)" for ks s
    by (induction ks arbitrary: s) (auto simp: drop_evicted_def Let_def split: prod.split option.split)
  then show ?thesis by (auto simp: record_offload_write_def Let_def split: prod.split)
qed

lemma lru_write_timing [simp]: "mo_memory_lru (snd (ms_write_timing key lat now d S)) = mo_memory_lru S"
  by (simp add: ms_write_timing_def Let_def)

lemma lru_evict_to_tier: "mo_memory_lru (fst (snd (evict_to_tier T key n now s))) = mo_memory_lru (fst s)"
  by (simp add: evict_to_tier_def Let_def case_prod_beta split: prod.split result.split)

lemma lru_evict:
  assumes "fst (evict_memory key now s) = Ok t"
  shows "mo_memory_lru (fst (snd (evict_memory key now s))) = filter (\<lambda>k. k \<noteq> key) (mo_memory_lru (fst s))"
    "key \<in> set (mo_memory_lru (fst s))"
  using assms by (cases s; simp add: evict_memory_def Let_def lru_evict_to_tier split: option.splits if_splits)+

lemma lru_evict_less:
  assumes "evict_memory key now s = (Ok t, s1)"
  shows "length (mo_memory_lru (fst s1)) < length (mo_memory_lru (fst s))"
  using lru_evict [of key now s t] assms by (simp add: length_filter_less)

text \<open>The loop of \<^verbatim>\<open>_ensure_memory_capacity\<close>; every round takes one key out of the recency list.\<close>

function ensure_loop :: "int \<Rightarrow> real \<Rightarrow> write_timing \<Rightarrow> mstate \<Rightarrow> (bool \<times> write_timing) result \<times> mstate" where
  "ensure_loop bytes now timing s =
     (let S = fst s
      in if mo_memory_used_bytes S + bytes \<le> mo_memory_capacity_bytes S then (Ok (True, timing), s)
         else if mc_eviction_policy (mo_config S) \<noteq> ''lru'' \<or> mo_memory_lru S = [] then (Ok (False, timing), s)
         else case first_idle S now (mo_memory_lru S) of
                Raise e \<Rightarrow> (Raise e, s)
              | Ok None \<Rightarrow> (Ok (False, timing), s)
              | Ok (Some key) \<Rightarrow>
                  (case evict_memory key now s of
                     (Raise e, s1) \<Rightarrow> (Raise e, s1)
                   | (Ok t, s1) \<Rightarrow> ensure_loop bytes now (add_timing timing t) s1))"
  by pat_completeness auto

termination ensure_loop
  by (relation "measure (\<lambda>(bytes, now, timing, s). length (mo_memory_lru (fst s)))") (auto dest: lru_evict_less [OF sym] lru_evict_less)

declare ensure_loop.simps [simp del]

definition ensure_memory_capacity :: "int \<Rightarrow> real \<Rightarrow> mstate \<Rightarrow> (bool \<times> write_timing) result \<times> mstate" where
  "ensure_memory_capacity bytes now s =
     (if mo_memory_capacity_bytes (fst s) < bytes then (Ok (False, no_timing), s) else ensure_loop bytes now no_timing s)"

definition new_object :: "mstore \<Rightarrow> real \<Rightarrow> store_object" where
  "new_object S ready =
     \<lparr>so_blocks = 1, so_bytes = mo_block_bytes S, so_tier = ''memory'',
      so_segment = (case mc_preferred_segment (mo_config S) of None \<Rightarrow> ''global'' | Some g \<Rightarrow> if g = '''' then ''global'' else g),
      so_replicas = mc_replica_num (mo_config S), so_persisted = False, so_last_access = 0, so_ready_at = ready,
      so_in_use_until = 0\<rparr>"

definition count_rejection :: "store_stats \<Rightarrow> store_stats" where
  "count_rejection st = st\<lparr>ss_admission_rejection_count := ss_admission_rejection_count st + 1\<rparr>"

definition count_admission :: "store_stats \<Rightarrow> store_stats" where
  "count_admission st = st\<lparr>ss_admission_count := ss_admission_count st + 1\<rparr>"

text \<open>The two ends of \<^verbatim>\<open>_put_one\<close>: an object without room in memory, and one with room.\<close>

definition put_without_room ::
  "string \<Rightarrow> store_object \<Rightarrow> real \<Rightarrow> real \<Rightarrow> write_timing \<Rightarrow> mstate \<Rightarrow> write_timing result \<times> mstate" where
  "put_without_room key ob now initial_delay timing s =
     (let (S, st) = s
      in case active_tier S of
           None \<Rightarrow> (Ok timing, (S, count_rejection st))
         | Some T \<Rightarrow>
             (case ot_write key (so_blocks ob) now T of
                (Raise e, T1) \<Rightarrow> (Raise e, (S\<lparr>mo_offload := Some T1\<rparr>, st))
              | (Ok op, T1) \<Rightarrow>
                  if key \<in> set (op_evicted_keys op) then (Ok timing, (S\<lparr>mo_offload := Some T1\<rparr>, count_rejection st))
                  else
                    (let delay = initial_delay + accounting_latency timing;
                         (t, S1) = ms_write_timing key (op_latency op) now delay (S\<lparr>mo_offload := Some T1\<rparr>);
                         (S2, st2) = record_offload_write op (S1, st);
                         ob1 = persist (now + delay + op_latency op) (ob\<lparr>so_tier := ot_tier T\<rparr>)
                     in (Ok (add_timing timing t),
                         (S2\<lparr>mo_objects := AList.update key ob1 (mo_objects S2)\<rparr>, count_admission st2)))))"

definition put_in_memory ::
  "string \<Rightarrow> store_object \<Rightarrow> real \<Rightarrow> real \<Rightarrow> write_timing \<Rightarrow> mstate \<Rightarrow> write_timing result \<times> mstate" where
  "put_in_memory key ob now initial_delay timing s =
     (let (S, st) = s;
          ob1 = ob\<lparr>so_ready_at := so_ready_at ob + accounting_latency timing\<rparr>;
          S1 = S\<lparr>mo_objects := AList.update key ob1 (mo_objects S), mo_memory_used_bytes := mo_memory_used_bytes S + so_bytes ob,
                 mo_memory_lru := mo_memory_lru S @ [key]\<rparr>;
          st1 = count_admission st
      in case active_tier S1 of
           None \<Rightarrow> (Ok timing, (S1, st1))
         | Some T \<Rightarrow>
             (case ot_write key (so_blocks ob) now T of
                (Raise e, T1) \<Rightarrow> (Raise e, (S1\<lparr>mo_offload := Some T1\<rparr>, st1))
              | (Ok op, T1) \<Rightarrow>
                  (let (S2, st2) = record_offload_write op (S1\<lparr>mo_offload := Some T1\<rparr>, st1)
                   in if key \<notin> set (op_evicted_keys op) then
                        (let (t, S3) = ms_write_timing key (op_latency op) now (initial_delay + accounting_latency timing) S2
                         in (Ok (add_timing timing t), (S3, st2)))
                      else (Ok timing, (S2, st2)))))"

definition put_one :: "pool_key \<Rightarrow> real \<Rightarrow> real \<Rightarrow> mstate \<Rightarrow> write_timing result \<times> mstate" where
  "put_one k now initial_delay s =
     (let (S, st) = s; key = to_string k
      in case map_of (mo_objects S) key of
           Some _ \<Rightarrow> (Ok no_timing, (ms_touch key S, st))
         | None \<Rightarrow>
             (let ob = new_object S (now + initial_delay)
              in and_then (ensure_memory_capacity (so_bytes ob) now s)
                   (\<lambda>(has_room, timing).
                      if has_room then put_in_memory key ob now initial_delay timing
                      else put_without_room key ob now initial_delay timing)))"

fun put_each :: "real \<Rightarrow> real \<Rightarrow> write_timing \<Rightarrow> pool_key list \<Rightarrow> mstate \<Rightarrow> write_timing result \<times> mstate" where
  "put_each now initial_delay timing [] s = (Ok timing, s)"
| "put_each now initial_delay timing (k # ks) s =
     and_then (put_one k now (initial_delay + accounting_latency timing) s)
       (\<lambda>t. put_each now initial_delay (add_timing timing t) ks)"

definition eviction_policy_allows_batch :: "mstore \<Rightarrow> int \<Rightarrow> bool" where
  "eviction_policy_allows_batch S blocks \<longleftrightarrow>
     mc_eviction_policy (mo_config S) = ''lru'' \<and> blocks * mo_block_bytes S \<le> mo_memory_capacity_bytes S"

text \<open>The slice \<^verbatim>\<open>keys[:blocks]\<close> and the keys of \<^verbatim>\<open>dict.fromkeys\<close>.\<close>

definition slice_to :: "int \<Rightarrow> 'a list \<Rightarrow> 'a list" where
  "slice_to n xs = (if 0 \<le> n then take (nat n) xs else take (nat (int (length xs) + n)) xs)"

fun from_keys :: "'a list \<Rightarrow> 'a list" where
  "from_keys [] = []"
| "from_keys (x # xs) = x # filter (\<lambda>y. y \<noteq> x) (from_keys xs)"

definition batch_touch :: "string \<Rightarrow> mstore \<Rightarrow> mstore" where
  "batch_touch key S =
     ms_touch key (if key \<in> set (mo_memory_lru S) then S else S\<lparr>mo_memory_lru := mo_memory_lru S @ [key]\<rparr>)"

definition put_batch :: "string list \<Rightarrow> string list \<Rightarrow> real \<Rightarrow> mstate \<Rightarrow> mstate" where
  "put_batch selected fresh ready s =
     (let (S, st) = s;
          S1 = S\<lparr>mo_objects := fold (\<lambda>k. AList.update k (new_object S ready)) fresh (mo_objects S),
                 mo_memory_used_bytes := mo_memory_used_bytes S + int (length fresh) * mo_block_bytes S\<rparr>
      in (fold batch_touch selected S1, st\<lparr>ss_admission_count := ss_admission_count st + int (length fresh)\<rparr>))"

definition put_with_timing ::
  "pool_key list \<Rightarrow> int option \<Rightarrow> real \<Rightarrow> real \<Rightarrow> string option \<Rightarrow> mstate \<Rightarrow> write_timing result \<times> mstate" where
  "put_with_timing keys blocks_arg now initial_delay admission s =
     (let (S, st) = s;
          policy = (case admission of None \<Rightarrow> mc_admission_policy (mo_config S)
                    | Some p \<Rightarrow> if p = '''' then mc_admission_policy (mo_config S) else p)
      in if policy = ''never'' \<or> keys = [] then
           (Ok no_timing, (S, st\<lparr>ss_admission_rejection_count := ss_admission_rejection_count st + int (length keys)\<rparr>))
         else
           (let st1 = st\<lparr>ss_put_count := ss_put_count st + 1\<rparr>;
                blocks = (case blocks_arg of Some b \<Rightarrow> b | None \<Rightarrow> int (length keys));
                selected = from_keys (map to_string (slice_to blocks keys));
                fresh = filter (\<lambda>k. map_of (mo_objects S) k = None) selected
            in if \<not> mc_enable_offload (mo_config S) \<and> 64 < blocks \<and> eviction_policy_allows_batch S blocks \<and>
                  mo_memory_used_bytes S + int (length fresh) * mo_block_bytes S \<le> mo_memory_capacity_bytes S
               then (Ok no_timing, put_batch selected fresh (now + initial_delay) (S, st1))
               else put_each now initial_delay no_timing (slice_to blocks keys) (S, st1)))"

definition ms_put :: "pool_key list \<Rightarrow> int option \<Rightarrow> real \<Rightarrow> real \<Rightarrow> mstate \<Rightarrow> real result \<times> mstate" where
  "ms_put keys blocks now initial_delay s =
     and_then (put_with_timing keys blocks now initial_delay None s) (\<lambda>t s1. (Ok (blocking_latency t), s1))"

end
