(* ===== verification/Store_Invariant.thy ===== *)
theory Store_Invariant
  imports Mooncake_Store
begin

text \<open>
  What the external key-value store keeps: the memory account and the recency list agree with the objects, the
  persisted flag is membership in the offload tier, and no object is evicted while it is written or read.
\<close>

section \<open>The invariant, key by key\<close>

definition tier_has :: "mstore \<Rightarrow> string \<Rightarrow> bool" where
  "tier_has S key \<longleftrightarrow> (case mo_offload S of None \<Rightarrow> False | Some T \<Rightarrow> ot_contains T key)"

definition busy_until :: "store_object \<Rightarrow> real" where
  "busy_until ob = max (so_ready_at ob) (so_in_use_until ob)"

text \<open>An object outside memory lies in the offload tier and is protected there while it is busy.\<close>

definition in_tier :: "real \<Rightarrow> mstore \<Rightarrow> string \<Rightarrow> store_object \<Rightarrow> bool" where
  "in_tier clock S key ob \<longleftrightarrow>
     (case mo_offload S of None \<Rightarrow> False
      | Some T \<Rightarrow> so_tier ob = ot_tier T \<and> ot_contains T key \<and> busy_until ob \<le> max (protected_until T key) clock)"

definition key_ok :: "real \<Rightarrow> mstore \<Rightarrow> string \<Rightarrow> bool" where
  "key_ok clock S key \<longleftrightarrow>
     (case map_of (mo_objects S) key of
        None \<Rightarrow> key \<notin> set (mo_memory_lru S) \<and> \<not> tier_has S key
      | Some ob \<Rightarrow> so_blocks ob = 1 \<and> so_bytes ob = mo_block_bytes S \<and> so_persisted ob = tier_has S key \<and>
          (so_tier ob = ''memory'' \<longleftrightarrow> key \<in> set (mo_memory_lru S)) \<and>
          (so_tier ob \<noteq> ''memory'' \<longrightarrow> in_tier clock S key ob))"

definition frame_ok :: "mstore \<Rightarrow> bool" where
  "frame_ok S \<longleftrightarrow> distinct (mo_memory_lru S) \<and> 0 < mo_block_bytes S \<and>
     mo_memory_used_bytes S = mo_block_bytes S * int (length (mo_memory_lru S)) \<and>
     mo_memory_used_bytes S \<le> max 0 (mo_memory_capacity_bytes S) \<and>
     (mc_enable_offload (mo_config S) \<longleftrightarrow> mo_offload S \<noteq> None) \<and>
     (case mo_offload S of None \<Rightarrow> True | Some T \<Rightarrow> ot_inv T \<and> 0 < ot_capacity_blocks T \<and> ot_tier T \<noteq> ''memory'')"

definition store_ok :: "real \<Rightarrow> mstore \<Rightarrow> bool" where
  "store_ok clock S \<longleftrightarrow> frame_ok S \<and> (\<forall>k. key_ok clock S k)"

text \<open>The objects that are still written or read at \<open>now\<close> stay where they are.\<close>

definition keeps_busy :: "real \<Rightarrow> mstore \<Rightarrow> mstore \<Rightarrow> bool" where
  "keeps_busy now S S' \<longleftrightarrow>
     (\<forall>k ob. map_of (mo_objects S) k = Some ob \<and> now < busy_until ob \<longrightarrow>
        (\<exists>ob'. map_of (mo_objects S') k = Some ob' \<and> so_tier ob' = so_tier ob \<and> busy_until ob' = busy_until ob))"

lemma keeps_busy_refl: "keeps_busy now S S"
  by (simp add: keeps_busy_def)

lemma keeps_busy_trans: "keeps_busy now S S' \<Longrightarrow> keeps_busy now S' S'' \<Longrightarrow> keeps_busy now S S''"
  unfolding keeps_busy_def by metis

lemma store_ok_later: "store_ok clock S \<Longrightarrow> clock \<le> now \<Longrightarrow> store_ok now S"
  unfolding store_ok_def key_ok_def in_tier_def
  by (fastforce split: option.splits)

section \<open>The elementary writes\<close>

lemma map_of_upd_object [simp]:
  "map_of (mo_objects (upd_object key f S)) = (map_of (mo_objects S))(key := map_option f (map_of (mo_objects S) key))"
proof -
  have "map_of (map (\<lambda>(k, ob). if k = key then (k, f ob) else (k, ob)) xs) = (map_of xs)(key := map_option f (map_of xs key))" for xs
    by (induction xs) (auto simp: fun_eq_iff)
  then show ?thesis by (simp add: upd_object_def)
qed

lemma upd_object_fields [simp]:
  "mo_config (upd_object k f S) = mo_config S" "mo_block_bytes (upd_object k f S) = mo_block_bytes S"
  "mo_memory_capacity_bytes (upd_object k f S) = mo_memory_capacity_bytes S"
  "mo_memory_used_bytes (upd_object k f S) = mo_memory_used_bytes S" "mo_offload (upd_object k f S) = mo_offload S"
  by (simp_all add: upd_object_def)

lemma upd_tier_fields [simp]:
  "mo_config (upd_tier g S) = mo_config S" "mo_block_bytes (upd_tier g S) = mo_block_bytes S"
  "mo_memory_capacity_bytes (upd_tier g S) = mo_memory_capacity_bytes S" "mo_objects (upd_tier g S) = mo_objects S"
  "mo_memory_used_bytes (upd_tier g S) = mo_memory_used_bytes S" "mo_offload (upd_tier g S) = map_option g (mo_offload S)"
  by (simp_all add: upd_tier_def)

lemma pin_fields [simp]:
  "ot_tier (ot_pin k t T) = ot_tier T" "ot_contains (ot_pin k t T) = ot_contains T" "ot_inv (ot_pin k t T) = ot_inv T"
  "ot_capacity_blocks (ot_pin k t T) = ot_capacity_blocks T"
  "protected_until (ot_pin k t T) k' = (if k' = k then max (protected_until T k) t else protected_until T k')"
  by (auto simp: ot_pin_def ot_contains_def ot_inv_def protected_until_def fun_eq_iff update_conv')

definition same_frame :: "mstore \<Rightarrow> mstore \<Rightarrow> bool" where
  "same_frame S S' \<longleftrightarrow> mo_config S' = mo_config S \<and> mo_block_bytes S' = mo_block_bytes S \<and>
     mo_memory_capacity_bytes S' = mo_memory_capacity_bytes S \<and> mo_memory_used_bytes S' = mo_memory_used_bytes S \<and>
     mo_memory_lru S' = mo_memory_lru S \<and> mo_offload S' = mo_offload S"

text \<open>What the store forgets when the offload tier has evicted some keys.\<close>

definition forget_one :: "mstore \<Rightarrow> store_object \<Rightarrow> store_object option" where
  "forget_one S ob = (if is_offload_tier S (so_tier ob) then None else Some (ob\<lparr>so_persisted := False\<rparr>))"

lemma drop_evicted_facts:
  "same_frame S (fst (drop_evicted key (S, st))) \<and>
   map_of (mo_objects (fst (drop_evicted key (S, st)))) = (map_of (mo_objects S))(key := Option.bind (map_of (mo_objects S) key) (forget_one S))"
  by (auto simp: drop_evicted_def Let_def forget_one_def same_frame_def fun_eq_iff delete_conv' split: option.split)

lemma fold_drop_facts:
  "same_frame (fst s) (fst (fold drop_evicted ks s)) \<and>
   map_of (mo_objects (fst (fold drop_evicted ks s))) =
     (\<lambda>k. if k \<in> set ks then Option.bind (map_of (mo_objects (fst s)) k) (forget_one (fst s)) else map_of (mo_objects (fst s)) k)"
proof (induction ks arbitrary: s)
  case (Cons k ks)
  let ?s = "drop_evicted k s"
  have d: "same_frame (fst s) (fst ?s)"
    "map_of (mo_objects (fst ?s)) = (map_of (mo_objects (fst s)))(k := Option.bind (map_of (mo_objects (fst s)) k) (forget_one (fst s)))"
    using drop_evicted_facts [of "fst s" k "snd s"] by simp_all
  have f: "forget_one (fst ?s) = forget_one (fst s)" using d(1) by (simp add: same_frame_def forget_one_def is_offload_tier_def fun_eq_iff)
  have twice: "Option.bind (forget_one (fst s) y) (forget_one (fst s)) = forget_one (fst s) y" for y
    by (simp add: forget_one_def)
  have "same_frame (fst s) (fst (fold drop_evicted (k # ks) s))" using Cons.IH [of ?s] d(1) by (simp add: same_frame_def)
  moreover have "map_of (mo_objects (fst (fold drop_evicted (k # ks) s))) x =
      (if x \<in> set (k # ks) then Option.bind (map_of (mo_objects (fst s)) x) (forget_one (fst s)) else map_of (mo_objects (fst s)) x)" for x
    using fun_cong [OF conjunct2 [OF Cons.IH [of ?s]], of x] unfolding f d(2) by (simp add: twice)
  ultimately show ?case by blast
qed (simp add: same_frame_def)

lemma record_write_facts:
  "same_frame S (fst (record_offload_write op (S, st)))"
  "map_of (mo_objects (fst (record_offload_write op (S, st)))) =
     (\<lambda>k. if k \<in> set (op_evicted_keys op) then Option.bind (map_of (mo_objects S) k) (forget_one S) else map_of (mo_objects S) k)"
proof -
  have "\<exists>st'. record_offload_write op (S, st) = fold drop_evicted (op_evicted_keys op) (S, st')"
    unfolding record_offload_write_def Let_def prod.case by (rule exI, rule refl)
  then obtain st' where "record_offload_write op (S, st) = fold drop_evicted (op_evicted_keys op) (S, st')" by blast
  with fold_drop_facts [of "(S, st')" "op_evicted_keys op", unfolded fst_conv]
  show "same_frame S (fst (record_offload_write op (S, st)))"
    "map_of (mo_objects (fst (record_offload_write op (S, st)))) =
      (\<lambda>k. if k \<in> set (op_evicted_keys op) then Option.bind (map_of (mo_objects S) k) (forget_one S) else map_of (mo_objects S) k)"
    by simp_all
qed

section \<open>A write to the offload tier\<close>

definition others_ok :: "real \<Rightarrow> mstore \<Rightarrow> string \<Rightarrow> bool" where
  "others_ok clock S key \<longleftrightarrow> frame_ok S \<and> (\<forall>k. k \<noteq> key \<longrightarrow> key_ok clock S k)"

definition others_kept :: "real \<Rightarrow> mstore \<Rightarrow> mstore \<Rightarrow> string \<Rightarrow> bool" where
  "others_kept now S S' key \<longleftrightarrow>
     (\<forall>k ob. k \<noteq> key \<and> map_of (mo_objects S) k = Some ob \<and> now < busy_until ob \<longrightarrow>
        (\<exists>ob'. map_of (mo_objects S') k = Some ob' \<and> so_tier ob' = so_tier ob \<and> busy_until ob' = busy_until ob)) \<and>
     (\<forall>k. k \<noteq> key \<and> map_of (mo_objects S) k = None \<longrightarrow> map_of (mo_objects S') k = None)"

lemma store_ok_split: "store_ok clock S \<longleftrightarrow> others_ok clock S key \<and> key_ok clock S key"
  by (auto simp: store_ok_def others_ok_def)

lemma evicted_key_ok:
  assumes "key_ok now S k" "mo_offload S = Some T" "mo_offload S' = Some T'" "ot_tier T' = ot_tier T" "ot_tier T \<noteq> ''memory''"
    and "mo_block_bytes S' = mo_block_bytes S" "mo_memory_lru S' = mo_memory_lru S"
    and "map_of (mo_objects S') k = Option.bind (map_of (mo_objects S) k) (forget_one S')" "\<not> ot_contains T' k"
  shows "key_ok now S' k"
  using assms by (auto simp: key_ok_def tier_has_def forget_one_def is_offload_tier_def in_tier_def split: option.splits)

lemma untouched_key_ok:
  assumes "key_ok now S k" "mo_offload S = Some T" "mo_offload S' = Some T'" "ot_tier T' = ot_tier T"
    and "mo_block_bytes S' = mo_block_bytes S" "mo_memory_lru S' = mo_memory_lru S"
    and "map_of (mo_objects S') k = map_of (mo_objects S) k" "ot_contains T' k = ot_contains T k" "protected_until T' k = protected_until T k"
  shows "key_ok now S' k"
  using assms by (auto simp: key_ok_def tier_has_def in_tier_def split: option.splits)

lemma evicted_was_idle:
  assumes "key_ok now S k" "mo_offload S = Some T" "ot_tier T \<noteq> ''memory''" "protected_until T k \<le> now"
    and "map_of (mo_objects S) k = Some ob" "now < busy_until ob"
  shows "so_tier ob = ''memory''"
  using assms by (auto simp: key_ok_def in_tier_def split: option.splits)

text \<open>What the store is after a write of \<open>key\<close> to the tier \<open>T\<close>, which is then \<open>T1\<close>, has been recorded.\<close>

definition tier_written :: "real \<Rightarrow> mstore \<Rightarrow> string \<Rightarrow> offload_op \<Rightarrow> offload_tier \<Rightarrow> offload_tier \<Rightarrow> mstore \<Rightarrow> bool" where
  "tier_written now S key op T T1 S' \<longleftrightarrow>
     others_ok now S' key \<and> others_kept now S S' key \<and> same_frame (S\<lparr>mo_offload := Some T1\<rparr>) S' \<and>
     (if key \<in> set (op_evicted_keys op) then T1 = T \<and> map_of (mo_objects S') key = Option.bind (map_of (mo_objects S) key) (forget_one S)
      else ot_contains T1 key \<and> map_of (mo_objects S') key = map_of (mo_objects S) key)"

lemma write_rejected:
  assumes ok: "others_ok now S key" and T: "mo_offload S = Some T"
  shows "tier_written now S key (rejected key) T T (fst (record_offload_write (rejected key) (S\<lparr>mo_offload := Some T\<rparr>, st)))"
proof -
  have same: "S\<lparr>mo_offload := Some T\<rparr> = S" using T by simp
  obtain S' where S': "fst (record_offload_write (rejected key) (S, st)) = S'" by simp
  note f = record_write_facts [where S = S and op = "rejected key" and st = st, unfolded S']
  have eq: "map_of (mo_objects S') k = map_of (mo_objects S) k" if "k \<noteq> key" for k using that f(2) by (simp add: rejected_def)
  have "key_ok now S' k" if "k \<noteq> key" for k
    using untouched_key_ok [OF _ T, of now k S' T] ok f(1) T eq [OF that] that by (simp add: same_frame_def others_ok_def)
  moreover have "frame_ok S'" using ok f(1) by (simp add: others_ok_def frame_ok_def same_frame_def)
  moreover have "map_of (mo_objects S') key = Option.bind (map_of (mo_objects S) key) (forget_one S)" using f(2) by (simp add: rejected_def)
  ultimately show ?thesis
    using f(1) eq unfolding same S' by (simp add: tier_written_def others_ok_def others_kept_def rejected_def same)
qed

lemma write_accepted:
  assumes ok: "others_ok now S key" and T: "mo_offload S = Some T"
    and w: "ot_inv T'" "key \<notin> set (op_evicted_keys op)" "ot_capacity_blocks T' = ot_capacity_blocks T"
       "map_of (ot_blocks T') = (map_of (ot_blocks T) |` (- set (op_evicted_keys op)))(key \<mapsto> 1)"
       "\<forall>v \<in> set (op_evicted_keys op). protected_until T v \<le> now" "ot_tier T' = ot_tier T"
       "\<forall>k. k \<notin> set (op_evicted_keys op) \<and> k \<noteq> key \<longrightarrow> protected_until T' k = protected_until T k"
  shows "tier_written now S key op T T' (fst (record_offload_write op (S\<lparr>mo_offload := Some T'\<rparr>, st)))"
proof -
  have frame: "frame_ok S" and tier: "ot_tier T \<noteq> ''memory''" using ok T by (simp_all add: others_ok_def frame_ok_def)
  have keys: "key_ok now S k" if "k \<noteq> key" for k using ok that by (simp add: others_ok_def)
  obtain S' where S': "fst (record_offload_write op (S\<lparr>mo_offload := Some T'\<rparr>, st)) = S'" by simp
  note f = record_write_facts [where S = "S\<lparr>mo_offload := Some T'\<rparr>" and op = op and st = st, unfolded S']
  have fo: "forget_one (S\<lparr>mo_offload := Some T'\<rparr>) = forget_one S'"
    using f(1) by (simp add: forget_one_def is_offload_tier_def same_frame_def fun_eq_iff)
  have off: "mo_offload S' = Some T'" "mo_block_bytes S' = mo_block_bytes S" "mo_memory_lru S' = mo_memory_lru S"
    using f(1) by (simp_all add: same_frame_def)
  have has: "ot_contains T' k \<longleftrightarrow> k = key \<or> ot_contains T k \<and> k \<notin> set (op_evicted_keys op)" for k
    using w(4) by (simp add: ot_contains_def restrict_map_def)
  have "key_ok now S' k" if k: "k \<noteq> key" for k
  proof (cases "k \<in> set (op_evicted_keys op)")
    case True
    then show ?thesis using evicted_key_ok [OF keys [OF k] T off(1) w(6) tier off(2,3)] f(2) fo has k by simp
  next
    case False
    then show ?thesis using untouched_key_ok [OF keys [OF k] T off(1) w(6) off(2,3)] f(2) has k w(7) by simp
  qed
  moreover have "frame_ok S'" using frame f(1) T w(1,3,6) by (simp add: frame_ok_def same_frame_def)
  moreover have "others_kept now S S' key"
    using evicted_was_idle [OF keys T tier] w(5,6) tier T f(2)
    by (fastforce simp: others_kept_def forget_one_def is_offload_tier_def busy_until_def)
  ultimately show ?thesis using f w(2) has unfolding S' by (simp add: tier_written_def others_ok_def)
qed

lemma tier_write_cases:
  assumes "others_ok now S key" and "mo_offload S = Some T"
  obtains (Rejected) "ot_write key 1 now T = (Ok (rejected key), T)"
  | (Accepted) op T' where "ot_write key 1 now T = (Ok op, T')" "ot_inv T'" "key \<notin> set (op_evicted_keys op)"
      "ot_capacity_blocks T' = ot_capacity_blocks T"
      "map_of (ot_blocks T') = (map_of (ot_blocks T) |` (- set (op_evicted_keys op)))(key \<mapsto> 1)"
      "\<forall>v \<in> set (op_evicted_keys op). protected_until T v \<le> now" "ot_tier T' = ot_tier T"
      "\<forall>k. k \<notin> set (op_evicted_keys op) \<and> k \<noteq> key \<longrightarrow> protected_until T' k = protected_until T k"
proof -
  have "ot_inv T" "0 < ot_capacity_blocks T" using assms by (auto simp: others_ok_def frame_ok_def)
  then show thesis using ot_write_cases [of T 1 key now] Rejected Accepted by auto
qed

lemma tier_write:
  assumes ok: "others_ok now S key" and T: "mo_offload S = Some T"
  obtains op T1 where "ot_write key 1 now T = (Ok op, T1)" "ot_tier T1 = ot_tier T"
    "\<And>st. tier_written now S key op T T1 (fst (record_offload_write op (S\<lparr>mo_offload := Some T1\<rparr>, st)))"
  using ok T
proof (cases rule: tier_write_cases)
  case Rejected
  then show thesis using that [OF Rejected refl] write_rejected [OF ok T] by simp
next
  case (Accepted op T')
  show thesis by (rule that [OF Accepted(1,7)]) (rule write_accepted [OF ok T Accepted(2-8)])
qed

section \<open>Eviction from memory\<close>

text \<open>The fields that eviction and insertion leave alone.\<close>

definition same_setup :: "mstore \<Rightarrow> mstore \<Rightarrow> bool" where
  "same_setup S S' \<longleftrightarrow> mo_config S' = mo_config S \<and> mo_block_bytes S' = mo_block_bytes S \<and>
     mo_memory_capacity_bytes S' = mo_memory_capacity_bytes S"

lemma others_ok_cong:
  assumes "others_ok clock S key" "same_setup S S'" "mo_memory_used_bytes S' = mo_memory_used_bytes S" "mo_memory_lru S' = mo_memory_lru S"
    and "map_option ot_tier (mo_offload S') = map_option ot_tier (mo_offload S)"
    and "\<And>T T'. mo_offload S = Some T \<Longrightarrow> mo_offload S' = Some T' \<Longrightarrow> ot_inv T' = ot_inv T \<and> ot_capacity_blocks T' = ot_capacity_blocks T \<and>
      ot_contains T' = ot_contains T \<and> (\<forall>k. k \<noteq> key \<longrightarrow> protected_until T' k = protected_until T k)"
    and "\<And>k. k \<noteq> key \<Longrightarrow> map_of (mo_objects S') k = map_of (mo_objects S) k"
  shows "others_ok clock S' key"
proof (cases "mo_offload S")
  case None
  then have none: "mo_offload S' = None" using assms(5) by simp
  have "key_ok clock S' k \<longleftrightarrow> key_ok clock S k" if "k \<noteq> key" for k
    using None none assms(2,4) by (simp add: key_ok_def tier_has_def in_tier_def same_setup_def assms(7) [OF that] cong: option.case_cong)
  moreover have "frame_ok S'" using assms(1-4) None none by (simp add: others_ok_def frame_ok_def same_setup_def)
  ultimately show ?thesis using assms(1) by (simp add: others_ok_def)
next
  case (Some T)
  then obtain T' where T': "mo_offload S' = Some T'" "ot_tier T' = ot_tier T" using assms(5) by auto
  note f = assms(6) [OF Some T'(1)]
  have "key_ok clock S' k \<longleftrightarrow> key_ok clock S k" if "k \<noteq> key" for k
    using Some T' assms(2,4) f that by (simp add: key_ok_def tier_has_def in_tier_def same_setup_def assms(7) [OF that] cong: option.case_cong)
  moreover have "frame_ok S'" using assms(1-4) Some T' f by (simp add: others_ok_def frame_ok_def same_setup_def)
  ultimately show ?thesis using assms(1) by (simp add: others_ok_def)
qed

lemma write_timing_facts:
  assumes "ms_write_timing key lat now d S = (t, S')"
  shows "same_setup S S'" "mo_memory_used_bytes S' = mo_memory_used_bytes S" "mo_memory_lru S' = mo_memory_lru S"
    "mo_offload S' = map_option (ot_pin key (now + d + lat)) (mo_offload S)"
    "map_of (mo_objects S') = (map_of (mo_objects S))(key := map_option (persist (now + d + lat)) (map_of (mo_objects S) key))"
    "t = \<lparr>accounting_latency = lat, blocking_latency = lat\<rparr>"
  using assms by (auto simp: ms_write_timing_def Let_def same_setup_def)

lemma write_timing_others:
  assumes "others_ok now S key" "ms_write_timing key lat now' d S = (t, S')"
  shows "others_ok now S' key" "others_kept now S S' key"
proof -
  note f = write_timing_facts [OF assms(2)]
  show "others_ok now S' key"
    by (rule others_ok_cong [OF assms(1) f(1-3)]) (auto simp: f(4,5) option.map_comp comp_def)
  show "others_kept now S S' key" by (simp add: others_kept_def f(5))
qed

lemma evict_to_tier_ok:
  assumes ok: "others_ok now S key" and T: "mo_offload S = Some T" and out: "key \<notin> set (mo_memory_lru S)"
    and ob: "map_of (mo_objects S) key = Some ob" "so_blocks ob = 1" "so_bytes ob = mo_block_bytes S" "so_persisted ob = tier_has S key"
    and idle: "busy_until ob \<le> now"
  obtains t S' st' where "evict_to_tier T key 1 now (S, st) = (Ok t, (S', st'))" "store_ok now S'" "others_kept now S S' key"
    "same_setup S S'" "mo_memory_lru S' = mo_memory_lru S"
proof -
  have tier: "ot_tier T \<noteq> ''memory''" using ok T by (simp add: others_ok_def frame_ok_def)
  define S1 where "S1 = upd_object key (\<lambda>ob. ob\<lparr>so_tier := ot_tier T\<rparr>) S"
  have S1: "others_ok now S1 key" "mo_offload S1 = Some T" "others_kept now S S1 key" "same_setup S S1"
    "map_of (mo_objects S1) key = Some (ob\<lparr>so_tier := ot_tier T\<rparr>)" "mo_memory_lru S1 = mo_memory_lru S"
    using others_ok_cong [OF ok, of S1] T ob(1) by (simp_all add: S1_def same_setup_def others_kept_def)
  show thesis
  proof (cases "ot_contains T key")
    case True
    have "key_ok now S1 key"
      using S1 T ob True out tier idle by (simp add: key_ok_def tier_has_def in_tier_def busy_until_def same_setup_def le_max_iff_disj)
    then show thesis using that [of no_timing S1 st] True S1 by (simp add: evict_to_tier_def S1_def [symmetric] store_ok_split [of now S1 key])
  next
    case False
    obtain op T1 where w: "ot_write key 1 now T = (Ok op, T1)" "ot_tier T1 = ot_tier T" and
      rec: "\<And>st. tier_written now S1 key op T T1 (fst (record_offload_write op (S1\<lparr>mo_offload := Some T1\<rparr>, st)))"
      using tier_write [OF S1(1,2)] by blast
    obtain S2 st2 where r: "record_offload_write op (S1\<lparr>mo_offload := Some T1\<rparr>, st) = (S2, st2)" by (metis surj_pair)
    note f = rec [of st, unfolded r fst_conv tier_written_def]
    have S2: "others_kept now S S2 key" "same_setup S S2" "mo_memory_lru S2 = mo_memory_lru S" "mo_offload S2 = Some T1"
      using f S1(3,4,6) unfolding others_kept_def same_frame_def same_setup_def by (metis, simp_all)
    show thesis
    proof (cases "key \<in> set (op_evicted_keys op)")
      case True
      have "key_ok now S2 key"
        using f True S1(2,5) S2 out False by (simp add: key_ok_def tier_has_def forget_one_def is_offload_tier_def)
      then show thesis using that [of no_timing S2 st2] True False w r f S2
        by (simp add: evict_to_tier_def S1_def [symmetric] store_ok_split [of now S2 key])
    next
      case kept: False
      obtain t S3 where wt: "ms_write_timing key (op_latency op) now 0 S2 = (t, S3)" by (metis surj_pair)
      note g = write_timing_facts [OF wt] and h = write_timing_others [OF conjunct1 [OF f] wt]
      have "key_ok now S3 key"
        using g S2 f kept S1(5) ob out tier w(2) idle
        by (simp add: key_ok_def tier_has_def in_tier_def persist_def busy_until_def same_setup_def le_max_iff_disj) linarith
      moreover have "others_kept now S S3 key" using S2(1) h(2) unfolding others_kept_def by metis
      ultimately show thesis using that [of t S3 st2] kept False w r h(1) g S2 wt
        by (simp add: evict_to_tier_def S1_def [symmetric] store_ok_split [of now S3 key] same_setup_def)
    qed
  qed
qed

definition absent_stay :: "mstore \<Rightarrow> mstore \<Rightarrow> bool" where
  "absent_stay S S' \<longleftrightarrow> (\<forall>k. map_of (mo_objects S) k = None \<longrightarrow> map_of (mo_objects S') k = None)"

lemma others_keptD:
  assumes "others_kept now S S' key" "map_of (mo_objects S) key = Some ob" "busy_until ob \<le> now"
  shows "keeps_busy now S S'" "absent_stay S S'"
  using assms unfolding others_kept_def keeps_busy_def absent_stay_def by (metis leD option.inject, metis option.distinct(1))

lemma length_filter_out: "distinct xs \<Longrightarrow> x \<in> set xs \<Longrightarrow> length xs = Suc (length (filter (\<lambda>k. k \<noteq> x) xs))"
  by (induction xs) (auto intro!: arg_cong [where f = length] filter_True [symmetric])

lemma evict_memory_ok:
  assumes ok: "store_ok now S" and lru: "key \<in> set (mo_memory_lru S)"
    and ob: "map_of (mo_objects S) key = Some ob" and idle: "busy_until ob \<le> now"
  obtains t S' st' where "evict_memory key now (S, st) = (Ok t, (S', st'))" "store_ok now S'" "keeps_busy now S S'"
    "absent_stay S S'" "same_setup S S'"
proof -
  have k: "so_blocks ob = 1" "so_bytes ob = mo_block_bytes S" "so_persisted ob = tier_has S key" "so_tier ob = ''memory''"
    using ok lru ob by (auto simp: store_ok_def key_ok_def dest: spec [of _ key])
  define S2 where "S2 = S\<lparr>mo_memory_lru := filter (\<lambda>k. k \<noteq> key) (mo_memory_lru S),
     mo_memory_used_bytes := mo_memory_used_bytes S - so_bytes ob\<rparr>"
  have "frame_ok S" using ok by (simp add: store_ok_def)
  moreover have "int (length (mo_memory_lru S)) = int (length (filter (\<lambda>k. k \<noteq> key) (mo_memory_lru S))) + 1"
    using length_filter_out [OF _ lru] \<open>frame_ok S\<close> by (simp add: frame_ok_def)
  ultimately have frame: "frame_ok S2"
    using k(2) by (simp add: frame_ok_def S2_def algebra_simps)
  have others: "others_ok now S2 key"
    using ok frame unfolding others_ok_def store_ok_def key_ok_def S2_def by (simp add: tier_has_def in_tier_def cong: option.case_cong)
  have S2: "map_of (mo_objects S2) = map_of (mo_objects S)" "mo_offload S2 = mo_offload S" "key \<notin> set (mo_memory_lru S2)"
    "same_setup S S2" "tier_has S2 key = tier_has S key" "mo_block_bytes S2 = mo_block_bytes S"
    by (simp_all add: S2_def same_setup_def tier_has_def)
  show thesis
  proof (cases "mo_offload S")
    case None
    define S3 where "S3 = S2\<lparr>mo_objects := AList.delete key (mo_objects S)\<rparr>"
    have S3: "others_ok now S3 key" "key_ok now S3 key" "others_kept now S S3 key" "same_setup S S3"
      using others_ok_cong [OF others, of S3] S2 None
      by (simp_all add: S3_def same_setup_def others_kept_def key_ok_def tier_has_def delete_conv')
    show thesis using that [of no_timing S3] others_keptD [OF S3(3) ob idle] S3 None lru ob k
      by (simp add: evict_memory_def active_tier_def S2_def S3_def store_ok_split [of now _ key])
  next
    case (Some T)
    have off: "active_tier S = Some T" using \<open>frame_ok S\<close> Some by (simp add: frame_ok_def active_tier_def)
    obtain t S' st' where e: "evict_to_tier T key 1 now (S2, st\<lparr>ss_eviction_count := ss_eviction_count st + 1\<rparr>) = (Ok t, (S', st'))"
      "store_ok now S'" "others_kept now S2 S' key" "same_setup S2 S'" "mo_memory_lru S' = mo_memory_lru S2"
      by (rule evict_to_tier_ok [OF others _ S2(3), of T ob]) (use Some S2 ob k idle in simp_all)
    have "others_kept now S S' key" using e(3) S2(1) by (simp add: others_kept_def)
    with that [of t S' st'] others_keptD [OF this ob idle] e S2(4) off lru ob k show thesis
      by (simp add: evict_memory_def S2_def same_setup_def)
  qed
qed

lemma first_idle_cases:
  assumes "\<forall>k \<in> set ks. map_of (mo_objects S) k \<noteq> None"
  obtains "first_idle S now ks = Ok None"
  | k ob where "first_idle S now ks = Ok (Some k)" "k \<in> set ks" "map_of (mo_objects S) k = Some ob" "busy_until ob \<le> now"
  using assms
proof (induction ks arbitrary: thesis)
  case (Cons k ks)
  from Cons.prems(3) obtain ob where ob: "map_of (mo_objects S) k = Some ob" by auto
  show ?case
  proof (cases "busy_until ob \<le> now")
    case True
    then show ?thesis using Cons.prems(2) [of k ob] ob by (simp add: busy_until_def)
  next
    case False
    then have e: "first_idle S now (k # ks) = first_idle S now ks" using ob by (auto simp: busy_until_def)
    show ?thesis using Cons.IH [of thesis] Cons.prems e by auto
  qed
qed simp

lemma lru_objects: "store_ok clock S \<Longrightarrow> \<forall>k \<in> set (mo_memory_lru S). map_of (mo_objects S) k \<noteq> None"
  by (force simp: store_ok_def key_ok_def split: option.splits)

text \<open>What making room for \<open>bytes\<close> comes to.\<close>

definition room_made :: "real \<Rightarrow> int \<Rightarrow> mstore \<Rightarrow> bool \<times> write_timing \<Rightarrow> mstore \<Rightarrow> bool" where
  "room_made now bytes S r S' \<longleftrightarrow> store_ok now S' \<and> keeps_busy now S S' \<and> absent_stay S S' \<and> same_setup S S' \<and>
     (fst r \<longrightarrow> mo_memory_used_bytes S' + bytes \<le> mo_memory_capacity_bytes S')"

lemma ensure_loop_room:
  "mo_memory_used_bytes (fst s) + bytes \<le> mo_memory_capacity_bytes (fst s) \<Longrightarrow> ensure_loop bytes now timing s = (Ok (True, timing), s)"
  by (subst ensure_loop.simps) simp

lemma ensure_loop_full:
  assumes "\<not> mo_memory_used_bytes (fst s) + bytes \<le> mo_memory_capacity_bytes (fst s)"
    and "mc_eviction_policy (mo_config (fst s)) \<noteq> ''lru'' \<or> mo_memory_lru (fst s) = [] \<or> first_idle (fst s) now (mo_memory_lru (fst s)) = Ok None"
  shows "ensure_loop bytes now timing s = (Ok (False, timing), s)"
  using assms by (subst ensure_loop.simps) (auto simp: Let_def)

lemma ensure_loop_round:
  assumes "\<not> mo_memory_used_bytes (fst s) + bytes \<le> mo_memory_capacity_bytes (fst s)"
    and "mc_eviction_policy (mo_config (fst s)) = ''lru''" "mo_memory_lru (fst s) \<noteq> []"
    and "first_idle (fst s) now (mo_memory_lru (fst s)) = Ok (Some key)" "evict_memory key now s = (Ok t, s1)"
  shows "ensure_loop bytes now timing s = ensure_loop bytes now (add_timing timing t) s1"
  using assms by (subst ensure_loop.simps) (simp add: Let_def)

lemma room_made_refl:
  "store_ok now S \<Longrightarrow> (fst r \<longrightarrow> mo_memory_used_bytes S + bytes \<le> mo_memory_capacity_bytes S) \<Longrightarrow> room_made now bytes S r S"
  by (simp add: room_made_def keeps_busy_refl absent_stay_def same_setup_def)

lemma ensure_loop_ok:
  "store_ok now (fst s) \<Longrightarrow> \<exists>r s'. ensure_loop bytes now timing s = (Ok r, s') \<and> room_made now bytes (fst s) r (fst s')"
proof (induction bytes now timing s rule: ensure_loop.induct)
  case (1 bytes now timing s)
  note IH = 1(1) and ok = 1(2)
  consider "mo_memory_used_bytes (fst s) + bytes \<le> mo_memory_capacity_bytes (fst s)"
    | "\<not> mo_memory_used_bytes (fst s) + bytes \<le> mo_memory_capacity_bytes (fst s)"
      "mc_eviction_policy (mo_config (fst s)) \<noteq> ''lru'' \<or> mo_memory_lru (fst s) = [] \<or> first_idle (fst s) now (mo_memory_lru (fst s)) = Ok None"
    | key ob where "\<not> mo_memory_used_bytes (fst s) + bytes \<le> mo_memory_capacity_bytes (fst s)"
      "mc_eviction_policy (mo_config (fst s)) = ''lru''" "mo_memory_lru (fst s) \<noteq> []"
      "first_idle (fst s) now (mo_memory_lru (fst s)) = Ok (Some key)" "key \<in> set (mo_memory_lru (fst s))"
      "map_of (mo_objects (fst s)) key = Some ob" "busy_until ob \<le> now"
    using first_idle_cases [OF lru_objects [OF ok], of now] by metis
  then show ?case
  proof cases
    case 1
    then show ?thesis using ensure_loop_room [OF 1] room_made_refl [OF ok, of "(True, timing)" bytes] by simp
  next
    case 2
    then show ?thesis using ensure_loop_full [OF 2] room_made_refl [OF ok, of "(False, timing)" bytes] by simp
  next
    case (3 key ob)
    obtain t S' st' where "evict_memory key now (fst s, snd s) = (Ok t, (S', st'))" and e: "store_ok now S'" "keeps_busy now (fst s) S'"
      "absent_stay (fst s) S'" "same_setup (fst s) S'"
      using evict_memory_ok [OF ok 3(5,6,7)] by blast
    then have ev: "evict_memory key now s = (Ok t, (S', st'))" by simp
    obtain r s'' where l: "ensure_loop bytes now (add_timing timing t) (S', st') = (Ok r, s'')" "room_made now bytes S' r (fst s'')"
      using IH [OF HOL.refl 3(1) _ 3(4) HOL.refl ev [symmetric] HOL.refl] e(1) 3(2,3) by auto
    have "room_made now bytes (fst s) r (fst s'')"
      using l(2) e keeps_busy_trans [OF e(2)] by (auto simp: room_made_def absent_stay_def same_setup_def)
    then show ?thesis using ensure_loop_round [OF 3(1-4) ev] l(1) by auto
  qed
qed

lemma ensure_ok:
  assumes "store_ok now (fst s)"
  obtains b t s' where "ensure_memory_capacity bytes now s = (Ok (b, t), s')" "room_made now bytes (fst s) (b, t) (fst s')"
proof (cases "mo_memory_capacity_bytes (fst s) < bytes")
  case True
  then show thesis using that [of False no_timing s] room_made_refl [OF assms, of "(False, no_timing)" bytes] by (simp add: ensure_memory_capacity_def)
next
  case False
  then show thesis using that ensure_loop_ok [OF assms, of bytes no_timing] by (auto simp: ensure_memory_capacity_def)
qed

section \<open>Puts\<close>

lemma absent_key:
  assumes "store_ok clock S" "map_of (mo_objects S) key = None"
  shows "key \<notin> set (mo_memory_lru S)" "\<not> tier_has S key"
  using assms by (auto simp: store_ok_def key_ok_def dest: spec [of _ key])

lemma keeps_others:
  assumes "others_kept now S S' key" "map_of (mo_objects S) key = None"
  shows "keeps_busy now S S'"
  using assms unfolding others_kept_def keeps_busy_def by (metis option.distinct(1))

lemma upd_absent: "map_of (mo_objects S) key = None \<Longrightarrow> upd_object key f S = S"
  by (force simp: upd_object_def map_of_eq_None_iff intro!: mstore.equality map_idI)

lemma put_without_room_ok:
  assumes ok: "store_ok now S" and new: "map_of (mo_objects S) key = None" and t0: "0 \<le> now"
    and ob: "so_blocks ob = 1" "so_bytes ob = mo_block_bytes S" "so_in_use_until ob = 0"
  obtains t S' st' where "put_without_room key ob now d timing (S, st) = (Ok t, (S', st'))" "store_ok now S'" "keeps_busy now S S'"
    "same_setup S S'"
proof (cases "active_tier S")
  case None
  then show thesis using that [of timing S] ok by (simp add: put_without_room_def keeps_busy_refl same_setup_def)
next
  case (Some T)
  then have T: "mo_offload S = Some T" by (simp add: active_tier_def split: if_splits)
  have others: "others_ok now S key" using ok by (simp add: store_ok_split [of now S key])
  have tier: "ot_tier T \<noteq> ''memory''" using others T by (simp add: others_ok_def frame_ok_def)
  from others T show thesis
  proof (cases rule: tier_write_cases)
    case Rejected
    then show thesis using that [of timing S] ok Some T by (simp add: put_without_room_def rejected_def keeps_busy_refl same_setup_def ob(1))
  next
    case (Accepted op T')
    define ready where "ready = now + (d + accounting_latency timing) + op_latency op"
    define T1 where "T1 = ot_pin key ready T'"
    have wt: "ms_write_timing key (op_latency op) now (d + accounting_latency timing) (S\<lparr>mo_offload := Some T'\<rparr>) =
        (\<lparr>accounting_latency = op_latency op, blocking_latency = op_latency op\<rparr>, S\<lparr>mo_offload := Some T1\<rparr>)"
      using upd_absent [of "S\<lparr>mo_offload := Some T'\<rparr>" key] new by (simp add: ms_write_timing_def upd_tier_def T1_def ready_def)
    obtain S2 st2 where r: "record_offload_write op (S\<lparr>mo_offload := Some T1\<rparr>, st) = (S2, st2)" by (metis surj_pair)
    have "tier_written now S key op T T1 (fst (record_offload_write op (S\<lparr>mo_offload := Some T1\<rparr>, st)))"
      by (rule write_accepted [OF others T]) (use Accepted in \<open>simp_all add: T1_def\<close>, simp add: ot_pin_def)
    then have f: "others_ok now S2 key" "others_kept now S S2 key" "same_frame (S\<lparr>mo_offload := Some T1\<rparr>) S2" "ot_contains T1 key"
      using Accepted(3) by (simp_all add: tier_written_def r)
    define S3 where "S3 = S2\<lparr>mo_objects := AList.update key (persist ready (ob\<lparr>so_tier := ot_tier T\<rparr>)) (mo_objects S2)\<rparr>"
    have S3: "others_ok now S3 key" "others_kept now S S3 key" "same_setup S S3"
      using others_ok_cong [OF f(1), of S3] f(2,3) by (simp_all add: S3_def same_setup_def same_frame_def others_kept_def)
    have "key_ok now S3 key"
      using f(3,4) ob tier t0 Accepted(7) absent_key [OF ok new]
      by (simp add: S3_def key_ok_def same_frame_def persist_def tier_has_def in_tier_def busy_until_def T1_def le_max_iff_disj) linarith
    then show thesis
      using that [of "add_timing timing \<lparr>accounting_latency = op_latency op, blocking_latency = op_latency op\<rparr>" S3 "count_admission st2"]
        S3 keeps_others [OF S3(2) new] Some Accepted(1,3) wt r
      by (simp add: put_without_room_def Let_def ob(1) ready_def [symmetric] S3_def [symmetric] store_ok_split [of now S3 key])
  qed
qed

lemma put_in_memory_ok:
  assumes ok: "store_ok now S" and new: "map_of (mo_objects S) key = None"
    and room: "mo_memory_used_bytes S + mo_block_bytes S \<le> mo_memory_capacity_bytes S"
    and ob: "so_blocks ob = 1" "so_bytes ob = mo_block_bytes S" "so_tier ob = ''memory''" "\<not> so_persisted ob"
  obtains t S' st' where "put_in_memory key ob now d timing (S, st) = (Ok t, (S', st'))" "store_ok now S'" "keeps_busy now S S'"
    "same_setup S S'"
proof -
  define ob1 where "ob1 = ob\<lparr>so_ready_at := so_ready_at ob + accounting_latency timing\<rparr>"
  define S1 where "S1 = S\<lparr>mo_objects := AList.update key ob1 (mo_objects S), mo_memory_used_bytes := mo_memory_used_bytes S + so_bytes ob,
                 mo_memory_lru := mo_memory_lru S @ [key]\<rparr>"
  note absent = absent_key [OF ok new]
  have "frame_ok S" using ok by (simp add: store_ok_def)
  then have frame: "frame_ok S1" using room absent(1) ob(2) by (simp add: S1_def frame_ok_def algebra_simps)
  have S1: "others_ok now S1 key" "others_kept now S S1 key" "same_setup S S1" "map_of (mo_objects S1) key = Some ob1"
      "key \<in> set (mo_memory_lru S1)" "\<not> tier_has S1 key"
    using ok frame absent by (auto simp: S1_def others_ok_def others_kept_def same_setup_def store_ok_def key_ok_def tier_has_def in_tier_def
      cong: option.case_cong)
  have ob1: "so_blocks ob1 = 1" "so_bytes ob1 = mo_block_bytes S" "so_tier ob1 = ''memory''" "\<not> so_persisted ob1"
    using ob by (simp_all add: ob1_def)
  show thesis
  proof (cases "mo_offload S")
    case None
    then have "key_ok now S1 key" using S1 ob1 by (simp add: key_ok_def same_setup_def)
    then show thesis using that [of timing S1 "count_admission st"] S1 None keeps_others [OF S1(2) new] \<open>frame_ok S\<close>
      by (simp add: put_in_memory_def Let_def ob1_def [symmetric] S1_def [symmetric] active_tier_def store_ok_split [of now S1 key] frame_ok_def)
         (simp add: S1_def)
  next
    case (Some T)
    then have T: "mo_offload S1 = Some T" "active_tier S1 = Some T" using frame by (simp_all add: S1_def frame_ok_def active_tier_def)
    have tier: "ot_tier T \<noteq> ''memory''" using frame T by (simp add: frame_ok_def)
    obtain op T1 where w: "ot_write key 1 now T = (Ok op, T1)" "ot_tier T1 = ot_tier T" and
      rec: "\<And>st. tier_written now S1 key op T T1 (fst (record_offload_write op (S1\<lparr>mo_offload := Some T1\<rparr>, st)))"
      using tier_write [OF S1(1) T(1)] by blast
    obtain S2 st2 where r: "record_offload_write op (S1\<lparr>mo_offload := Some T1\<rparr>, count_admission st) = (S2, st2)" by (metis surj_pair)
    note f = rec [of "count_admission st", unfolded r fst_conv tier_written_def]
    have S2: "others_kept now S S2 key" "same_setup S S2" "mo_memory_lru S2 = mo_memory_lru S1" "mo_offload S2 = Some T1"
      using f S1(2,3) unfolding others_kept_def same_frame_def same_setup_def by (metis, simp_all)
    show thesis
    proof (cases "key \<in> set (op_evicted_keys op)")
      case True
      have "key_ok now S2 key"
        using f True S1 S2 T ob1 tier by (simp add: key_ok_def tier_has_def forget_one_def is_offload_tier_def same_setup_def)
      then show thesis using that [of timing S2 st2] True w r f S2 T keeps_others [OF S2(1) new]
        by (simp add: put_in_memory_def Let_def ob1_def [symmetric] S1_def [symmetric] ob(1) store_ok_split [of now S2 key])
    next
      case False
      obtain t S3 where wt: "ms_write_timing key (op_latency op) now (d + accounting_latency timing) S2 = (t, S3)" by (metis surj_pair)
      note g = write_timing_facts [OF wt] and h = write_timing_others [OF conjunct1 [OF f] wt]
      have "key_ok now S3 key"
        using g S2 f False S1 ob1 by (simp add: key_ok_def tier_has_def persist_def same_setup_def)
      moreover have "others_kept now S S3 key" using S2(1) h(2) unfolding others_kept_def by metis
      ultimately show thesis using that [of "add_timing timing t" S3 st2] False w r h(1) g S2 wt T keeps_others [of now S S3 key] new
        by (simp add: put_in_memory_def Let_def ob1_def [symmetric] S1_def [symmetric] ob(1) store_ok_split [of now S3 key] same_setup_def)
    qed
  qed
qed

end
