(* ===== verification/Store_Runs.thy ===== *)
theory Store_Runs
  imports Store_Invariant
begin

text \<open>
  Whole calls of the external key-value store: puts, the bulk path, lookups and reads, and the runs made of them.
\<close>

section \<open>Touching an object\<close>

lemma touch_facts:
  "map_of (mo_objects (ms_touch key S)) =
     (map_of (mo_objects S))(key := map_option (\<lambda>ob. ob\<lparr>so_last_access := mo_access_counter S + 1\<rparr>) (map_of (mo_objects S) key))"
  "same_setup S (ms_touch key S)" "mo_memory_used_bytes (ms_touch key S) = mo_memory_used_bytes S" "mo_offload (ms_touch key S) = mo_offload S"
  "mo_access_counter (ms_touch key S) = mo_access_counter S + 1"
  by (auto simp: ms_touch_def Let_def same_setup_def upd_object_def [of _ _ "S\<lparr>mo_access_counter := mo_access_counter S + 1\<rparr>"] fun_eq_iff
      map_of_upd_object [unfolded upd_object_def, simplified] split: option.split)

lemma touch_lru:
  "set (mo_memory_lru (ms_touch key S)) = set (mo_memory_lru S)"
  "distinct (mo_memory_lru S) \<Longrightarrow> distinct (mo_memory_lru (ms_touch key S)) \<and> length (mo_memory_lru (ms_touch key S)) = length (mo_memory_lru S)"
  using length_filter_out [of "mo_memory_lru S" key]
  by (auto simp: ms_touch_def Let_def lru_touch_def split: option.splits)

text \<open>Two stores with the same objects up to their access stamps and the same recency list up to its order.\<close>

definition restamped :: "mstore \<Rightarrow> mstore \<Rightarrow> bool" where
  "restamped S S' \<longleftrightarrow> same_setup S S' \<and> mo_memory_used_bytes S' = mo_memory_used_bytes S \<and> mo_offload S' = mo_offload S \<and>
     set (mo_memory_lru S') = set (mo_memory_lru S) \<and>
     (distinct (mo_memory_lru S) \<longrightarrow> distinct (mo_memory_lru S') \<and> length (mo_memory_lru S') = length (mo_memory_lru S)) \<and>
     (\<forall>k. map_option (so_last_access_update (\<lambda>_. 0)) (map_of (mo_objects S') k) = map_option (so_last_access_update (\<lambda>_. 0)) (map_of (mo_objects S) k))"

lemma restamped_touch: "restamped S (ms_touch key S)"
  using touch_facts [where key = key and S = S] touch_lru [where key = key and S = S] by (simp add: restamped_def option.map_comp comp_def)

lemma restamped_object:
  assumes "restamped S S'" "map_of (mo_objects S) k = Some ob"
  obtains n where "map_of (mo_objects S') k = Some (ob\<lparr>so_last_access := n\<rparr>)"
proof -
  from assms obtain ob' where ob': "map_of (mo_objects S') k = Some ob'" "ob'\<lparr>so_last_access := 0\<rparr> = ob\<lparr>so_last_access := 0\<rparr>"
    by (auto simp: restamped_def dest!: spec [of _ k])
  have "ob' = ob\<lparr>so_last_access := so_last_access ob'\<rparr>"
    using ob'(2) by (cases ob; cases ob') simp
  then show thesis using that ob'(1) by metis
qed

lemma restamped_absent: "restamped S S' \<Longrightarrow> map_of (mo_objects S) k = None \<Longrightarrow> map_of (mo_objects S') k = None"
  by (auto simp: restamped_def dest!: spec [of _ k])

lemma busy_stamp [simp]: "busy_until (ob\<lparr>so_last_access := n\<rparr>) = busy_until ob"
  by (simp add: busy_until_def)

lemma restamped_ok:
  assumes "restamped S S'" "store_ok clock S"
  shows "store_ok clock S'" "keeps_busy now S S'"
proof -
  have "key_ok clock S' k" for k
  proof (cases "map_of (mo_objects S) k")
    case None
    then show ?thesis using restamped_absent [OF assms(1) None] assms by (simp add: store_ok_def key_ok_def restamped_def tier_has_def)
       (metis absent_key assms(2) tier_has_def)
  next
    case (Some ob)
    then obtain n where "map_of (mo_objects S') k = Some (ob\<lparr>so_last_access := n\<rparr>)" using restamped_object [OF assms(1)] by blast
    moreover have "key_ok clock S k" using assms(2) by (simp add: store_ok_def)
    ultimately show ?thesis using Some assms(1)
      by (auto simp: key_ok_def restamped_def tier_has_def in_tier_def same_setup_def split: option.splits)
  qed
  moreover have "frame_ok S'" using assms by (simp add: store_ok_def frame_ok_def restamped_def same_setup_def)
  ultimately show "store_ok clock S'" by (simp add: store_ok_def)
  show "keeps_busy now S S'"
    unfolding keeps_busy_def by (auto elim: restamped_object [OF assms(1)])
qed

lemma restamped_refl: "restamped S S"
  by (simp add: restamped_def same_setup_def)

lemma restamped_trans: "restamped S S' \<Longrightarrow> restamped S' S'' \<Longrightarrow> restamped S S''"
  by (simp add: restamped_def same_setup_def)

section \<open>Puts\<close>

text \<open>What a put at \<open>now\<close> comes to.\<close>

definition put_done :: "real \<Rightarrow> mstore \<Rightarrow> mstore \<Rightarrow> bool" where
  "put_done now S S' \<longleftrightarrow> store_ok now S' \<and> keeps_busy now S S' \<and> same_setup S S'"

lemma put_done_trans: "put_done now S S' \<Longrightarrow> put_done now S' S'' \<Longrightarrow> put_done now S S''"
  using keeps_busy_trans by (auto simp: put_done_def same_setup_def)

lemma restamped_done: "restamped S S' \<Longrightarrow> store_ok now S \<Longrightarrow> put_done now S S'"
  using restamped_ok by (auto simp: put_done_def restamped_def)

lemma put_one_done:
  assumes ok: "store_ok now (fst s)" and t0: "0 \<le> now"
  obtains t s' where "put_one k now d s = (Ok t, s')" "put_done now (fst s) (fst s')"
proof (cases "map_of (mo_objects (fst s)) (to_string k)")
  case (Some ob)
  have "put_done now (fst s) (ms_touch (to_string k) (fst s))"
    by (rule restamped_done [OF restamped_touch ok])
  then show thesis using that [of no_timing "(ms_touch (to_string k) (fst s), snd s)"] Some
    by (simp add: put_one_def case_prod_beta Let_def)
next
  case None
  define ob where "ob = new_object (fst s) (now + d)"
  obtain b t s1 where e: "ensure_memory_capacity (so_bytes ob) now s = (Ok (b, t), s1)" "room_made now (so_bytes ob) (fst s) (b, t) (fst s1)"
    using ensure_ok [OF ok] by blast
  have ob: "so_blocks ob = 1" "so_bytes ob = mo_block_bytes (fst s1)" "so_tier ob = ''memory''" "\<not> so_persisted ob" "so_in_use_until ob = 0"
    using e(2) by (simp_all add: ob_def new_object_def room_made_def same_setup_def)
  have S1: "store_ok now (fst s1)" "map_of (mo_objects (fst s1)) (to_string k) = None" "keeps_busy now (fst s) (fst s1)" "same_setup (fst s) (fst s1)"
    using e(2) None by (simp_all add: room_made_def absent_stay_def)
  have "\<exists>t' s'. (if b then put_in_memory (to_string k) ob now d t s1 else put_without_room (to_string k) ob now d t s1) = (Ok t', s') \<and>
      put_done now (fst s1) (fst s')"
  proof (cases b)
    case True
    then have "mo_memory_used_bytes (fst s1) + mo_block_bytes (fst s1) \<le> mo_memory_capacity_bytes (fst s1)"
      using e(2) ob(2) by (simp add: room_made_def)
    then show ?thesis using put_in_memory_ok [OF S1(1,2) _ ob(1-4), of d t "snd s1"] True by (fastforce simp: put_done_def)
  next
    case False
    then show ?thesis using put_without_room_ok [OF S1(1,2) t0 ob(1,2,5), of d t "snd s1"] by (fastforce simp: put_done_def)
  qed
  then obtain t' s' where p: "(if b then put_in_memory (to_string k) ob now d t s1 else put_without_room (to_string k) ob now d t s1) = (Ok t', s')"
    "put_done now (fst s1) (fst s')" by blast
  have "put_done now (fst s) (fst s1)" using S1 by (simp add: put_done_def)
  from put_done_trans [OF this p(2)] show thesis
    using that [of t' s'] None e(1) p(1) by (cases b) (simp_all add: put_one_def case_prod_beta Let_def ob_def [symmetric])
qed

lemma put_each_done:
  assumes "store_ok now (fst s)" "0 \<le> now"
  obtains t s' where "put_each now d timing ks s = (Ok t, s')" "put_done now (fst s) (fst s')"
  using assms
proof (induction ks arbitrary: s timing thesis)
  case Nil
  then show ?case by (simp add: put_done_def keeps_busy_refl same_setup_def)
next
  case (Cons k ks)
  obtain t s1 where p: "put_one k now (d + accounting_latency timing) s = (Ok t, s1)" "put_done now (fst s) (fst s1)"
    using put_one_done [OF Cons.prems(2,3)] by blast
  then have "store_ok now (fst s1)" by (simp add: put_done_def)
  with Cons.IH [of "add_timing timing t" s1] Cons.prems(3) obtain t' s' where
    "put_each now d (add_timing timing t) ks s1 = (Ok t', s')" "put_done now (fst s1) (fst s')" by blast
  with Cons.prems(1) [of t' s'] p put_done_trans show ?case by auto
qed

section \<open>The bulk path\<close>

text \<open>
  A store without its access stamps. Nothing in the package reads the stamps back, so two stores that agree without
  them behave alike.
\<close>

definition unstamp :: "mstore \<Rightarrow> mstore" where
  "unstamp S = S\<lparr>mo_access_counter := 0, mo_objects := map (apsnd (so_last_access_update (\<lambda>_. 0))) (mo_objects S)\<rparr>"

definition absent :: "mstore \<Rightarrow> string \<Rightarrow> bool" where
  "absent S key \<longleftrightarrow> map_of (mo_objects S) key = None"

text \<open>What one put of a key that fits in memory does to such a store.\<close>

definition place :: "real \<Rightarrow> string \<Rightarrow> mstore \<Rightarrow> mstore" where
  "place ready key U =
     (let U1 = U\<lparr>mo_memory_lru := lru_touch key (mo_memory_lru U)\<rparr>
      in if absent U key then
           U1\<lparr>mo_objects := mo_objects U @ [(key, new_object U ready)], mo_memory_used_bytes := mo_memory_used_bytes U + mo_block_bytes U\<rparr>
         else U1)"

lemma unstamp_fields [simp]:
  "mo_memory_lru (unstamp S) = mo_memory_lru S" "mo_memory_used_bytes (unstamp S) = mo_memory_used_bytes S"
  "mo_block_bytes (unstamp S) = mo_block_bytes S" "mo_config (unstamp S) = mo_config S" "mo_offload (unstamp S) = mo_offload S"
  "new_object (unstamp S) = new_object S"
  "map_of (mo_objects (unstamp S)) k = map_option (so_last_access_update (\<lambda>_. 0)) (map_of (mo_objects S) k)"
  by (simp_all add: unstamp_def new_object_def fun_eq_iff apsnd_def map_prod_def map_of_map [unfolded comp_def])

lemma unstamp_touch:
  assumes "map_of (mo_objects S) key = Some ob" "so_tier ob = ''memory''" "key \<in> set (mo_memory_lru S)"
  shows "unstamp (ms_touch key S) = (unstamp S)\<lparr>mo_memory_lru := lru_touch key (mo_memory_lru S)\<rparr>"
  using assms by (auto simp: ms_touch_def Let_def unstamp_def upd_object_def intro!: mstore.equality)

lemma all_in_memory:
  assumes "store_ok clock S" "mo_offload S = None" "map_of (mo_objects S) key = Some ob"
  shows "so_tier ob = ''memory''" "key \<in> set (mo_memory_lru S)"
  using assms by (auto simp: store_ok_def key_ok_def in_tier_def dest!: spec [of _ key])

lemma put_one_place:
  assumes ok: "store_ok now S" and off: "mo_offload S = None"
    and room: "map_of (mo_objects S) (to_string k) = None \<longrightarrow> mo_memory_used_bytes S + mo_block_bytes S \<le> mo_memory_capacity_bytes S"
  obtains S' where "put_one k now d (S, st) = (Ok no_timing, (S', if map_of (mo_objects S) (to_string k) = None then count_admission st else st))"
    "unstamp S' = place (now + d) (to_string k) (unstamp S)" "mo_offload S' = None" "same_setup S S'"
proof (cases "map_of (mo_objects S) (to_string k)")
  case (Some ob)
  note m = all_in_memory [OF ok off Some]
  show thesis using that [of "ms_touch (to_string k) S"] Some unstamp_touch [OF Some m] touch_facts [where key = "to_string k" and S = S] off
    by (simp add: put_one_def place_def absent_def Let_def)
next
  case None
  have "0 \<le> mo_memory_used_bytes S" using ok by (auto simp: store_ok_def frame_ok_def)
  with None room have e: "ensure_memory_capacity (mo_block_bytes S) now (S, st) = (Ok (True, no_timing), (S, st))"
    by (simp add: ensure_memory_capacity_def ensure_loop_room)
  have l: "lru_touch (to_string k) (mo_memory_lru S) = mo_memory_lru S @ [to_string k]"
    using absent_key(1) [OF ok None] by (auto simp: lru_touch_def filter_id_conv)
  define S' where "S' = S\<lparr>mo_objects := mo_objects S @ [(to_string k, new_object S (now + d))],
     mo_memory_used_bytes := mo_memory_used_bytes S + mo_block_bytes S, mo_memory_lru := mo_memory_lru S @ [to_string k]\<rparr>"
  show thesis using that [of S'] None e off
    by (simp add: put_one_def Let_def new_object_def put_in_memory_def active_tier_def no_timing_def dict_set_new [OF None] place_def absent_def l S'_def
        same_setup_def unstamp_def map_of_map [unfolded comp_def] apsnd_def map_prod_def)
qed

lemma absent_unstamp [simp]: "absent (unstamp S) = absent S"
  by (simp add: absent_def fun_eq_iff)

lemma absent_place: "absent (place r key U) k \<longleftrightarrow> k \<noteq> key \<and> absent U k"
  by (auto simp: place_def absent_def Let_def map_add_Some_iff)

lemma fold_place:
  "distinct keys \<Longrightarrow> fold (place ready) keys U =
     U\<lparr>mo_objects := mo_objects U @ map (\<lambda>k. (k, new_object U ready)) (filter (absent U) keys),
       mo_memory_used_bytes := mo_memory_used_bytes U + int (length (filter (absent U) keys)) * mo_block_bytes U,
       mo_memory_lru := fold lru_touch keys (mo_memory_lru U)\<rparr>"
proof (induction keys arbitrary: U)
  case (Cons k keys)
  have f: "filter (absent (place ready k U)) keys = filter (absent U) keys"
    using Cons.prems by (auto simp: absent_place intro: filter_cong)
  have n: "new_object (place ready k U) = new_object U"
    by (simp add: place_def new_object_def fun_eq_iff Let_def)
  let ?V = "place ready k U"
  have e: "fold (place ready) (k # keys) U = ?V\<lparr>mo_objects := mo_objects ?V @ map (\<lambda>k. (k, new_object U ready)) (filter (absent U) keys),
       mo_memory_used_bytes := mo_memory_used_bytes ?V + int (length (filter (absent U) keys)) * mo_block_bytes ?V,
       mo_memory_lru := fold lru_touch keys (mo_memory_lru ?V)\<rparr>"
    using Cons.IH [of ?V] Cons.prems unfolding f n by simp
  show ?case unfolding e by (simp add: place_def Let_def distrib_right add.assoc)
qed simp

lemma put_each_place:
  assumes "store_ok now S" "0 \<le> now" "mo_offload S = None" "distinct (map to_string ks)"
    and "mo_memory_used_bytes S + int (length (filter (absent S) (map to_string ks))) * mo_block_bytes S \<le> mo_memory_capacity_bytes S"
  obtains S' where "put_each now d no_timing ks (S, st) =
      (Ok no_timing, (S', st\<lparr>ss_admission_count := ss_admission_count st + int (length (filter (absent S) (map to_string ks)))\<rparr>))"
    "unstamp S' = fold (place (now + d)) (map to_string ks) (unstamp S)"
  using assms
proof (induction ks arbitrary: S st thesis)
  case (Cons k ks)
  have bb: "0 < mo_block_bytes S" using Cons.prems(2) by (simp add: store_ok_def frame_ok_def)
  let ?n = "int (length (filter (absent S) (map to_string ks)))"
  have "0 \<le> ?n * mo_block_bytes S" using bb by simp
  then have room: "absent S (to_string k) \<longrightarrow> mo_memory_used_bytes S + mo_block_bytes S \<le> mo_memory_capacity_bytes S"
    using Cons.prems(6) by (auto simp: algebra_simps)
  obtain S1 where p: "put_one k now d (S, st) = (Ok no_timing, (S1, if absent S (to_string k) then count_admission st else st))"
    and u: "unstamp S1 = place (now + d) (to_string k) (unstamp S)" and off: "mo_offload S1 = None" and su: "same_setup S S1"
    using put_one_place [OF Cons.prems(2,4)] room unfolding absent_def by metis
  have ok: "store_ok now S1"
    using put_one_done [OF _ Cons.prems(3), of "(S, st)" k d] Cons.prems(2) p by (auto simp: put_done_def)
  have ab: "absent S1 = (\<lambda>x. x \<noteq> to_string k \<and> absent S x)"
    using absent_place [of "now + d" "to_string k" "unstamp S"] u by (metis absent_unstamp)
  have f: "filter (absent S1) (map to_string ks) = filter (absent S) (map to_string ks)"
    using Cons.prems(5) unfolding ab by (auto intro!: filter_cong)
  have used: "mo_memory_used_bytes S1 = mo_memory_used_bytes S + (if absent S (to_string k) then mo_block_bytes S else 0)"
    using arg_cong [OF u, of mo_memory_used_bytes] by (simp add: place_def Let_def absent_def)
  let ?st1 = "if absent S (to_string k) then count_admission st else st"
  have room1: "mo_memory_used_bytes S1 + int (length (filter (absent S1) (map to_string ks))) * mo_block_bytes S1 \<le> mo_memory_capacity_bytes S1"
    using Cons.prems(6) used f su by (simp add: same_setup_def algebra_simps split: if_splits)
  obtain S' where r: "put_each now d no_timing ks (S1, ?st1) =
      (Ok no_timing, (S', ?st1\<lparr>ss_admission_count := ss_admission_count ?st1 + ?n\<rparr>))"
    "unstamp S' = fold (place (now + d)) (map to_string ks) (unstamp S1)"
    using Cons.IH [OF _ ok Cons.prems(3) off _ room1, of ?st1] Cons.prems(5) unfolding f by auto
  show ?case
    using Cons.prems(1) [of S'] r u p by (simp add: no_timing_def add_timing_def count_admission_def split: if_splits)
qed simp

lemma fold_update_new:
  "distinct keys \<Longrightarrow> (\<forall>k \<in> set keys. map_of d k = None) \<Longrightarrow> fold (\<lambda>k. AList.update k v) keys d = d @ map (\<lambda>k. (k, v)) keys"
proof (induction keys arbitrary: d)
  case (Cons k keys)
  then have "AList.update k v d = d @ [(k, v)]" by (simp add: dict_set_new)
  moreover have "\<forall>x \<in> set keys. map_of (d @ [(k, v)]) x = None" using Cons.prems by (auto simp: map_add_def)
  ultimately show ?case using Cons.IH [of "d @ [(k, v)]"] Cons.prems(1) by simp
qed simp

definition held_in_memory :: "mstore \<Rightarrow> string \<Rightarrow> bool" where
  "held_in_memory S key \<longleftrightarrow> (case map_of (mo_objects S) key of None \<Rightarrow> False | Some ob \<Rightarrow> so_tier ob = ''memory'')"

lemma held_unstamp [simp]: "held_in_memory (unstamp S) = held_in_memory S"
  by (auto simp: held_in_memory_def fun_eq_iff split: option.split)

lemma unstamp_batch_touch:
  assumes "held_in_memory S key"
  shows "unstamp (batch_touch key S) = (unstamp S)\<lparr>mo_memory_lru := lru_touch key (mo_memory_lru S)\<rparr>"
proof -
  obtain ob where ob: "map_of (mo_objects S) key = Some ob" "so_tier ob = ''memory''"
    using assms by (auto simp: held_in_memory_def split: option.splits)
  define S1 where "S1 = (if key \<in> set (mo_memory_lru S) then S else S\<lparr>mo_memory_lru := mo_memory_lru S @ [key]\<rparr>)"
  have "unstamp (ms_touch key S1) = (unstamp S1)\<lparr>mo_memory_lru := lru_touch key (mo_memory_lru S1)\<rparr>"
    by (rule unstamp_touch [of _ _ ob]) (use ob in \<open>simp_all add: S1_def\<close>)
  moreover have "lru_touch key (mo_memory_lru S1) = lru_touch key (mo_memory_lru S)" by (simp add: S1_def lru_touch_def)
  moreover have "(unstamp S1)\<lparr>mo_memory_lru := l\<rparr> = (unstamp S)\<lparr>mo_memory_lru := l\<rparr>" for l by (simp add: S1_def unstamp_def)
  ultimately show ?thesis by (simp add: batch_touch_def S1_def [symmetric])
qed

lemma unstamp_fold_touch:
  "\<forall>k \<in> set keys. held_in_memory S k \<Longrightarrow>
   unstamp (fold batch_touch keys S) = (unstamp S)\<lparr>mo_memory_lru := fold lru_touch keys (mo_memory_lru S)\<rparr>"
proof (induction keys arbitrary: S)
  case (Cons k keys)
  have u: "unstamp (batch_touch k S) = (unstamp S)\<lparr>mo_memory_lru := lru_touch k (mo_memory_lru S)\<rparr>"
    using Cons.prems by (simp add: unstamp_batch_touch)
  have "held_in_memory (batch_touch k S) = held_in_memory ((unstamp S)\<lparr>mo_memory_lru := lru_touch k (mo_memory_lru S)\<rparr>)"
    by (metis u held_unstamp)
  also have "\<dots> = held_in_memory S" using held_unstamp [of S] by (simp add: held_in_memory_def [abs_def])
  finally have held: "held_in_memory (batch_touch k S) = held_in_memory S" .
  have "mo_memory_lru (batch_touch k S) = lru_touch k (mo_memory_lru S)"
    using arg_cong [OF u, of mo_memory_lru] unfolding unstamp_fields(1) by simp
  then show ?case using Cons.IH [of "batch_touch k S"] Cons.prems u held by simp
qed (simp add: unstamp_def)

lemma unstamp_put_batch:
  assumes ok: "store_ok now S" and off: "mo_offload S = None" and dist: "distinct keys"
  shows "unstamp (fst (put_batch keys (filter (absent S) keys) ready (S, st))) = fold (place ready) keys (unstamp S)"
proof -
  let ?fresh = "filter (absent S) keys"
  define S1 where "S1 = S\<lparr>mo_objects := mo_objects S @ map (\<lambda>k. (k, new_object S ready)) ?fresh,
     mo_memory_used_bytes := mo_memory_used_bytes S + int (length ?fresh) * mo_block_bytes S\<rparr>"
  have objs: "fold (\<lambda>k. AList.update k (new_object S ready)) ?fresh (mo_objects S) = mo_objects S @ map (\<lambda>k. (k, new_object S ready)) ?fresh"
    using dist by (intro fold_update_new) (auto simp: absent_def)
  have "held_in_memory S1 k" if "k \<in> set keys" for k
  proof (cases "absent S k")
    case True
    then have "map_of (mo_objects S1) k = Some (new_object S ready)"
      using that by (simp add: S1_def absent_def map_add_def map_of_map_restrict restrict_map_def split: option.split)
    then show ?thesis by (simp add: held_in_memory_def new_object_def)
  next
    case False
    then obtain ob where "map_of (mo_objects S) k = Some ob" by (auto simp: absent_def)
    with all_in_memory [OF ok off this] show ?thesis
      using False by (auto simp: held_in_memory_def S1_def map_add_def map_of_map_restrict restrict_map_def split: option.splits)
  qed
  then have "unstamp (fold batch_touch keys S1) = (unstamp S1)\<lparr>mo_memory_lru := fold lru_touch keys (mo_memory_lru S1)\<rparr>"
    by (intro unstamp_fold_touch) blast
  then show ?thesis unfolding fold_place [OF dist]
    by (simp add: put_batch_def objs S1_def [symmetric]) (simp add: S1_def unstamp_def apsnd_def map_prod_def new_object_def comp_def)
qed

lemma unstamp_restamped:
  assumes "unstamp S = unstamp S'" "mo_memory_capacity_bytes S' = mo_memory_capacity_bytes S"
  shows "restamped S S'"
proof -
  have "f (unstamp S) = f (unstamp S')" for f :: "mstore \<Rightarrow> 'x" using assms(1) by simp
  note e = this
  have "map_option (so_last_access_update (\<lambda>_. 0)) (map_of (mo_objects S') k) = map_option (so_last_access_update (\<lambda>_. 0)) (map_of (mo_objects S) k)" for k
    using e [of "\<lambda>S. map_of (mo_objects S) k"] by simp
  then show ?thesis
    using arg_cong [OF assms(1), of mo_memory_lru] arg_cong [OF assms(1), of mo_memory_used_bytes] arg_cong [OF assms(1), of mo_config]
      arg_cong [OF assms(1), of mo_block_bytes] arg_cong [OF assms(1), of mo_offload] assms(2)
    by (simp add: restamped_def same_setup_def)
qed

lemma from_keys_facts: "distinct (from_keys xs)" "set (from_keys xs) = set xs"
  by (induction xs) auto

lemma from_keys_distinct: "distinct xs \<Longrightarrow> from_keys xs = xs"
  by (induction xs) (auto simp: filter_id_conv)

lemma from_keys_map: "\<exists>ys. from_keys (map f xs) = map f ys"
proof (induction xs)
  case (Cons x xs)
  then obtain ys where "from_keys (map f xs) = map f ys" by blast
  then have "from_keys (map f (x # xs)) = map f (x # filter (\<lambda>y. f y \<noteq> f x) ys)" by (simp add: filter_map comp_def)
  then show ?case by blast
qed (auto intro: exI [of _ "[]"])

lemma put_batch_capacity: "mo_memory_capacity_bytes (fst (put_batch sel fresh ready (S, st))) = mo_memory_capacity_bytes S"
proof -
  have "mo_memory_capacity_bytes (fold batch_touch ks U) = mo_memory_capacity_bytes U" for ks U
    using touch_facts(2) by (induction ks arbitrary: U) (simp_all add: batch_touch_def same_setup_def)
  then show ?thesis by (simp add: put_batch_def Let_def)
qed

text \<open>The bulk path does what the loop does on the keys without repetitions, up to the access stamps.\<close>

lemma put_batch_loop:
  assumes ok: "store_ok now S" and t0: "0 \<le> now" and off: "mo_offload S = None" and ks: "distinct (map to_string ks)"
    and room: "mo_memory_used_bytes S + int (length (filter (absent S) (map to_string ks))) * mo_block_bytes S \<le> mo_memory_capacity_bytes S"
  obtains S' where "put_each now d no_timing ks (S, st) = (Ok no_timing, (S', snd (put_batch (map to_string ks) (filter (absent S) (map to_string ks)) (now + d) (S, st))))"
    "unstamp S' = unstamp (fst (put_batch (map to_string ks) (filter (absent S) (map to_string ks)) (now + d) (S, st)))"
  using put_each_place [OF ok t0 off ks room, of d st] unstamp_put_batch [OF ok off ks, of "now + d" st] that
  by (auto simp: put_batch_def Let_def)

lemma put_with_timing_done:
  assumes ok: "store_ok now (fst s)" and t0: "0 \<le> now"
  obtains t s' where "put_with_timing keys b now d adm s = (Ok t, s')" "put_done now (fst s) (fst s')"
proof -
  obtain S st where s: "s = (S, st)" by (cases s)
  have refl: "put_done now S S" using ok s by (simp add: put_done_def keeps_busy_refl same_setup_def)
  define st1 where "st1 = st\<lparr>ss_put_count := ss_put_count st + 1\<rparr>"
  define n where "n = (case b of Some b \<Rightarrow> b | None \<Rightarrow> int (length keys))"
  obtain ks where ks: "from_keys (map to_string (slice_to n keys)) = map to_string ks" using from_keys_map by blast
  then have dist: "distinct (map to_string ks)" using from_keys_facts(1) by metis
  let ?fresh = "filter (absent S) (map to_string ks)"
  have batch: "put_done now S (fst (put_batch (map to_string ks) ?fresh (now + d) (S, st1)))"
    if off: "\<not> mc_enable_offload (mo_config S)" and room: "mo_memory_used_bytes S + int (length ?fresh) * mo_block_bytes S \<le> mo_memory_capacity_bytes S"
  proof -
    have none: "mo_offload S = None" using ok off s by (auto simp: store_ok_def frame_ok_def)
    obtain S' where e: "put_each now d no_timing ks (S, st1) = (Ok no_timing, (S', snd (put_batch (map to_string ks) ?fresh (now + d) (S, st1))))"
      "unstamp S' = unstamp (fst (put_batch (map to_string ks) ?fresh (now + d) (S, st1)))"
      using put_batch_loop [OF _ t0 none dist room] ok s by (metis fst_conv)
    have d: "put_done now S S'" using put_each_done [OF _ t0, of "(S, st1)" d no_timing ks] ok s e(1) by auto
    then have r: "restamped S' (fst (put_batch (map to_string ks) ?fresh (now + d) (S, st1)))"
      using unstamp_restamped [OF e(2)] put_batch_capacity by (simp add: put_done_def same_setup_def)
    have "put_done now S' (fst (put_batch (map to_string ks) ?fresh (now + d) (S, st1)))"
      by (rule restamped_done [OF r]) (use d in \<open>simp add: put_done_def\<close>)
    then show ?thesis using put_done_trans [OF d] by blast
  qed
  have abs: "absent S = (\<lambda>k. map_of (mo_objects S) k = None)" by (simp add: absent_def fun_eq_iff)
  obtain t s' where each: "put_each now d no_timing (slice_to n keys) (S, st1) = (Ok t, s')" "put_done now S (fst s')"
    using put_each_done [OF _ t0, of "(S, st1)" d no_timing "slice_to n keys"] ok s by auto
  have "(\<exists>t. fst (put_with_timing keys b now d adm (S, st)) = Ok t) \<and> put_done now S (fst (snd (put_with_timing keys b now d adm (S, st))))"
    using refl batch each
    unfolding put_with_timing_def Let_def prod.case n_def [symmetric] st1_def [symmetric] ks abs
    by auto
  then show thesis using that unfolding s fst_conv by (metis prod.collapse)
qed

end
