(* ===== verification/Store_Safety.thy ===== *)
theory Store_Safety
  imports Store_Runs
begin

text \<open>
  Reads of the external key-value store and runs of its calls at times that do not go back, with what every run keeps.
\<close>

section \<open>Reads\<close>

lemma read_fields [simp]:
  "ot_tier (snd (ot_read k T)) = ot_tier T" "ot_contains (snd (ot_read k T)) = ot_contains T"
  "protected_until (snd (ot_read k T)) = protected_until T" "ot_capacity_blocks (snd (ot_read k T)) = ot_capacity_blocks T"
  by (simp_all add: ot_read_def ot_contains_def protected_until_def Let_def fun_eq_iff)

lemma read_inv: "ot_inv T \<Longrightarrow> ot_inv (snd (ot_read k T))"
  by (auto simp: ot_read_def ot_inv_def Let_def lru_touch_def)

text \<open>Two stores with the same objects up to their access stamps and an offload tier of the same contents.\<close>

definition reread :: "mstore \<Rightarrow> mstore \<Rightarrow> bool" where
  "reread S S' \<longleftrightarrow> same_setup S S' \<and>
     (\<forall>k. map_option (so_last_access_update (\<lambda>_. 0)) (map_of (mo_objects S') k) = map_option (so_last_access_update (\<lambda>_. 0)) (map_of (mo_objects S) k)) \<and>
     map_option ot_tier (mo_offload S') = map_option ot_tier (mo_offload S)"

lemma reread_refl: "reread S S"
  by (simp add: reread_def same_setup_def)

lemma reread_trans: "reread S S' \<Longrightarrow> reread S' S'' \<Longrightarrow> reread S S''"
  by (simp add: reread_def same_setup_def)

lemma reread_touch: "reread S (ms_touch k S)"
  using restamped_touch [of S k] by (simp add: reread_def restamped_def)

lemma reread_object:
  assumes "reread S S'"
  shows "map_of (mo_objects S) k = Some ob \<Longrightarrow>
      \<exists>ob'. map_of (mo_objects S') k = Some ob' \<and> so_tier ob' = so_tier ob \<and> so_ready_at ob' = so_ready_at ob \<and> so_in_use_until ob' = so_in_use_until ob"
    "map_of (mo_objects S) k = None \<Longrightarrow> map_of (mo_objects S') k = None"
proof -
  have e: "map_option (so_last_access_update (\<lambda>_. 0)) (map_of (mo_objects S') k) = map_option (so_last_access_update (\<lambda>_. 0)) (map_of (mo_objects S) k)"
    using assms by (simp add: reread_def)
  then show "map_of (mo_objects S) k = None \<Longrightarrow> map_of (mo_objects S') k = None" by simp
  assume "map_of (mo_objects S) k = Some ob"
  with e obtain ob' where ob': "map_of (mo_objects S') k = Some ob'" "ob'\<lparr>so_last_access := 0\<rparr> = ob\<lparr>so_last_access := 0\<rparr>" by auto
  from ob'(2) have "so_tier ob' = so_tier ob \<and> so_ready_at ob' = so_ready_at ob \<and> so_in_use_until ob' = so_in_use_until ob"
    by (cases ob; cases ob') simp
  then show "\<exists>ob'. map_of (mo_objects S') k = Some ob' \<and> so_tier ob' = so_tier ob \<and> so_ready_at ob' = so_ready_at ob \<and> so_in_use_until ob' = so_in_use_until ob"
    using ob'(1) by blast
qed

lemma read_tier_ok:
  assumes "store_ok clock S" "mo_offload S = Some T"
  shows "store_ok clock (S\<lparr>mo_offload := Some (snd (ot_read k T))\<rparr>)" "reread S (S\<lparr>mo_offload := Some (snd (ot_read k T))\<rparr>)"
  using assms read_inv [of T k]
  by (simp_all add: store_ok_def frame_ok_def key_ok_def tier_has_def in_tier_def reread_def same_setup_def cong: option.case_cong)

text \<open>One round of the first loop of a read.\<close>

definition read_one :: "string \<Rightarrow> mstore \<Rightarrow> mstore" where
  "read_one key S =
     (let S1 = ms_touch key S
      in case mo_offload S1 of
           None \<Rightarrow> S1
         | Some T \<Rightarrow> if (case map_of (mo_objects S) key of None \<Rightarrow> False | Some ob \<Rightarrow> is_offload_tier S1 (so_tier ob))
                    then S1\<lparr>mo_offload := Some (snd (ot_read key T))\<rparr> else S1)"

lemma reread_one: "reread S (read_one key S)"
proof (cases "mo_offload S")
  case None
  then show ?thesis using reread_touch [of S key] touch_facts(4) [of key S] by (simp add: read_one_def)
next
  case (Some T)
  let ?S = "ms_touch key S"
  have "mo_offload ?S = Some T" using touch_facts(4) [of key S] Some by simp
  moreover have "reread S (?S\<lparr>mo_offload := Some (snd (ot_read key T))\<rparr>)"
    using reread_touch [of S key] Some by (simp add: reread_def same_setup_def)
  ultimately show ?thesis using reread_touch [of S key] by (simp add: read_one_def Let_def)
qed

lemma read_one_ok:
  assumes "store_ok clock S"
  shows "store_ok clock (read_one key S)"
proof -
  have "store_ok clock (ms_touch key S)" using restamped_ok(1) [OF restamped_touch assms] .
  then show ?thesis using read_tier_ok(1) by (auto simp: read_one_def Let_def split: option.split)
qed

text \<open>A read needs every one of its objects resident and ready.\<close>

definition readable :: "real \<Rightarrow> mstore \<Rightarrow> pool_key \<Rightarrow> bool" where
  "readable now S k \<longleftrightarrow> (case map_of (mo_objects S) (to_string k) of None \<Rightarrow> False | Some ob \<Rightarrow> so_ready_at ob \<le> now)"

lemma readable_reread:
  assumes "reread S S'"
  shows "readable now S' = readable now S"
proof
  fix k
  show "readable now S' k = readable now S k"
    using reread_object [OF assms, of "to_string k"]
    by (cases "map_of (mo_objects S) (to_string k)") (auto simp: readable_def)
qed

lemma read_each_ready:
  assumes "readable now (fst s) k"
  obtains latency' st' where "read_each now latency (k # ks) s = read_each now latency' ks (read_one (to_string k) (fst s), st')"
proof -
  obtain S st where s: "s = (S, st)" by (cases s)
  obtain ob where ob: "map_of (mo_objects S) (to_string k) = Some ob" "\<not> now < so_ready_at ob"
    using assms s by (auto simp: readable_def split: option.splits)
  show thesis
    using that s ob by (cases "mo_offload (ms_touch (to_string k) S)"; cases "is_offload_tier (ms_touch (to_string k) S) (so_tier ob)")
      (simp_all add: read_one_def Let_def case_prod_beta)
qed

lemma read_each_stuck: "\<not> readable now (fst s) k \<Longrightarrow> read_each now latency (k # ks) s = (Raise SimulationStateError, s)"
  by (cases s) (auto simp: readable_def split: option.splits)

lemma read_each_facts:
  assumes "read_each now latency ks s = (r, s')"
  shows "reread (fst s) (fst s')" "store_ok clock (fst s) \<Longrightarrow> store_ok clock (fst s')"
    "if \<forall>k \<in> set ks. readable now (fst s) k then \<exists>l. r = Ok l else r = Raise SimulationStateError"
proof -
  have "reread (fst s) (fst s') \<and> (store_ok clock (fst s) \<longrightarrow> store_ok clock (fst s')) \<and>
    (if \<forall>k \<in> set ks. readable now (fst s) k then \<exists>l. r = Ok l else r = Raise SimulationStateError)"
    using assms
  proof (induction ks arbitrary: s latency)
    case Nil
    then show ?case by (auto simp: reread_refl)
  next
    case (Cons k ks)
    show ?case
    proof (cases "readable now (fst s) k")
      case True
      obtain latency' st' where "read_each now latency' ks (read_one (to_string k) (fst s), st') = (r, s')"
        using read_each_ready [OF True] Cons.prems by metis
      from Cons.IH [OF this] show ?thesis
        using reread_trans [OF reread_one] read_one_ok readable_reread [OF reread_one] True by auto
    next
      case False
      then show ?thesis using read_each_stuck [OF False] Cons.prems by (auto simp: reread_refl)
    qed
  qed
  then show "reread (fst s) (fst s')" "store_ok clock (fst s) \<Longrightarrow> store_ok clock (fst s')"
    "if \<forall>k \<in> set ks. readable now (fst s) k then \<exists>l. r = Ok l else r = Raise SimulationStateError" by blast+
qed

section \<open>Holding what is read\<close>

text \<open>An object that is there stays in its tier and is busy at least as long as before.\<close>

definition longer_busy :: "mstore \<Rightarrow> mstore \<Rightarrow> bool" where
  "longer_busy S S' \<longleftrightarrow> (\<forall>k ob. map_of (mo_objects S) k = Some ob \<longrightarrow>
     (\<exists>ob'. map_of (mo_objects S') k = Some ob' \<and> so_tier ob' = so_tier ob \<and> busy_until ob \<le> busy_until ob'))"

lemma longer_busy_refl: "longer_busy S S"
  by (auto simp: longer_busy_def)

lemma longer_busy_trans: "longer_busy S S' \<Longrightarrow> longer_busy S' S'' \<Longrightarrow> longer_busy S S''"
  unfolding longer_busy_def by (metis order_trans)

lemma longer_busy_reread: "reread S S' \<Longrightarrow> longer_busy S S'"
  using reread_object(1) unfolding longer_busy_def by (metis busy_until_def order_refl)

lemma hold_one_facts:
  assumes "store_ok clock S"
  shows "store_ok clock (hold_one until k S)" "longer_busy S (hold_one until k S)"
    "map_of (mo_objects S) (to_string k) = Some ob \<Longrightarrow>
      \<exists>ob'. map_of (mo_objects (hold_one until k S)) (to_string k) = Some ob' \<and> so_tier ob' = so_tier ob \<and> until \<le> busy_until ob'"
proof -
  define key where "key = to_string k"
  define S1 where "S1 = upd_object key (\<lambda>ob. ob\<lparr>so_in_use_until := max (so_in_use_until ob) until\<rparr>) S"
  have S1: "map_of (mo_objects S1) = (map_of (mo_objects S))(key := map_option (\<lambda>ob. ob\<lparr>so_in_use_until := max (so_in_use_until ob) until\<rparr>) (map_of (mo_objects S) key))"
    "mo_offload S1 = mo_offload S" "same_setup S S1" "mo_memory_used_bytes S1 = mo_memory_used_bytes S" "mo_memory_lru S1 = mo_memory_lru S"
    by (simp_all add: S1_def same_setup_def)
  have hold: "hold_one until k S = (case map_of (mo_objects S1) key of None \<Rightarrow> S1
      | Some ob \<Rightarrow> if is_offload_tier S1 (so_tier ob) then upd_tier (ot_pin key (so_in_use_until ob)) S1 else S1)"
    unfolding hold_one_def Let_def key_def S1_def by (rule refl)
  have objs: "map_of (mo_objects (hold_one until k S)) = map_of (mo_objects S1)"
    unfolding hold by (simp split: option.split)
  show "longer_busy S (hold_one until k S)"
    unfolding longer_busy_def objs S1 by (auto simp: busy_until_def)
  show "map_of (mo_objects S) (to_string k) = Some ob \<Longrightarrow>
      \<exists>ob'. map_of (mo_objects (hold_one until k S)) (to_string k) = Some ob' \<and> so_tier ob' = so_tier ob \<and> until \<le> busy_until ob'"
    unfolding objs S1 by (auto simp: busy_until_def key_def)
  have ok: "others_ok clock S key" "key_ok clock S key" using assms by (simp_all add: store_ok_split [of clock S key])
  have others: "others_ok clock S1 key" by (rule others_ok_cong [OF ok(1) S1(3,4,5)]) (simp_all add: S1)
  show "store_ok clock (hold_one until k S)"
  proof (cases "map_of (mo_objects S) key")
    case None
    then have "hold_one until k S = S" using upd_absent [OF None] unfolding hold S1_def by simp
    then show ?thesis using assms by simp
  next
    case (Some ob)
    define ob1 where "ob1 = ob\<lparr>so_in_use_until := max (so_in_use_until ob) until\<rparr>"
    have o: "map_of (mo_objects S1) key = Some ob1" using S1(1) Some by (simp add: ob1_def)
    show ?thesis
    proof (cases "so_tier ob = ''memory''")
      case True
      then have "\<not> is_offload_tier S1 (so_tier ob1)"
        using assms by (auto simp: is_offload_tier_def S1 ob1_def store_ok_def frame_ok_def split: option.splits)
      then have h: "hold_one until k S = S1" using o unfolding hold by simp
      have "key_ok clock S1 key" using ok(2) Some o True S1 by (simp add: key_ok_def ob1_def tier_has_def same_setup_def)
      then show ?thesis using others h by (simp add: store_ok_split [of clock S1 key])
    next
      case False
      then obtain T where T: "mo_offload S = Some T" "so_tier ob = ot_tier T" "busy_until ob \<le> max (protected_until T key) clock" "ot_contains T key"
        using ok(2) Some by (auto simp: key_ok_def in_tier_def split: option.splits)
      define S2 where "S2 = upd_tier (ot_pin key (so_in_use_until ob1)) S1"
      have h: "hold_one until k S = S2"
        using o T unfolding hold by (simp add: S2_def is_offload_tier_def ob1_def S1(2))
      have "others_ok clock S2 key"
        by (rule others_ok_cong [OF others]) (auto simp: S2_def same_setup_def option.map_comp comp_def)
      moreover have "key_ok clock S2 key"
        using ok(2) Some o False S1 T by (auto simp: key_ok_def S2_def ob1_def tier_has_def same_setup_def in_tier_def busy_until_def)
      ultimately show ?thesis using h by (simp add: store_ok_split [of clock S2 key])
    qed
  qed
qed

lemma fold_hold_facts:
  assumes "store_ok clock S"
  shows "store_ok clock (fold (hold_one until) ks S) \<and> longer_busy S (fold (hold_one until) ks S)"
  using assms
proof (induction ks arbitrary: S)
  case (Cons k ks)
  then show ?case using hold_one_facts [OF Cons.prems, where until = until and k = k] longer_busy_trans by auto
qed (simp add: longer_busy_refl)

lemma fold_hold_holds:
  assumes "store_ok clock S" "k \<in> set ks" "map_of (mo_objects S) (to_string k) = Some ob"
  shows "\<exists>ob'. map_of (mo_objects (fold (hold_one until) ks S)) (to_string k) = Some ob' \<and> so_tier ob' = so_tier ob \<and> until \<le> busy_until ob'"
  using assms
proof (induction ks arbitrary: S ob)
  case (Cons x ks)
  note h = hold_one_facts [OF Cons.prems(1), where until = until and k = x]
  obtain ob1 where ob1: "map_of (mo_objects (hold_one until x S)) (to_string k) = Some ob1" "so_tier ob1 = so_tier ob"
    using h(2) Cons.prems(3) by (auto simp: longer_busy_def)
  show ?case
  proof (cases "k \<in> set ks")
    case True
    then show ?thesis using Cons.IH [OF h(1) True ob1(1)] ob1(2) by simp
  next
    case False
    then have "x = k" using Cons.prems(2) by simp
    then obtain ob2 where "map_of (mo_objects (hold_one until x S)) (to_string k) = Some ob2" "so_tier ob2 = so_tier ob" "until \<le> busy_until ob2"
      using h(3) Cons.prems(3) by blast
    then show ?thesis using fold_hold_facts [OF h(1), of until ks] by (force simp: longer_busy_def)
  qed
qed simp

lemma get_facts:
  assumes "ms_get keys now d s = (r, s')" "store_ok clock (fst s)"
  shows "store_ok clock (fst s')" "longer_busy (fst s) (fst s')"
proof -
  obtain S st where s: "s = (S, st)" by (cases s)
  obtain r1 s1 where e: "read_each now 0 keys (S, st\<lparr>ss_get_count := ss_get_count st + 1\<rparr>) = (r1, s1)" by (metis surj_pair)
  have "store_ok clock (fst s1)" "longer_busy S (fst s1)"
    using read_each_facts(1,2) [OF e] assms(2) s longer_busy_reread by auto
  then show "store_ok clock (fst s')" "longer_busy (fst s) (fst s')"
    using assms e s fold_hold_facts [of clock "fst s1"] longer_busy_trans longer_busy_refl
    by (cases r1; auto simp: ms_get_def split: if_splits)+
qed

lemma put_done_bound: "put_done now S S' \<Longrightarrow> mo_memory_used_bytes S' \<le> max 0 (mo_memory_capacity_bytes S)"
  unfolding put_done_def store_ok_def frame_ok_def same_setup_def by metis

lemmas get_keeps = get_facts [OF prod.collapse [symmetric]]

lemma put_keeps:
  assumes "store_ok now (fst s)" "0 \<le> now"
  shows "\<exists>t. fst (put_with_timing keys b now d adm s) = Ok t" "put_done now (fst s) (fst (snd (put_with_timing keys b now d adm s)))"
proof -
  obtain t s' where "put_with_timing keys b now d adm s = (Ok t, s')" "put_done now (fst s) (fst s')"
    by (rule put_with_timing_done [OF assms])
  then show "\<exists>t. fst (put_with_timing keys b now d adm s) = Ok t" "put_done now (fst s) (fst (snd (put_with_timing keys b now d adm s)))" by simp_all
qed

section \<open>Runs\<close>

text \<open>Calls of the store, each at a time that is not before the last one.\<close>

inductive store_steps :: "real \<Rightarrow> mstate \<Rightarrow> real \<Rightarrow> mstate \<Rightarrow> bool" for t0 s0 where
  steps_start: "store_steps t0 s0 t0 s0"
| steps_lookup: "store_steps t0 s0 t s \<Longrightarrow> t \<le> now \<Longrightarrow> store_steps t0 s0 now (snd (ms_lookup keys now s))"
| steps_get: "store_steps t0 s0 t s \<Longrightarrow> t \<le> now \<Longrightarrow> store_steps t0 s0 now (snd (ms_get keys now d s))"
| steps_put: "store_steps t0 s0 t s \<Longrightarrow> t \<le> now \<Longrightarrow> store_steps t0 s0 now (snd (put_with_timing keys b now d adm s))"

lemma lookup_store [simp]: "fst (snd (ms_lookup keys now s)) = fst s"
  by (cases s) (simp add: ms_lookup_def Let_def case_prod_beta)

lemma lookup_hit:
  "sh_keys (fst (ms_lookup keys now s)) = fst (hit_prefix (fst s) now None keys) \<and>
   sh_hit_blocks (fst (ms_lookup keys now s)) = length (sh_keys (fst (ms_lookup keys now s)))"
proof (cases "keys = []")
  case False
  obtain S st where s: "s = (S, st)" by (cases s)
  obtain hits tier where "hit_prefix S now None keys = (hits, tier)" by (metis surj_pair)
  then show ?thesis using False s by (simp add: ms_lookup_def)
qed (simp add: ms_lookup_def case_prod_beta)

lemma steps_ok:
  assumes "store_steps t0 s0 t s" "store_ok t0 (fst s0)" "0 \<le> t0"
  shows "store_ok t (fst s) \<and> t0 \<le> t"
  using assms(1)
proof induction
  case steps_start
  then show ?case using assms by simp
next
  case (steps_lookup t s now keys)
  then show ?case using store_ok_later [of t "fst s" now] by simp
next
  case (steps_get t s now keys d)
  then show ?case using get_keeps(1) store_ok_later [of t "fst s" now] by auto
next
  case (steps_put t s now keys b d adm)
  have "store_ok now (fst s)" "0 \<le> now" using steps_put(3) assms(3) store_ok_later [OF _ steps_put(2)] steps_put(2) by auto
  from put_keeps(2) [OF this] show ?case using steps_put(2,3) by (auto simp: put_done_def)
qed

text \<open>The object \<open>ob\<close> under \<open>k\<close> is still there.\<close>

definition stays :: "string \<Rightarrow> store_object \<Rightarrow> mstore \<Rightarrow> bool" where
  "stays k ob S \<longleftrightarrow> (\<exists>ob'. map_of (mo_objects S) k = Some ob' \<and> so_tier ob' = so_tier ob \<and> busy_until ob \<le> busy_until ob')"

lemma stays_longer: "stays k ob S \<Longrightarrow> longer_busy S S' \<Longrightarrow> stays k ob S'"
  by (fastforce simp: stays_def longer_busy_def)

lemma stays_put: "stays k ob S \<Longrightarrow> keeps_busy now S S' \<Longrightarrow> now < busy_until ob \<Longrightarrow> stays k ob S'"
  by (fastforce simp: stays_def keeps_busy_def)

lemma steps_keep:
  assumes "store_steps t0 s0 t s" "store_ok t0 (fst s0)" "0 \<le> t0" "map_of (mo_objects (fst s0)) k = Some ob"
  shows "t < busy_until ob \<longrightarrow> stays k ob (fst s)"
  using assms(1)
proof induction
  case steps_start
  then show ?case using assms(4) by (simp add: stays_def)
next
  case (steps_lookup t s now keys)
  then show ?case by auto
next
  case (steps_get t s now keys d)
  have "longer_busy (fst s) (fst (snd (ms_get keys now d s)))"
    using get_keeps(2) steps_ok [OF steps_get(1) assms(2,3)] by blast
  then show ?case using steps_get(2,3) stays_longer by auto
next
  case (steps_put t s now keys b d adm)
  have "store_ok now (fst s)" "0 \<le> now" using steps_ok [OF steps_put(1) assms(2,3)] steps_put(2) assms(3) store_ok_later [OF _ steps_put(2)] by auto
  from put_keeps(2) [OF this] have "keeps_busy now (fst s) (fst (snd (put_with_timing keys b now d adm s)))"
    by (auto simp: put_done_def)
  then show ?case using steps_put(2,3) stays_put by auto
qed

lemma store_ok_new:
  assumes "mc_enable_offload c \<longrightarrow> 0 < cap div max 1 bb \<and> name \<noteq> ''memory''"
  shows "store_ok 0 (make_store c bb (make_offload_tier name legacy cap cost bb))"
  using assms ot_inv_new [of name legacy cap cost bb]
  by (auto simp: make_store_def Let_def store_ok_def frame_ok_def key_ok_def tier_has_def make_offload_tier_def ot_contains_def)

lemma hit_prefix_takeWhile:
  "fst (hit_prefix S now slowest ks) =
     takeWhile (\<lambda>k. readable now S k \<and> \<not> (is_offload_tier S (so_tier (the (map_of (mo_objects S) (to_string k)))) \<and> tier_lacks S (to_string k))) ks"
  by (induction ks arbitrary: slowest) (auto simp: readable_def Let_def case_prod_beta split: option.split)

lemma get_result:
  "keys \<noteq> [] \<Longrightarrow> if \<forall>k \<in> set keys. readable now (fst s) k then \<exists>l. fst (ms_get keys now d s) = Ok l
   else fst (ms_get keys now d s) = Raise SimulationStateError"
proof -
  assume ne: "keys \<noteq> []"
  obtain S st where s: "s = (S, st)" by (cases s)
  obtain r1 s1 where e: "read_each now 0 keys (S, st\<lparr>ss_get_count := ss_get_count st + 1\<rparr>) = (r1, s1)" by (metis surj_pair)
  show ?thesis using read_each_facts(3) [OF e] ne by (auto simp: ms_get_def s e split: if_splits)
qed

section \<open>A tier below one block\<close>

text \<open>
  The properties assume room for a block in the tier. The configuration checks only that the capacity in bytes is positive; with fewer
  bytes than a block, the first put raises, and leaves its object in memory.
\<close>

lemma tier_below_block_raises:
  assumes "active_tier S = Some T" "ot_capacity_blocks T \<le> 0"
  shows "\<exists>S' st'. put_in_memory key ob now d timing (S, st) = (Raise ConfigurationError, (S', st')) \<and> map_of (mo_objects S') key \<noteq> None"
proof -
  have "active_tier (S\<lparr>mo_objects := a, mo_memory_used_bytes := b, mo_memory_lru := l\<rparr>) = Some T" for a b l
    using assms(1) by (auto simp: active_tier_def split: if_splits)
  then show ?thesis using assms(2) by (simp add: put_in_memory_def Let_def ot_write_def)
qed

section \<open>Properties\<close>

text \<open>A small store: room for one block in memory and for two in the tier.\<close>

definition sample_mooncake :: mooncake_config where
  "sample_mooncake = \<lparr>mc_global_segment_size = 0, mc_memory_capacity_blocks = Some 1, mc_enable_offload = True, mc_replica_num = 1,
     mc_admission_policy = ''always'', mc_eviction_policy = ''lru'', mc_preferred_segment = None\<rparr>"

definition sample_store :: mstore where
  "sample_store = make_store sample_mooncake 4 (make_offload_tier ''ssd'' True 8 (\<lambda>_ _. 1) 4)"

definition sample_stats :: store_stats where
  "sample_stats = \<lparr>ss_get_count = 0, ss_put_count = 0, ss_store_hit_count = 0, ss_store_miss_count = 0, ss_memory_tier_hit_count = 0,
     ss_disk_tier_hit_count = 0, ss_ssd_read_blocks = 0, ss_ssd_read_bytes = 0, ss_ssd_write_blocks = 0, ss_ssd_write_bytes = 0,
     ss_admission_count = 0, ss_admission_rejection_count = 0, ss_eviction_count = 0,
     ss_backend = \<lparr>bk_hit_count = 0, bk_read_operations = 0, bk_read_blocks = 0, bk_read_bytes = 0, bk_read_service_seconds = 0,
       bk_write_operations = 0, bk_write_blocks = 0, bk_write_bytes = 0, bk_write_service_seconds = 0\<rparr>\<rparr>"

definition sample_key :: "string \<Rightarrow> pool_key" where
  "sample_key h = PoolKey \<lparr>km_model_name = ''m'', km_tp_rank = 0, km_pp_rank = 0, km_store_namespace = ''n'', km_cache_prefix = '''',
     km_tenant_id = '''', km_group_id = 0, km_pcp_rank = 0, km_dcp_rank = 0\<rparr> h"

lemma sample_put: "store_steps 0 (sample_store, sample_stats) 1 (snd (put_with_timing [sample_key ''a'', sample_key ''b''] None 1 0 None (sample_store, sample_stats)))"
  by (rule steps_put [OF steps_start]) simp

text \<open>
  C4. In every run of lookups, reads and puts of a new store at times that do not go back, the bytes in use are the block size
  times the number of objects in memory and never exceed the capacity, the recency list holds exactly the keys of these objects,
  each once, an object is marked as persisted exactly when the offload tier holds its key, and an object that is not in memory is
  in the offload tier. Assumed of an enabled offload tier: it has room for a block and is not called memory.
\<close>
theorem store_account:
  assumes "mc_enable_offload c \<longrightarrow> 0 < cap div max 1 bb \<and> name \<noteq> ''memory''"
    and "store_steps 0 (make_store c bb (make_offload_tier name legacy cap cost bb), st) t (S, st')"
  shows "mo_memory_used_bytes S = mo_block_bytes S * int (card {k. held_in_memory S k}) \<and>
    mo_memory_used_bytes S \<le> max 0 (mo_memory_capacity_bytes S) \<and>
    distinct (mo_memory_lru S) \<and> set (mo_memory_lru S) = {k. held_in_memory S k} \<and>
    (\<forall>k ob. map_of (mo_objects S) k = Some ob \<longrightarrow>
       so_persisted ob = tier_has S k \<and> (so_tier ob = ''memory'' \<or> is_offload_tier S (so_tier ob) \<and> tier_has S k))"
proof -
  have ok: "store_ok t S" using steps_ok [OF assms(2)] store_ok_new [OF assms(1)] by simp
  have lru: "set (mo_memory_lru S) = {k. held_in_memory S k}"
    using ok by (force simp: store_ok_def key_ok_def held_in_memory_def split: option.splits)
  have frame: "frame_ok S" using ok by (simp add: store_ok_def)
  then have "card {k. held_in_memory S k} = length (mo_memory_lru S)"
    unfolding lru [symmetric] by (simp add: frame_ok_def distinct_card)
  moreover have "so_persisted ob = tier_has S k \<and> (so_tier ob = ''memory'' \<or> is_offload_tier S (so_tier ob) \<and> tier_has S k)"
    if "map_of (mo_objects S) k = Some ob" for k ob
  proof -
    have "key_ok t S k" using ok by (simp add: store_ok_def)
    then show ?thesis using that by (cases "mo_offload S") (auto simp: key_ok_def tier_has_def in_tier_def is_offload_tier_def)
  qed
  ultimately show ?thesis using frame lru by (simp add: frame_ok_def)
qed

theorem store_account_witness:
  "let S = fst (snd (put_with_timing [sample_key ''a'', sample_key ''b''] None 1 0 None (sample_store, sample_stats)))
   in mo_memory_used_bytes S = mo_block_bytes S * int (card {k. held_in_memory S k}) \<and> set (mo_memory_lru S) = {k. held_in_memory S k}"
  using store_account [of sample_mooncake 8 4 "''ssd''" True "\<lambda>_ _. 1" sample_stats 1
      "fst (snd (put_with_timing [sample_key ''a'', sample_key ''b''] None 1 0 None (sample_store, sample_stats)))"
      "snd (snd (put_with_timing [sample_key ''a'', sample_key ''b''] None 1 0 None (sample_store, sample_stats)))"]
    sample_put [unfolded sample_store_def] by (simp add: sample_store_def sample_mooncake_def)

text \<open>
  C6. What a read has started to transfer stays until the transfer is over. When a read of some keys at a time of a run returns a
  latency, then in every later state of the run before that time plus the initial delay plus the latency, each of the keys is
  still in the store, in the tier it was read from, whatever puts have evicted in between.
\<close>
theorem read_objects_stay:
  assumes "mc_enable_offload c \<longrightarrow> 0 < cap div max 1 bb \<and> name \<noteq> ''memory''"
    and "store_steps 0 (make_store c bb (make_offload_tier name legacy cap cost bb), st) t s" and "t \<le> now"
    and "ms_get keys now d s = (Ok latency, s1)" and "store_steps now s1 t' s'" and "t' < now + d + latency" and "k \<in> set keys"
  shows "\<exists>ob ob'. map_of (mo_objects (fst s)) (to_string k) = Some ob \<and> map_of (mo_objects (fst s')) (to_string k) = Some ob' \<and> so_tier ob' = so_tier ob"
proof -
  have ok: "store_ok now (fst s)" "0 \<le> now"
    using steps_ok [OF assms(2)] store_ok_new [OF assms(1)] store_ok_later [OF _ assms(3)] assms(3) by auto
  obtain S0 st0 where s: "s = (S0, st0)" by (cases s)
  have ne: "keys \<noteq> []" using assms(7) by auto
  obtain r2 s2 where e: "read_each now 0 keys (S0, st0\<lparr>ss_get_count := ss_get_count st0 + 1\<rparr>) = (r2, s2)" by (metis surj_pair)
  then have s1: "r2 = Ok latency" "fst s1 = fold (hold_one (now + d + latency)) keys (fst s2)"
    using assms(4) s ne by (cases r2; auto simp: ms_get_def)+
  note f = read_each_facts(1,3) [OF e] read_each_facts(2) [OF e, of now]
  have ok2: "store_ok now (fst s2)" using f(3) ok(1) s by simp
  have "readable now S0 k" using f(2) s1(1) assms(7) by (auto split: if_splits)
  then obtain ob where ob: "map_of (mo_objects S0) (to_string k) = Some ob" by (auto simp: readable_def split: option.splits)
  obtain ob2 where ob2: "map_of (mo_objects (fst s2)) (to_string k) = Some ob2" "so_tier ob2 = so_tier ob"
    using reread_object(1) [of S0 "fst s2"] f(1) ob by auto
  obtain ob1 where ob1: "map_of (mo_objects (fst s1)) (to_string k) = Some ob1" "so_tier ob1 = so_tier ob2" "now + d + latency \<le> busy_until ob1"
    using fold_hold_holds [OF ok2 assms(7) ob2(1), of "now + d + latency"] s1(2) by auto
  have "store_ok now (fst s1)" using fold_hold_facts [OF ok2] s1(2) by simp
  from steps_keep [OF assms(5) this ok(2) ob1(1)] show ?thesis using assms(6) ob1 ob2(2) ob s by (auto simp: stays_def)
qed

definition plain_store :: mstore where
  "plain_store = make_store (sample_mooncake\<lparr>mc_enable_offload := False\<rparr>) 4 (make_offload_tier ''ssd'' True 8 (\<lambda>_ _. 1) 4)"

definition sample_state :: mstate where
  "sample_state = snd (put_with_timing [sample_key ''a''] None 0 0 None (plain_store, sample_stats))"

lemma sample_state_steps: "store_steps 0 (plain_store, sample_stats) 0 sample_state"
  unfolding sample_state_def by (rule steps_put [OF steps_start]) simp

lemma sample_get: "fst (ms_get [sample_key ''a''] 1 5 sample_state) = Ok 0"
  by (simp add: sample_state_def plain_store_def sample_mooncake_def make_store_def put_with_timing_def slice_to_def put_one_def
      new_object_def ensure_memory_capacity_def ensure_loop_room put_in_memory_def active_tier_def no_timing_def ms_get_def Let_def
      ms_touch_def upd_object_def)

theorem read_objects_stay_witness:
  "\<exists>ob ob'. map_of (mo_objects (fst sample_state)) (to_string (sample_key ''a'')) = Some ob \<and>
     map_of (mo_objects (fst (snd (put_with_timing [sample_key ''b''] None 2 0 None (snd (ms_get [sample_key ''a''] 1 5 sample_state))))))
       (to_string (sample_key ''a'')) = Some ob' \<and> so_tier ob' = so_tier ob"
proof (rule read_objects_stay [of "sample_mooncake\<lparr>mc_enable_offload := False\<rparr>" 8 4 "''ssd''" True "\<lambda>_ _. 1" sample_stats 0 sample_state 1
      "[sample_key ''a'']" 5 0 "snd (ms_get [sample_key ''a''] 1 5 sample_state)" 2])
  show "ms_get [sample_key ''a''] 1 5 sample_state = (Ok 0, snd (ms_get [sample_key ''a''] 1 5 sample_state))"
    using sample_get by (metis prod.collapse)
  show "store_steps 1 (snd (ms_get [sample_key ''a''] 1 5 sample_state)) 2
     (snd (put_with_timing [sample_key ''b''] None 2 0 None (snd (ms_get [sample_key ''a''] 1 5 sample_state))))"
    by (rule steps_put [OF steps_start]) simp
qed (use sample_state_steps in \<open>simp_all add: plain_store_def\<close>)

text \<open>
  C30. A lookup returns the longest prefix of its keys whose objects are resident and ready, and leaves the store as it was; a read
  of the keys it returned, at the same time, never raises.
\<close>
theorem lookup_hits_can_be_read:
  "let (hit, s1) = ms_lookup keys now s
   in sh_keys hit = takeWhile (\<lambda>k. readable now (fst s) k \<and>
          \<not> (is_offload_tier (fst s) (so_tier (the (map_of (mo_objects (fst s)) (to_string k)))) \<and> tier_lacks (fst s) (to_string k))) keys \<and>
      sh_hit_blocks hit = length (sh_keys hit) \<and> fst s1 = fst s \<and> (\<exists>latency. fst (ms_get (sh_keys hit) now d s1) = Ok latency)"
proof -
  obtain hit s1 where l: "ms_lookup keys now s = (hit, s1)" by (metis surj_pair)
  have "sh_keys hit = fst (hit_prefix (fst s) now None keys) \<and> sh_hit_blocks hit = length (sh_keys hit)"
    using l lookup_hit [of keys now s] by simp
  moreover have "fst s1 = fst s" using lookup_store [of keys now s] l by simp
  moreover have "\<exists>latency. fst (ms_get (sh_keys hit) now d s1) = Ok latency"
  proof (cases "sh_keys hit = []")
    case False
    have "\<forall>k \<in> set (sh_keys hit). readable now (fst s1) k"
      using calculation by (auto simp: hit_prefix_takeWhile dest: set_takeWhileD)
    then show ?thesis using get_result [OF False, of now s1 d] by simp
  qed (simp add: ms_get_def)
  ultimately show ?thesis by (simp add: l hit_prefix_takeWhile)
qed

text \<open>
  C31. A read returns a latency when every key has an object that is ready, and raises SimulationStateError, no other error, when
  one of them has no object or has one that is not ready yet.
\<close>
theorem get_error_exact:
  "if \<forall>k \<in> set keys. readable now (fst s) k then \<exists>latency. fst (ms_get keys now d s) = Ok latency
   else fst (ms_get keys now d s) = Raise SimulationStateError"
proof (cases "keys = []")
  case True
  then show ?thesis by (simp add: ms_get_def)
next
  case False
  then show ?thesis by (rule get_result)
qed

theorem get_error_exact_witness:
  "fst (ms_get [sample_key ''a'', sample_key ''b''] 1 0 (plain_store, sample_stats)) = Raise SimulationStateError \<and>
   (\<exists>latency. fst (ms_get [sample_key ''a''] 1 5 sample_state) = Ok latency)"
proof
  have "\<not> readable 1 plain_store (sample_key ''a'')" by (simp add: readable_def plain_store_def make_store_def)
  then show "fst (ms_get [sample_key ''a'', sample_key ''b''] 1 0 (plain_store, sample_stats)) = Raise SimulationStateError"
    using get_error_exact [of "[sample_key ''a'', sample_key ''b'']" 1 "(plain_store, sample_stats)" 0] by simp
  have "readable 1 (fst sample_state) (sample_key ''a'')"
    by (simp add: readable_def sample_state_def plain_store_def sample_mooncake_def make_store_def put_with_timing_def slice_to_def
        put_one_def new_object_def ensure_memory_capacity_def ensure_loop_room put_in_memory_def active_tier_def no_timing_def Let_def
        ms_touch_def upd_object_def)
  then show "\<exists>latency. fst (ms_get [sample_key ''a''] 1 5 sample_state) = Ok latency"
    using get_error_exact [of "[sample_key ''a'']" 1 sample_state 5] by simp
qed

text \<open>
  C11. A put in any state of a run ends, with a result: the eviction loop that makes room stops, finds every key of the recency list
  in the store, and the offload tier accepts or rejects each write without raising.
\<close>
theorem put_returns:
  assumes "mc_enable_offload c \<longrightarrow> 0 < cap div max 1 bb \<and> name \<noteq> ''memory''"
    and "store_steps 0 (make_store c bb (make_offload_tier name legacy cap cost bb), st) t s" and "t \<le> now"
  shows "\<exists>timing s'. put_with_timing keys b now d adm s = (Ok timing, s') \<and>
    mo_memory_used_bytes (fst s') \<le> max 0 (mo_memory_capacity_bytes (fst s))"
proof -
  have ok: "store_ok now (fst s)" "0 \<le> now"
    using steps_ok [OF assms(2)] store_ok_new [OF assms(1)] store_ok_later [OF _ assms(3)] assms(3) by auto
  obtain timing where "fst (put_with_timing keys b now d adm s) = Ok timing" using put_keeps(1) [OF ok] by blast
  moreover have "mo_memory_used_bytes (fst (snd (put_with_timing keys b now d adm s))) \<le> max 0 (mo_memory_capacity_bytes (fst s))"
    using put_done_bound [OF put_keeps(2) [OF ok]] .
  ultimately show ?thesis by (metis prod.collapse)
qed

theorem put_returns_witness:
  "\<exists>timing s'. put_with_timing [sample_key ''b''] None 2 0 None sample_state = (Ok timing, s') \<and>
    mo_memory_used_bytes (fst s') \<le> max 0 (mo_memory_capacity_bytes (fst sample_state))"
  by (rule put_returns [of "sample_mooncake\<lparr>mc_enable_offload := False\<rparr>" 8 4 "''ssd''" True "\<lambda>_ _. 1" sample_stats 0])
     (use sample_state_steps in \<open>simp_all add: plain_store_def\<close>)

text \<open>
  C12. The bulk path for large writes is only an optimisation: for distinct keys, a put that takes it gives the same result, the
  same statistics and the same store as the loop that puts the keys one by one, except for the access stamps.
\<close>
theorem bulk_put_is_the_loop:
  assumes "store_steps 0 (make_store c bb (make_offload_tier name legacy cap cost bb), st0) t (S, st)" and "t \<le> now"
    and "mc_enable_offload c \<longrightarrow> 0 < cap div max 1 bb \<and> name \<noteq> ''memory''"
    and "distinct keys" and "keys \<noteq> []" and "mc_admission_policy (mo_config S) \<noteq> ''never''"
  shows "let bulk = put_with_timing keys None now d None (S, st);
             loop = put_each now d no_timing keys (S, st\<lparr>ss_put_count := ss_put_count st + 1\<rparr>)
         in fst bulk = fst loop \<and> snd (snd bulk) = snd (snd loop) \<and> unstamp (fst (snd bulk)) = unstamp (fst (snd loop))"
proof -
  have ok: "store_ok now S" "0 \<le> now"
    using steps_ok [OF assms(1)] store_ok_new [OF assms(3)] store_ok_later [OF _ assms(2)] assms(2) by auto
  have dist: "distinct (map to_string keys)" using assms(4) to_string_inj by (simp add: distinct_map inj_on_def inj_def)
  have abs: "(\<lambda>k. map_of (mo_objects S) k = None) = absent S" by (simp add: absent_def fun_eq_iff)
  let ?st = "st\<lparr>ss_put_count := ss_put_count st + 1\<rparr>" and ?fresh = "filter (absent S) (map to_string keys)"
  have put: "put_with_timing keys None now d None (S, st) =
     (if \<not> mc_enable_offload (mo_config S) \<and> 64 < int (length keys) \<and> eviction_policy_allows_batch S (int (length keys)) \<and>
         mo_memory_used_bytes S + int (length ?fresh) * mo_block_bytes S \<le> mo_memory_capacity_bytes S
      then (Ok no_timing, put_batch (map to_string keys) ?fresh (now + d) (S, ?st)) else put_each now d no_timing keys (S, ?st))"
    using assms(5,6) by (simp add: put_with_timing_def slice_to_def from_keys_distinct [OF dist] abs Let_def)
  show ?thesis
  proof (cases "\<not> mc_enable_offload (mo_config S) \<and> mo_memory_used_bytes S + int (length ?fresh) * mo_block_bytes S \<le> mo_memory_capacity_bytes S")
    case True
    then have off: "mo_offload S = None" using ok(1) by (simp add: store_ok_def frame_ok_def)
    obtain S' where "put_each now d no_timing keys (S, ?st) = (Ok no_timing, (S', snd (put_batch (map to_string keys) ?fresh (now + d) (S, ?st))))"
      "unstamp S' = unstamp (fst (put_batch (map to_string keys) ?fresh (now + d) (S, ?st)))"
      by (rule put_batch_loop [OF ok off dist]) (use True in simp)
    then show ?thesis unfolding put Let_def by simp
  qed (auto simp: put Let_def)
qed

definition large_store :: mstore where
  "large_store = make_store (sample_mooncake\<lparr>mc_enable_offload := False, mc_memory_capacity_blocks := Some 100\<rparr>) 4 (make_offload_tier ''ssd'' True 8 (\<lambda>_ _. 1) 4)"

definition many_keys :: "pool_key list" where
  "many_keys = map (\<lambda>n. sample_key (replicate n CHR ''a'')) [0..<70]"

lemma many_keys_facts: "distinct many_keys" "length many_keys = 70" "many_keys \<noteq> []"
proof -
  have "inj (\<lambda>n. sample_key (replicate n CHR ''a''))" by (rule injI) (simp add: sample_key_def)
  then show "distinct many_keys" by (simp add: many_keys_def distinct_map inj_on_def inj_def)
  show "length many_keys = 70" by (simp add: many_keys_def)
  then show "many_keys \<noteq> []" by auto
qed

theorem bulk_put_is_the_loop_witness:
  "64 < length many_keys \<and> eviction_policy_allows_batch large_store (int (length many_keys)) \<and>
   (let bulk = put_with_timing many_keys None 3 1 None (large_store, sample_stats);
        loop = put_each 3 1 no_timing many_keys (large_store, sample_stats\<lparr>ss_put_count := ss_put_count sample_stats + 1\<rparr>)
    in fst bulk = fst loop \<and> snd (snd bulk) = snd (snd loop) \<and> unstamp (fst (snd bulk)) = unstamp (fst (snd loop)))"
proof (intro conjI)
  show "64 < length many_keys" by (simp add: many_keys_facts)
  show "eviction_policy_allows_batch large_store (int (length many_keys))"
    by (simp add: many_keys_facts eviction_policy_allows_batch_def large_store_def make_store_def sample_mooncake_def)
  show "let bulk = put_with_timing many_keys None 3 1 None (large_store, sample_stats);
        loop = put_each 3 1 no_timing many_keys (large_store, sample_stats\<lparr>ss_put_count := ss_put_count sample_stats + 1\<rparr>)
    in fst bulk = fst loop \<and> snd (snd bulk) = snd (snd loop) \<and> unstamp (fst (snd bulk)) = unstamp (fst (snd loop))"
    by (rule bulk_put_is_the_loop [of "sample_mooncake\<lparr>mc_enable_offload := False, mc_memory_capacity_blocks := Some 100\<rparr>" 4 "''ssd''" True 8 "\<lambda>_ _. 1" sample_stats 0])
       (use many_keys_facts in \<open>simp_all add: large_store_def steps_start, simp add: make_store_def sample_mooncake_def\<close>)
qed

end
