(* ===== verification/Spec2Isabelle.thy ===== *)
theory Spec2Isabelle
  imports Free_Queue Block_Pool Prefix_Keys Request_Progress Block_Lifecycle Sched_Rollback
    Expert_Placement Consistent_Hash Worker_Pool Store_Safety
begin

text \<open>
  \<^bold>\<open>TokenSim\<close> simulates the serving of large language models. A request is routed to a replica of the model, waits in the
  queue of the replica's scheduler, is admitted when the block manager has room for its key-value cache, computes its prompt in
  chunks and then samples tokens, and gives its blocks back. Blocks of equal prompt prefixes are shared; blocks can be kept in an
  external store with a memory and an offload tier. This development models that path and proves what each part promises and what
  the parts promise together. It follows \<^verbatim>\<open>src/TokenSim\<close> file by file.

  \<^bold>\<open>Conventions.\<close>
  \<^item> A Python object that several others hold is an address or an id into an explicit store: physical blocks (\<^verbatim>\<open>Token_Block\<close>),
    entries of the free queue (\<^verbatim>\<open>Free_Queue\<close>), requests of a scheduler (\<^verbatim>\<open>Scheduler\<close>), objects of the external store
    (\<^verbatim>\<open>Mooncake_Store\<close>). A method takes the state and returns it updated.
  \<^item> A method that can raise returns a \<open>result\<close> beside the state it had reached, as Python keeps the writes made before the raise.
  \<^item> Dictionaries are association lists in insertion order; ordered dictionaries without values are lists of keys.
  \<^item> Python's integers are \<^typ>\<open>int\<close>, times are \<^typ>\<open>real\<close> in place of floats, and the 64-bit hashes of
    \<^verbatim>\<open>placement/consistent_hash.py\<close> are words of 64 bits, where the source masks to 64 bits.
  \<^item> Characters are those below 256.
  \<^item> What is not in the package is a parameter: the digests sha256 and blake2b, the cost of a plugged-in storage backend, the load
    a worker reports. \<^verbatim>\<open>prefix_key_sound\<close> assumes that the digest does not collide on the payloads at hand.

  \<^bold>\<open>Blocks\<close> (\<^verbatim>\<open>block/\<close>).
  \<^item> \<^verbatim>\<open>Token_Block\<close>: \<^verbatim>\<open>block.py\<close>. \<^verbatim>\<open>Free_Queue\<close>: \<^verbatim>\<open>free_queue.py\<close>; the lazily invalidated queue refines two plain
    lists, and the locale \<open>handout_queue\<close> gives the order in which it hands out blocks.
  \<^item> \<^verbatim>\<open>Block_Pool\<close>: \<^verbatim>\<open>block_pool.py\<close>; the lazy pool hands out what an eager one would. The same locale is interpreted on it.
  \<^item> \<^verbatim>\<open>Prefix_Keys\<close>: \<^verbatim>\<open>prefix_cache.py\<close>; equal keys mean equal prefixes in the same scope, and the cache of key chains is
    transparent. \<^verbatim>\<open>KV_Cache\<close>: \<^verbatim>\<open>kv_cache_manager.py\<close>. \<^verbatim>\<open>Block_Table\<close>: \<^verbatim>\<open>block_table.py\<close>.
  \<^item> \<^verbatim>\<open>Block_Allocator\<close>, \<^verbatim>\<open>Block_Grants\<close>, \<^verbatim>\<open>Block_Manager\<close>, \<^verbatim>\<open>Block_Lifecycle\<close>: \<^verbatim>\<open>block_manager.py\<close>. The invariant
    compares the reference counts with the multiset of references that the table and the reserve hold. The locales \<open>ref_counts\<close> and
    \<open>ref_pool\<close> are the contract of a reference-counted pool, over which groups of calls with their rollback are verified once. The
    properties: no block is lost or used twice over any sequence of calls, an admission that was promised succeeds, a failing one
    changes nothing, a swap and back restores the blocks.

  \<^bold>\<open>Requests\<close> (\<^verbatim>\<open>llm/llm_request.py\<close>, \<^verbatim>\<open>llm/request_time.py\<close>). \<^verbatim>\<open>Request_Data\<close> and \<^verbatim>\<open>Request\<close> hold the record and
  its operations, \<^verbatim>\<open>Request_Progress\<close> their properties: every step makes progress, a request finishes within a bound, the timing
  aggregates are those of the step lists, admission accounting adds up, cancellation waits for every owner.
  \<^verbatim>\<open>Speculation\<close> (\<^verbatim>\<open>llm/speculative_acceptance.py\<close>, \<^verbatim>\<open>config/speculative_execution.py\<close>) bounds the acceptance draws.

  \<^bold>\<open>Scheduler\<close> (\<^verbatim>\<open>llm/llm_scheduler.py\<close>, \<^verbatim>\<open>llm/paged_scheduling.py\<close>, \<^verbatim>\<open>llm/paged_tokens.py\<close>). \<^verbatim>\<open>Scheduler\<close> and
  \<^verbatim>\<open>Sched_Lifecycle\<close> model every operation over an interface record of the block manager and the connector. \<^verbatim>\<open>Sched_Step\<close> proves
  one step correct in the locale \<open>kv_service\<close>, the contract of an ungrouped manager; \<^verbatim>\<open>Sched_Uniform\<close> interprets it on the
  block manager of this development with the no-op connector. The properties are for configurations without speculation:
  no request is lost or doubled, token budget and sequence limit hold, admission is in order. \<^verbatim>\<open>mtp_admission_overruns\<close>
  shows how the budget fails with speculation. \<^verbatim>\<open>Sched_Rollback\<close> compares what \<^verbatim>\<open>_admit\<close> writes into a request with the
  fields that a rollback restores; the rollback needs a grouped manager, of which it assumes that it, like the connector,
  writes only those fields of a request, as \<^verbatim>\<open>block/hybrid/allocator.py\<close> and the connectors do.

  \<^bold>\<open>Placement\<close>. \<^verbatim>\<open>Parallel_Config\<close> (\<^verbatim>\<open>config/parallel_config.py\<close>): coordinates of ranks and expert-parallel groups.
  \<^verbatim>\<open>Expert_Placement\<close> (\<^verbatim>\<open>moe/config.py\<close>, \<^verbatim>\<open>moe/placement.py\<close>): which rank has which expert. \<^verbatim>\<open>Consistent_Hash\<close>
  (\<^verbatim>\<open>placement/consistent_hash.py\<close>): the ring moves only the keys of a replica that is taken out, and sessions stay.
  \<^verbatim>\<open>Worker_Pool\<close> (\<^verbatim>\<open>placement/policies.py\<close>): the policies and sticky sessions. \<^verbatim>\<open>Decimal\<close> holds facts on decimal texts.

  \<^bold>\<open>External store\<close>. \<^verbatim>\<open>Pool_Key\<close> (\<^verbatim>\<open>mooncake/pool_key.py\<close>): distinct blocks have distinct keys. \<^verbatim>\<open>Offload_Tier\<close>
  (\<^verbatim>\<open>mooncake/ssd.py\<close>, \<^verbatim>\<open>storage/ssd.py\<close>): the tier stays within its capacity and writes leave protected entries alone, the
  contract \<open>protecting_tier\<close>. \<^verbatim>\<open>Mooncake_Store\<close> (\<^verbatim>\<open>mooncake/store.py\<close>) models the store, \<^verbatim>\<open>Store_Invariant\<close> and
  \<^verbatim>\<open>Store_Runs\<close> prove its invariant operation by operation, and \<^verbatim>\<open>Store_Safety\<close> states the properties over runs of lookups,
  reads and puts at times that do not go back. They assume of an enabled offload tier that it is not called memory, which
  \<^verbatim>\<open>storage/config.py\<close> checks, and that it has room for a block, where \<^verbatim>\<open>mooncake/config.py\<close> only asks for a positive number
  of bytes (\<^verbatim>\<open>tier_below_block_raises\<close>). The capacity of the store does not change during a run.

  \<^bold>\<open>Loops.\<close> No model uses fuel. Loops are structural, or end by a measure: the eviction loop of the store by the length of its recency
  list, the admission loop of the scheduler by the length of its queues. The 32 rounds and the depth 23 of \<open>fbi_hash\<close> are
  those of the source.

  \<^bold>\<open>Not modelled.\<close> Cost models and everything else that evaluates floating-point formulas over measured tables
  (\<^verbatim>\<open>latency/\<close>, \<^verbatim>\<open>operator_data/\<close>, \<^verbatim>\<open>comm/\<close>, \<^verbatim>\<open>mooncake/transfer_engine.py\<close>): there is no exact statement to prove
  of them. Processes of the SimPy package (\<^verbatim>\<open>llm/engine/\<close>, \<^verbatim>\<open>llm/dp_coordinator.py\<close>, \<^verbatim>\<open>hardware/\<close>, connectors in
  \<^verbatim>\<open>kv_transfer/\<close>), whose scheduling is that package's. The attention/FFN mode \<^verbatim>\<open>af/\<close> and the grouped and replicated
  caches (\<^verbatim>\<open>block/hybrid/\<close>, \<^verbatim>\<open>block/replica_kv.py\<close>), which are alternatives to the path above; the scheduler's calls to a
  grouped manager are in the interface record. Reading and checking untyped JSON (the rest of \<^verbatim>\<open>config/\<close>), traces and workload
  generators, the command line, profiling and reports: input and output. NumPy sampling in \<^verbatim>\<open>moe/routing.py\<close>. Exports such as
  \<^verbatim>\<open>describe\<close>, \<^verbatim>\<open>to_dict\<close> and \<^verbatim>\<open>as_dict\<close> of the modelled classes.
\<close>

end
